(* ===== verification/Go_Prelude.thy ===== *)
theory Go_Prelude
  imports Main "HOL-Library.Word" "HOL-Library.AList" "HOL-Library.Sublist" "HOL-Library.Multiset"
begin

text \<open>
  The part of Go and of its standard library that the components of leng share: run-time
  panics, machine integers, \<open>time.Time\<close> and \<open>time.Duration\<close>, byte strings with the
  operations of package \<open>strings\<close> the source calls, and the generic facts about them.

  \<^item> A Go string is a list of bytes, \<open>char list\<close>. \<open>ToLower\<close> and the white-space test are
    those of ASCII: they agree with Go on every string whose bytes are below 128, which
    is what the wire format of host names carries.
  \<^item> A \<open>time.Time\<close> is the number of nanoseconds since the zero time, a \<open>time.Duration\<close> a
    number of nanoseconds, both as \<open>int\<close>: every duration the code builds from a
    \<open>uint32\<close> number of seconds fits in 63 bits (lemma \<open>seconds_fit_int64\<close>).
\<close>

section \<open>Collections of facts\<close>

named_theorems go_time \<open>unfolding rules for the time arithmetic\<close>
named_theorems heap_simps \<open>reads over writes on the record heap\<close>

section \<open>Panics, integers, addresses\<close>

text \<open>A run-time panic that no \<open>recover\<close> stops ends the process.\<close>

datatype go_panic = NilDereference | IndexOutOfRange | TypeAssertion | NilMapWrite
  | SendOnClosedChannel | CloseOfClosedChannel | ExplicitPanic string

type_synonym u16 = "16 word"
type_synonym u32 = "32 word"
type_synonym byte = "8 word"
type_synonym gotime = int
type_synonym duration = int

text \<open>Panics propagate: the second computation runs only when the first returned.\<close>

fun go_bind :: "'e + 'a \<Rightarrow> ('a \<Rightarrow> 'e + 'b) \<Rightarrow> 'e + 'b" where
  "go_bind (Inl p) f = Inl p"
| "go_bind (Inr x) f = f x"

lemma go_bind_Inr_iff:
  "go_bind m f = Inr y \<longleftrightarrow> (\<exists>x. m = Inr x \<and> f x = Inr y)"
  by (cases m) auto

lemma go_bind_Inl_iff:
  "go_bind m f = Inl p \<longleftrightarrow> m = Inl p \<or> (\<exists>x. m = Inr x \<and> f x = Inl p)"
  by (cases m) auto

lemma go_bind_assoc: "go_bind (go_bind m f) g = go_bind m (\<lambda>x. go_bind (f x) g)"
  by (cases m) auto

lemma go_bind_cong [fundef_cong]:
  "m = m' \<Longrightarrow> (\<And>x. m' = Inr x \<Longrightarrow> f x = g x) \<Longrightarrow> go_bind m f = go_bind m' g"
  by (cases m') auto

section \<open>Package time\<close>

definition Second :: duration where
  "Second = 1000000000"

definition Millisecond :: duration where
  "Millisecond = 1000000"

text \<open>\<open>time.Duration(n) * unit\<close>, in 64 bits.\<close>

definition Duration :: "int \<Rightarrow> duration \<Rightarrow> duration" where
  "Duration n unit = (n * unit + 2 ^ 63) mod 2 ^ 64 - 2 ^ 63"

lemma Duration_small: "- (2 ^ 63) \<le> n * unit \<Longrightarrow> n * unit < 2 ^ 63 \<Longrightarrow> Duration n unit = n * unit"
  by (simp add: Duration_def)

text \<open>The interval of the built-in configuration.\<close>

lemma Duration_default_interval [simp]: "Duration 200 Millisecond = 200000000"
  by (simp add: Duration_def Millisecond_def)

definition time_Truncate :: "gotime \<Rightarrow> duration \<Rightarrow> gotime" where
  "time_Truncate t d = (if d \<le> 0 then t else t - t mod d)"

text \<open>\<open>Duration.Truncate\<close> rounds towards zero; Go's \<open>%\<close> takes the sign of the dividend.\<close>

definition duration_Truncate :: "duration \<Rightarrow> duration \<Rightarrow> duration" where
  "duration_Truncate d m = (if m \<le> 0 then d else d - sgn d * (\<bar>d\<bar> mod m))"

text \<open>
  \<open>uint32(d.Seconds())\<close>: the conversion of a non-negative floating-point number of
  seconds drops the fraction.
\<close>

definition uint32_Seconds :: "duration \<Rightarrow> u32" where
  "uint32_Seconds d = word_of_int (sgn d * (\<bar>d\<bar> div Second))"

definition seconds_of_u32 :: "u32 \<Rightarrow> duration" where
  "seconds_of_u32 w = int (unat w) * Second"

lemma Second_pos [simp]: "0 < Second" and Second_nonneg [simp]: "0 \<le> Second"
  by (simp_all add: Second_def)

lemma seconds_of_u32_nonneg [simp]: "0 \<le> seconds_of_u32 w"
  by (simp add: seconds_of_u32_def)

lemma seconds_of_u32_less: "seconds_of_u32 w < 2 ^ 32 * Second"
proof -
  have "int (unat w) < 2 ^ 32"
    using unsigned_less [of w, where ?'a = int] by simp
  then show ?thesis
    by (simp add: seconds_of_u32_def)
qed

lemma seconds_fit_int64: "seconds_of_u32 w < 2 ^ 63"
  using seconds_of_u32_less [of w] by (simp add: Second_def)

lemma seconds_of_u32_mono: "v \<le> w \<Longrightarrow> seconds_of_u32 v \<le> seconds_of_u32 w"
  by (simp add: seconds_of_u32_def word_le_def)

text \<open>Truncating to a second before reading the seconds changes nothing.\<close>

lemma uint32_Seconds_Truncate [go_time]:
  assumes "0 \<le> d"
  shows "uint32_Seconds (duration_Truncate d Second) = word_of_int (d div Second)"
proof -
  have tr: "duration_Truncate d Second = d div Second * Second"
    using assms Second_pos
    by (simp add: duration_Truncate_def minus_mod_eq_div_mult abs_of_nonneg sgn_if del: Second_pos)
  have "0 \<le> d div Second"
    using assms by (simp add: pos_imp_zdiv_nonneg_iff)
  then show ?thesis
    by (simp add: uint32_Seconds_def tr sgn_if abs_mult)
qed

lemma unat_seconds_left:
  assumes "0 \<le> d" and "d < 2 ^ 32 * Second"
  shows "unat (word_of_int (d div Second) :: u32) = nat (d div Second)"
proof -
  have "d div Second < 2 ^ 32"
    using assms by (simp add: div_less_iff_less_mult Second_def)
  moreover have "0 \<le> d div Second"
    using assms by (simp add: pos_imp_zdiv_nonneg_iff)
  ultimately show ?thesis
    by (simp add: unat_eq_nat_uint uint_word_of_int_eq take_bit_eq_mod)
qed

section \<open>Package strings\<close>

definition to_lower_char :: "char \<Rightarrow> char" where
  "to_lower_char c =
     (let n = (of_char c :: nat) in if 65 \<le> n \<and> n \<le> 90 then char_of (n + 32) else c)"

definition ToLower :: "string \<Rightarrow> string" where
  "ToLower s = map to_lower_char s"

lemma to_lower_char_idem [simp]: "to_lower_char (to_lower_char c) = to_lower_char c"
  by (auto simp: to_lower_char_def Let_def)

lemma ToLower_idem [simp]: "ToLower (ToLower s) = ToLower s"
  by (simp add: ToLower_def)

lemma ToLower_Nil [simp]: "ToLower [] = []"
  by (simp add: ToLower_def)

lemma length_ToLower [simp]: "length (ToLower s) = length s"
  by (simp add: ToLower_def)

definition HasPrefix :: "string \<Rightarrow> string \<Rightarrow> bool" where
  "HasPrefix s p \<longleftrightarrow> prefix p s"

definition HasSuffix :: "string \<Rightarrow> string \<Rightarrow> bool" where
  "HasSuffix s p \<longleftrightarrow> suffix p s"

definition ContainsAny :: "string \<Rightarrow> string \<Rightarrow> bool" where
  "ContainsAny s chars \<longleftrightarrow> list_ex (\<lambda>c. c \<in> set chars) s"

text \<open>\<open>strings.Index\<close>: the first position where the substring starts, or \<open>None\<close> for -1.\<close>

fun Index :: "string \<Rightarrow> string \<Rightarrow> nat option" where
  "Index [] sub = (if sub = [] then Some 0 else None)"
| "Index (c # s) sub =
     (if prefix sub (c # s) then Some 0 else map_option Suc (Index s sub))"

text \<open>\<open>strings.Split\<close> on a separator of one byte: never empty.\<close>

fun Split :: "string \<Rightarrow> char \<Rightarrow> string list" where
  "Split [] sep = [[]]"
| "Split (c # s) sep =
     (if c = sep then [] # Split s sep
      else (case Split s sep of [] \<Rightarrow> [[c]] | p # ps \<Rightarrow> (c # p) # ps))"

lemma Split_not_Nil [simp]: "Split s sep \<noteq> []"
  by (cases s) (auto split: list.splits)

lemma Split_no_sep: "c \<notin> set s \<Longrightarrow> Split s c = [s]"
  by (induction s) auto

lemma Split_append_sep: "Split (a @ c # b) c = Split a c @ Split b c"
proof (induction a)
  case (Cons d a)
  obtain p ps where "Split a c = p # ps" by (cases "Split a c") simp_all
  with Cons show ?case by simp
qed simp

section \<open>Numbers as text\<close>

definition digit :: "nat \<Rightarrow> char" where
  "digit n = (if n < 10 then char_of (48 + n) else char_of (87 + n))"

fun Itoa :: "nat \<Rightarrow> string" where
  "Itoa n = (if n < 10 then [digit n] else Itoa (n div 10) @ [digit (n mod 10)])"

declare Itoa.simps [simp del]

definition FormatBool :: "bool \<Rightarrow> string" where
  "FormatBool b = (if b then ''true'' else ''false'')"

text \<open>\<open>fmt.Sprintf("%x", bytes)\<close>: two lower-case digits per byte.\<close>

definition hex_byte :: "byte \<Rightarrow> string" where
  "hex_byte b = [digit (unat b div 16), digit (unat b mod 16)]"

definition hex_string :: "byte list \<Rightarrow> string" where
  "hex_string bs = concat (map hex_byte bs)"

lemma to_lower_char_digit: "n < 16 \<Longrightarrow> to_lower_char (digit n) = digit n"
  by (auto simp: to_lower_char_def digit_def Let_def)

lemma unat_byte_less: "unat (b :: byte) < 256"
  using unsigned_less [of b, where ?'a = nat] by simp

lemma ToLower_hex_byte: "ToLower (hex_byte b) = hex_byte b"
proof -
  have "unat b div 16 < 16" and "unat b mod 16 < 16"
    using unat_byte_less [of b] by simp_all
  then show ?thesis by (simp add: ToLower_def hex_byte_def to_lower_char_digit)
qed

lemma ToLower_append: "ToLower (s @ t) = ToLower s @ ToLower t"
  by (simp add: ToLower_def)

lemma ToLower_hex_string [simp]: "ToLower (hex_string bs) = hex_string bs"
  by (induction bs) (simp_all add: hex_string_def ToLower_append ToLower_hex_byte)

lemma digit_inject: "m < 16 \<Longrightarrow> n < 16 \<Longrightarrow> digit m = digit n \<longleftrightarrow> m = n"
  by (auto simp: digit_def split: if_splits)

lemma hex_byte_inject: "hex_byte a = hex_byte b \<longleftrightarrow> a = b"
proof
  assume "hex_byte a = hex_byte b"
  moreover have "unat a div 16 < 16" "unat b div 16 < 16"
    using unat_byte_less [of a] unat_byte_less [of b] by simp_all
  ultimately have "unat a div 16 = unat b div 16" and "unat a mod 16 = unat b mod 16"
    by (simp_all add: hex_byte_def digit_inject)
  then have "unat a = unat b" by (metis div_mult_mod_eq)
  then show "a = b" by (rule unsigned_word_eqI)
qed simp

lemma hex_string_inject: "hex_string as = hex_string bs \<longleftrightarrow> as = bs"
proof (induction as arbitrary: bs)
  case Nil
  show ?case by (cases bs) (simp_all add: hex_string_def hex_byte_def)
next
  case (Cons a as)
  show ?case
  proof (cases bs)
    case Nil
    then show ?thesis by (simp add: hex_string_def hex_byte_def)
  next
    case (Cons b bs')
    have "hex_string (a # as) = hex_string (b # bs') \<longleftrightarrow>
        hex_byte a = hex_byte b \<and> hex_string as = hex_string bs'"
      by (auto simp: hex_string_def hex_byte_def)
    with Cons Cons.IH show ?thesis by (simp add: hex_byte_inject)
  qed
qed

section \<open>Package path/filepath\<close>

definition Join_with :: "char \<Rightarrow> string list \<Rightarrow> string" where
  "Join_with sep ps = (case ps of [] \<Rightarrow> [] | p # qs \<Rightarrow> p @ concat (map ((#) sep) qs))"

text \<open>\<open>filepath.Clean\<close> resolves dots, double dots and repeated slashes, lexically.\<close>

fun clean_parts :: "bool \<Rightarrow> string list \<Rightarrow> string list \<Rightarrow> string list" where
  "clean_parts rooted out [] = out"
| "clean_parts rooted out (p # ps) =
     (if p = [] \<or> p = ''.'' then clean_parts rooted out ps
      else if p = ''..'' then
        (if out \<noteq> [] \<and> last out \<noteq> ''..'' then clean_parts rooted (butlast out) ps
         else if rooted then clean_parts rooted out ps
         else clean_parts rooted (out @ [''..'']) ps)
      else clean_parts rooted (out @ [p]) ps)"

definition filepath_Clean :: "string \<Rightarrow> string" where
  "filepath_Clean path =
     (let rooted = HasPrefix path ''/'';
          out = Join_with CHR ''/'' (clean_parts rooted [] (Split path CHR ''/''))
      in if rooted then ''/'' @ out else if out = [] then ''.'' else out)"

section \<open>Counting the elements of a list\<close>

lemma filter_update_le:
  "i < length xs \<Longrightarrow> (P y \<Longrightarrow> P (xs ! i)) \<Longrightarrow> length (filter P (xs[i := y])) \<le> length (filter P xs)"
proof (induction xs arbitrary: i)
  case (Cons x xs)
  then show ?case by (cases i) auto
qed simp

lemma filter_update_Suc: "length (filter P (xs[i := y])) \<le> Suc (length (filter P xs))"
proof (induction xs arbitrary: i)
  case (Cons x xs)
  show ?case
  proof (cases i)
    case (Suc j)
    then show ?thesis using Cons [of j] by simp
  qed simp
qed simp

lemma filter_map_le: "(\<And>x. P (f x) \<Longrightarrow> P x) \<Longrightarrow> length (filter P (map f xs)) \<le> length (filter P xs)"
  by (induction xs) auto

end
