(* ===== verification/Dns_Msg.thy ===== *)
theory Dns_Msg
  imports Go_Prelude
begin

text \<open>
  The data of package \<open>github.com/miekg/dns\<close> (under src/vendor) that leng handles, and the
  message operations it calls: \<open>dns.Msg\<close>, \<open>dns.Question\<close>, \<open>dns.RR\<close>, \<open>SetReply\<close>, \<open>SetRcode\<close>,
  \<open>SetQuestion\<close>, \<open>IsFqdn\<close>, \<open>Fqdn\<close>, \<open>CanonicalName\<close>.

  A \<open>dns.RR\<close> is a pointer, and leng shares those pointers between its cache, its custom
  records and the replies it is still building; the cache writes time-to-live values
  through them. Records therefore live in a heap, a list of \<open>rr\<close> values, and a message
  inside the program holds references into it (\<open>rref msg\<close>). A message on the wire holds
  the records themselves (\<open>rr msg\<close>); \<open>wire\<close> reads one out of the heap, \<open>receive\<close>
  allocates the records of one that arrives.
\<close>

section \<open>Resource records and their heap\<close>

type_synonym ip = "byte list"

record rr_header =
  Hdr_Name :: string
  Rrtype :: u16
  Class :: u16
  Ttl :: u32
  Rdlength :: u16

text \<open>
  The dynamic type of a \<open>dns.RR\<close> with its payload. \<open>net.ParseIP\<close> returns a nil address on
  bad input, so an address is optional. The payload of a record type that leng never
  inspects is its presentation text.
\<close>

datatype rdata = RdA "ip option" | RdAAAA "ip option" | RdCNAME string | RdOther string

record rr =
  Hdr :: rr_header
  Rdata :: rdata

type_synonym rref = nat
type_synonym rr_heap = "rr list"

definition set_Ttl :: "u32 \<Rightarrow> rr \<Rightarrow> rr" where
  "set_Ttl ttl r = r\<lparr>Hdr := (Hdr r)\<lparr>Ttl := ttl\<rparr>\<rparr>"

definition ttl_of :: "rr_heap \<Rightarrow> rref \<Rightarrow> u32" where
  "ttl_of h r = Ttl (Hdr (h ! r))"

text \<open>The assignment \<open>answer.Header().Ttl = ttl\<close>, for every record of a list.\<close>

primrec store_ttls :: "u32 \<Rightarrow> rref list \<Rightarrow> rr_heap \<Rightarrow> rr_heap" where
  "store_ttls ttl [] h = h"
| "store_ttls ttl (r # rs) h = store_ttls ttl rs (h[r := set_Ttl ttl (h ! r)])"

definition alloc_rrs :: "rr list \<Rightarrow> rr_heap \<Rightarrow> rref list \<times> rr_heap" where
  "alloc_rrs rs h = ([length h ..< length h + length rs], h @ rs)"

definition refs_ok :: "rref list \<Rightarrow> rr_heap \<Rightarrow> bool" where
  "refs_ok rs h \<longleftrightarrow> list_all (\<lambda>r. r < length h) rs"

section \<open>Questions and messages\<close>

record dns_question =
  q_Name :: string
  q_Qtype :: u16
  q_Qclass :: u16

record 'r msg =
  MsgId :: u16
  Response :: bool
  Opcode :: int
  Authoritative :: bool
  Truncated :: bool
  RecursionDesired :: bool
  RecursionAvailable :: bool
  Zero :: bool
  AuthenticatedData :: bool
  CheckingDisabled :: bool
  Rcode :: int
  Compress :: bool
  Question :: "dns_question list"
  Answer :: "'r list"
  Ns :: "rr list"
  Extra :: "rr list"

text \<open>\<open>new(dns.Msg)\<close>, the zero value.\<close>

definition new_Msg :: "'r msg" where
  "new_Msg = \<lparr>MsgId = 0, Response = False, Opcode = 0, Authoritative = False, Truncated = False,
     RecursionDesired = False, RecursionAvailable = False, Zero = False,
     AuthenticatedData = False, CheckingDisabled = False, Rcode = 0, Compress = False,
     Question = [], Answer = [], Ns = [], Extra = []\<rparr>"

abbreviation (input) "TypeA \<equiv> (1 :: u16)"
abbreviation (input) "TypeCNAME \<equiv> (5 :: u16)"
abbreviation (input) "TypeAAAA \<equiv> (28 :: u16)"
abbreviation (input) "TypeDS \<equiv> (43 :: u16)"
abbreviation (input) "ClassINET \<equiv> (1 :: u16)"
abbreviation (input) "OpcodeQuery \<equiv> (0 :: int)"
abbreviation (input) "RcodeSuccess \<equiv> (0 :: int)"
abbreviation (input) "RcodeServerFailure \<equiv> (2 :: int)"
abbreviation (input) "RcodeNameError \<equiv> (3 :: int)"
abbreviation (input) "RcodeRefused \<equiv> (5 :: int)"

text \<open>A missing key of a Go map of strings reads as the empty string.\<close>

definition TypeToString_map :: "u16 \<rightharpoonup> string" where
  "TypeToString_map = map_of
     [(1, ''A''), (28, ''AAAA''), (18, ''AFSDB''), (260, ''AMTRELAY''), (255, ''ANY''),
      (42, ''APL''), (34, ''ATMA''), (258, ''AVC''), (252, ''AXFR''), (257, ''CAA''),
      (60, ''CDNSKEY''), (59, ''CDS''), (37, ''CERT''), (5, ''CNAME''), (62, ''CSYNC''),
      (49, ''DHCID''), (32769, ''DLV''), (39, ''DNAME''), (48, ''DNSKEY''), (43, ''DS''),
      (31, ''EID''), (108, ''EUI48''), (109, ''EUI64''), (102, ''GID''), (27, ''GPOS''),
      (13, ''HINFO''), (55, ''HIP''), (65, ''HTTPS''), (45, ''IPSECKEY''), (20, ''ISDN''),
      (251, ''IXFR''), (25, ''KEY''), (36, ''KX''), (105, ''L32''), (106, ''L64''),
      (29, ''LOC''), (107, ''LP''), (254, ''MAILA''), (253, ''MAILB''), (7, ''MB''),
      (3, ''MD''), (4, ''MF''), (8, ''MG''), (14, ''MINFO''), (9, ''MR''), (15, ''MX''),
      (35, ''NAPTR''), (104, ''NID''), (32, ''NIMLOC''), (56, ''NINFO''), (2, ''NS''),
      (47, ''NSEC''), (50, ''NSEC3''), (51, ''NSEC3PARAM''), (10, ''NULL''), (128, ''NXNAME''),
      (30, ''NXT''), (0, ''None''), (61, ''OPENPGPKEY''), (41, ''OPT''), (12, ''PTR''),
      (26, ''PX''), (57, ''RKEY''), (17, ''RP''), (46, ''RRSIG''), (21, ''RT''),
      (65535, ''Reserved''), (24, ''SIG''), (53, ''SMIMEA''), (6, ''SOA''), (99, ''SPF''),
      (33, ''SRV''), (44, ''SSHFP''), (64, ''SVCB''), (32768, ''TA''), (58, ''TALINK''),
      (249, ''TKEY''), (52, ''TLSA''), (250, ''TSIG''), (16, ''TXT''), (101, ''UID''),
      (100, ''UINFO''), (103, ''UNSPEC''), (256, ''URI''), (19, ''X25''), (63, ''ZONEMD''),
      (23, ''NSAP-PTR'')]"

definition TypeToString :: "u16 \<Rightarrow> string" where
  "TypeToString t = (case TypeToString_map t of None \<Rightarrow> [] | Some s \<Rightarrow> s)"

text \<open>\<open>dns.Type(t).String()\<close>\<close>

definition Type_String :: "u16 \<Rightarrow> string" where
  "Type_String t = (case TypeToString_map t of None \<Rightarrow> ''TYPE'' @ Itoa (unat t) | Some s \<Rightarrow> s)"

definition ClassToString :: "u16 \<Rightarrow> string" where
  "ClassToString c = (case map_of
     [(1, ''IN''), (2, ''CS''), (3, ''CH''), (4, ''HS''), (254, ''NONE''), (255, ''ANY'')] c
     of None \<Rightarrow> [] | Some s \<Rightarrow> s)"

definition RcodeToString :: "int \<Rightarrow> string" where
  "RcodeToString rc = (case map_of
     [(0, ''NOERROR''), (1, ''FORMERR''), (2, ''SERVFAIL''), (3, ''NXDOMAIN''), (4, ''NOTIMP''),
      (5, ''REFUSED''), (6, ''YXDOMAIN''), (7, ''YXRRSET''), (8, ''NXRRSET''), (9, ''NOTAUTH''),
      (10, ''NOTZONE''), (16, ''BADSIG''), (17, ''BADKEY''), (18, ''BADTIME''), (19, ''BADMODE''),
      (20, ''BADNAME''), (21, ''BADALG''), (22, ''BADTRUNC''), (23, ''BADCOOKIE'')] rc
     of None \<Rightarrow> [] | Some s \<Rightarrow> s)"

section \<open>Message operations\<close>

definition SetReply :: "'q msg \<Rightarrow> 'r msg \<Rightarrow> 'r msg" where
  "SetReply request m =
     (let m1 = m\<lparr>MsgId := MsgId request, Response := True, Opcode := Opcode request\<rparr>;
          m2 = (if Opcode m1 = OpcodeQuery
                then m1\<lparr>RecursionDesired := RecursionDesired request,
                        CheckingDisabled := CheckingDisabled request\<rparr>
                else m1);
          m3 = m2\<lparr>Rcode := RcodeSuccess\<rparr>
      in (case Question request of [] \<Rightarrow> m3 | q # _ \<Rightarrow> m3\<lparr>Question := [q]\<rparr>))"

definition SetRcode :: "'q msg \<Rightarrow> int \<Rightarrow> 'r msg \<Rightarrow> 'r msg" where
  "SetRcode request rc m = (SetReply request m)\<lparr>Rcode := rc\<rparr>"

text \<open>\<open>SetQuestion\<close> draws a random id, which is an argument here.\<close>

definition SetQuestion :: "u16 \<Rightarrow> string \<Rightarrow> u16 \<Rightarrow> 'r msg \<Rightarrow> 'r msg" where
  "SetQuestion newId z t m = m\<lparr>MsgId := newId, RecursionDesired := True,
     Question := [\<lparr>q_Name = z, q_Qtype = t, q_Qclass = ClassINET\<rparr>]\<rparr>"

abbreviation (input) "backslash \<equiv> CHR 0x5C"

definition trailing_backslashes :: "string \<Rightarrow> nat" where
  "trailing_backslashes s = length (takeWhile (\<lambda>c. c = backslash) (rev s))"

text \<open>
  \<open>len(s) - i\<close> for the last index \<open>i\<close> of a byte other than a backslash is one more than the
  number of backslashes at the end.
\<close>

definition IsFqdn :: "string \<Rightarrow> bool" where
  "IsFqdn s =
     (if s = [] \<or> last s \<noteq> CHR ''.'' then False
      else let s' = butlast s in
        if s' = [] \<or> last s' \<noteq> backslash then True
        else odd (trailing_backslashes s' + 1))"

definition Fqdn :: "string \<Rightarrow> string" where
  "Fqdn s = (if IsFqdn s then s else s @ ''.'')"

definition CanonicalName :: "string \<Rightarrow> string" where
  "CanonicalName s = ToLower (Fqdn s)"

text \<open>A record whose Go type is the one that its header says.\<close>

definition rr_typed :: "rr \<Rightarrow> bool" where
  "rr_typed r \<longleftrightarrow>
     (case Rdata r of
        RdA a \<Rightarrow> Rrtype (Hdr r) = TypeA
      | RdAAAA a \<Rightarrow> Rrtype (Hdr r) = TypeAAAA
      | RdCNAME t \<Rightarrow> Rrtype (Hdr r) = TypeCNAME
      | RdOther s \<Rightarrow> Rrtype (Hdr r) \<notin> {TypeA, TypeAAAA, TypeCNAME})"

section \<open>Messages in the heap and on the wire\<close>

definition wire :: "rr_heap \<Rightarrow> rref msg \<Rightarrow> rr msg" where
  "wire h m = \<lparr>MsgId = MsgId m, Response = Response m, Opcode = Opcode m,
     Authoritative = Authoritative m, Truncated = Truncated m,
     RecursionDesired = RecursionDesired m, RecursionAvailable = RecursionAvailable m,
     Zero = Zero m, AuthenticatedData = AuthenticatedData m,
     CheckingDisabled = CheckingDisabled m, Rcode = Rcode m, Compress = Compress m,
     Question = Question m, Answer = map ((!) h) (Answer m), Ns = Ns m, Extra = Extra m\<rparr>"

definition receive :: "rr msg \<Rightarrow> rr_heap \<Rightarrow> rref msg \<times> rr_heap" where
  "receive m h = (case alloc_rrs (Answer m) h of (rs, h') \<Rightarrow>
     (\<lparr>MsgId = MsgId m, Response = Response m, Opcode = Opcode m,
       Authoritative = Authoritative m, Truncated = Truncated m,
       RecursionDesired = RecursionDesired m, RecursionAvailable = RecursionAvailable m,
       Zero = Zero m, AuthenticatedData = AuthenticatedData m,
       CheckingDisabled = CheckingDisabled m, Rcode = Rcode m, Compress = Compress m,
       Question = Question m, Answer = rs, Ns = Ns m, Extra = Extra m\<rparr>, h'))"

section \<open>Facts about the heap\<close>

lemma length_store_ttls [simp, heap_simps]: "length (store_ttls ttl rs h) = length h"
  by (induction rs arbitrary: h) simp_all

lemma ttl_of_update:
  "r < length h \<Longrightarrow> ttl_of (h[r := set_Ttl t (h ! r)]) s = (if s = r then t else ttl_of h s)"
  by (simp add: ttl_of_def set_Ttl_def nth_list_update)

lemma ttl_of_store_ttls [heap_simps]:
  "refs_ok rs h \<Longrightarrow> ttl_of (store_ttls t rs h) r = (if r \<in> set rs then t else ttl_of h r)"
  by (induction rs arbitrary: h) (auto simp: refs_ok_def ttl_of_update)

text \<open>Storing time-to-live values touches nothing else: neither other records nor other fields.\<close>

lemma nth_store_ttls_other [heap_simps]: "r \<notin> set rs \<Longrightarrow> store_ttls t rs h ! r = h ! r"
  by (induction rs arbitrary: h) (auto simp: nth_list_update)

lemma Rdata_store_ttls [heap_simps]: "Rdata (store_ttls t rs h ! r) = Rdata (h ! r)"
proof (induction rs arbitrary: h)
  case (Cons s rs)
  then show ?case
    by (cases "s < length h") (auto simp: set_Ttl_def nth_list_update not_less list_update_beyond)
qed simp

lemma Rrtype_store_ttls [heap_simps]: "Rrtype (Hdr (store_ttls t rs h ! r)) = Rrtype (Hdr (h ! r))"
proof (induction rs arbitrary: h)
  case (Cons s rs)
  then show ?case
    by (cases "s < length h") (auto simp: set_Ttl_def nth_list_update not_less list_update_beyond)
qed simp

lemma refs_ok_store_ttls [simp, heap_simps]: "refs_ok rs (store_ttls t ss h) = refs_ok rs h"
  by (simp add: refs_ok_def)

lemma refs_ok_append: "refs_ok rs h \<Longrightarrow> refs_ok rs (h @ h')"
  by (auto simp: refs_ok_def list_all_iff)

lemma refs_ok_Nil [simp]: "refs_ok [] h"
  by (simp add: refs_ok_def)

lemma refs_ok_app [simp]: "refs_ok (rs @ ss) h \<longleftrightarrow> refs_ok rs h \<and> refs_ok ss h"
  by (auto simp: refs_ok_def)

lemma refs_ok_mono: "refs_ok rs h \<Longrightarrow> length h \<le> length h' \<Longrightarrow> refs_ok rs h'"
  by (auto simp: refs_ok_def list_all_iff)

text \<open>A received message reads back from the heap as it came, and its records are fresh.\<close>

lemma wire_receive: "receive m h = (m', h') \<Longrightarrow> wire h' m' = m"
  by (cases m) (auto simp: receive_def alloc_rrs_def wire_def nth_append intro!: nth_equalityI)

lemma receive_fresh:
  "receive m h = (m', h') \<Longrightarrow>
     refs_ok (Answer m') h' \<and> (\<forall>r\<in>set (Answer m'). length h \<le> r) \<and> h' = h @ Answer m"
  by (auto simp: receive_def alloc_rrs_def refs_ok_def list_all_iff)

section \<open>Facts about replies\<close>

lemma SetReply_fields [simp]:
  "MsgId (SetReply req m) = MsgId req"
  "Response (SetReply req m) = True"
  "Opcode (SetReply req m) = Opcode req"
  "Rcode (SetReply req m) = RcodeSuccess"
  "Truncated (SetReply req m) = Truncated m"
  "Answer (SetReply req m) = Answer m"
  by (simp_all add: SetReply_def Let_def split: list.splits)

lemma SetReply_Question:
  "Question (SetReply req m) = (case Question req of [] \<Rightarrow> Question m | q # _ \<Rightarrow> [q])"
  by (simp add: SetReply_def Let_def split: list.splits)

lemma SetRcode_fields [simp]:
  "MsgId (SetRcode req rc m) = MsgId req"
  "Response (SetRcode req rc m) = True"
  "Rcode (SetRcode req rc m) = rc"
  "Truncated (SetRcode req rc m) = Truncated m"
  "Answer (SetRcode req rc m) = Answer m"
  "Question (SetRcode req rc m) = Question (SetReply req m)"
  by (simp_all add: SetRcode_def)

lemma SetQuestion_fields [simp]:
  "Question (SetQuestion i z t m) = [\<lparr>q_Name = z, q_Qtype = t, q_Qclass = ClassINET\<rparr>]"
  "Answer (SetQuestion i z t m) = Answer m"
  by (simp_all add: SetQuestion_def)

lemma new_Msg_fields [simp]:
  "Answer new_Msg = []" "Question new_Msg = []" "Rcode new_Msg = RcodeSuccess"
  "Truncated new_Msg = False"
  by (simp_all add: new_Msg_def)

lemma wire_fields [simp]:
  "MsgId (wire h m) = MsgId m" "Rcode (wire h m) = Rcode m" "Question (wire h m) = Question m"
  "Response (wire h m) = Response m" "Truncated (wire h m) = Truncated m"
  "Answer (wire h m) = map ((!) h) (Answer m)"
  by (simp_all add: wire_def)

text \<open>Canonical names are lower case and fully qualified, so canonising twice changes nothing.\<close>

lemma Fqdn_last: "Fqdn s \<noteq> [] \<and> last (Fqdn s) = CHR ''.''"
  by (auto simp: Fqdn_def IsFqdn_def)

end
