(* ===== verification/LCache.thy ===== *)
theory LCache
  imports Dns_Msg
begin

text \<open>
  Package lcache (src/lcache/cache.go, default.go, errors.go): the cache of upstream
  replies, a \<open>sync.Map\<close> from lower-case keys to entries with an expiry time, with an
  atomic size counter and an optional capacity. It is generic in the entry type; the
  interface \<open>Entry\<close> is the parameter \<open>RRs\<close>, which lists the records of an entry, and
  \<open>DefaultEntry\<close> is a \<open>dns.Msg\<close> with its answer section.

  Each operation takes the clock reading and the record heap it uses. The locale
  \<open>dns_cache\<close> is the contract of the interface \<open>Cache[E]\<close> towards the event loop; the
  interpretation \<open>lc\<close> discharges it for \<open>lengCache[DefaultEntry]\<close>.
\<close>

section \<open>Data\<close>

record 'e lEntry =
  underlying :: "'e option"
  expiresAt :: gotime

record 'e lengCache =
  backend :: "string \<rightharpoonup> 'e lEntry"
  cache_size :: int
  maxSize :: int

datatype cache_error = KeyNotFound string | KeyExpired string | CacheIsFull

definition NewGeneric :: "int \<Rightarrow> 'e lengCache" where
  "NewGeneric n = \<lparr>backend = Map.empty, cache_size = 0, maxSize = n\<rparr>"

text \<open>\<open>DefaultEntry\<close> embeds a \<open>dns.Msg\<close>.\<close>

type_synonym DefaultEntry = "rref msg"

definition DefaultEntry_RRs :: "DefaultEntry \<Rightarrow> rref list" where
  "DefaultEntry_RRs e = Answer e"

definition NewDefault :: "int \<Rightarrow> DefaultEntry lengCache" where
  "NewDefault n = NewGeneric n"

section \<open>Operations\<close>

definition lengCache_Exists :: "string \<Rightarrow> 'e lengCache \<Rightarrow> bool" where
  "lengCache_Exists key c = (backend c (ToLower key) \<noteq> None)"

text \<open>\<open>Remove\<close> uses the key as it is given.\<close>

definition lengCache_Remove :: "string \<Rightarrow> 'e lengCache \<Rightarrow> 'e lengCache" where
  "lengCache_Remove key c =
     (case backend c key of
        None \<Rightarrow> c
      | Some _ \<Rightarrow> c\<lparr>backend := (backend c)(key := None), cache_size := cache_size c - 1\<rparr>)"

definition lengCache_Length :: "'e lengCache \<Rightarrow> int" where
  "lengCache_Length c = cache_size c"

definition lengCache_Full :: "'e lengCache \<Rightarrow> bool" where
  "lengCache_Full c \<longleftrightarrow> maxSize c > 0 \<and> cache_size c \<ge> maxSize c"

definition lengCache_Get ::
  "('e \<Rightarrow> rref list) \<Rightarrow> string \<Rightarrow> gotime \<Rightarrow> rr_heap \<Rightarrow> 'e lengCache
    \<Rightarrow> (cache_error + 'e) \<times> rr_heap \<times> 'e lengCache" where
  "lengCache_Get RRs key now h c =
     (let key = ToLower key in
      case backend c key of
        None \<Rightarrow> (Inl (KeyNotFound key), h, c)
      | Some entry \<Rightarrow>
          if now > expiresAt entry
          then (Inl (KeyExpired key), h, lengCache_Remove key c)
          else
            let newTtl = uint32_Seconds (duration_Truncate (expiresAt entry - now) Second) in
            case underlying entry of
              None \<Rightarrow> (Inl (KeyNotFound key), h, c)
            | Some deref \<Rightarrow> (Inr deref, store_ttls newTtl (RRs deref) h, c))"

abbreviation (input) "MaxUint32 \<equiv> (4294967295 :: u32)"

primrec minTtl_loop :: "rr_heap \<Rightarrow> u32 \<Rightarrow> rref list \<Rightarrow> u32" where
  "minTtl_loop h minTtl [] = minTtl"
| "minTtl_loop h minTtl (r # rs) =
     (let msgTtl = ttl_of h r in minTtl_loop h (if minTtl > msgTtl then msgTtl else minTtl) rs)"

definition minTtlFor :: "('e \<Rightarrow> rref list) \<Rightarrow> rr_heap \<Rightarrow> 'e \<Rightarrow> duration" where
  "minTtlFor RRs h e = seconds_of_u32 (minTtl_loop h MaxUint32 (RRs e))"

definition lengCache_Set ::
  "('e \<Rightarrow> rref list) \<Rightarrow> string \<Rightarrow> 'e option \<Rightarrow> gotime \<Rightarrow> rr_heap \<Rightarrow> 'e lengCache
    \<Rightarrow> cache_error option \<times> 'e lengCache" where
  "lengCache_Set RRs key entry now h c =
     (case entry of
        None \<Rightarrow> (None, lengCache_Remove key c)
      | Some e \<Rightarrow>
          let key = ToLower key in
          if lengCache_Full c \<and> \<not> lengCache_Exists key c then (Some CacheIsFull, c)
          else
            let en = \<lparr>underlying = entry, expiresAt = now + minTtlFor RRs h e\<rparr>;
                loaded = (backend c key \<noteq> None);
                c' = c\<lparr>backend := (backend c)(key \<mapsto> en)\<rparr>
            in (None, if loaded then c' else c'\<lparr>cache_size := cache_size c' + 1\<rparr>))"

section \<open>The contract of the interface Cache\<close>

text \<open>
  What a client may rely on. \<open>look\<close> is the abstract value of a cache, a finite map from
  lower-case keys to an entry and the last moment at which it is served; \<open>lifetime\<close> is the
  duration that the records of an entry grant it.
\<close>

locale dns_cache =
  fixes inv :: "'c \<Rightarrow> bool"
    and look :: "'c \<Rightarrow> string \<Rightarrow> ('e \<times> gotime) option"
    and cap :: "'c \<Rightarrow> int"
    and recs :: "'e \<Rightarrow> rref list"
    and lifetime :: "rr_heap \<Rightarrow> 'e \<Rightarrow> duration"
    and get :: "string \<Rightarrow> gotime \<Rightarrow> rr_heap \<Rightarrow> 'c \<Rightarrow> (cache_error + 'e) \<times> rr_heap \<times> 'c"
    and put :: "string \<Rightarrow> 'e option \<Rightarrow> gotime \<Rightarrow> rr_heap \<Rightarrow> 'c \<Rightarrow> cache_error option \<times> 'c"
    and has :: "string \<Rightarrow> 'c \<Rightarrow> bool"
    and rem :: "string \<Rightarrow> 'c \<Rightarrow> 'c"
    and len :: "'c \<Rightarrow> int"
    and full :: "'c \<Rightarrow> bool"
  assumes finite_look: "inv c \<Longrightarrow> finite (dom (look c))"
    and look_lower: "inv c \<Longrightarrow> look c k \<noteq> None \<Longrightarrow> ToLower k = k"
    and len_look: "inv c \<Longrightarrow> len c = int (card (dom (look c)))"
    and full_iff: "inv c \<Longrightarrow> full c \<longleftrightarrow> 0 < cap c \<and> cap c \<le> len c"
    and within_cap: "inv c \<Longrightarrow> 0 < cap c \<Longrightarrow> len c \<le> cap c"
    and has_iff: "inv c \<Longrightarrow> has k c \<longleftrightarrow> look c (ToLower k) \<noteq> None"
    and get_miss: "inv c \<Longrightarrow> look c (ToLower k) = None \<Longrightarrow>
      get k now h c = (Inl (KeyNotFound (ToLower k)), h, c)"
    and get_expired: "inv c \<Longrightarrow> look c (ToLower k) = Some (e, t) \<Longrightarrow> t < now \<Longrightarrow>
      get k now h c = (Inl (KeyExpired (ToLower k)), h, rem (ToLower k) c)"
    and get_hit: "inv c \<Longrightarrow> look c (ToLower k) = Some (e, t) \<Longrightarrow> now \<le> t \<Longrightarrow>
      get k now h c =
        (Inr e, store_ttls (uint32_Seconds (duration_Truncate (t - now) Second)) (recs e) h, c)"
    and put_full: "inv c \<Longrightarrow> full c \<Longrightarrow> \<not> has k c \<Longrightarrow>
      put k (Some e) now h c = (Some CacheIsFull, c)"
    and put_ok: "inv c \<Longrightarrow> \<not> full c \<or> has k c \<Longrightarrow>
      \<exists>c'. put k (Some e) now h c = (None, c') \<and> inv c' \<and> cap c' = cap c
         \<and> look c' = (look c)(ToLower k \<mapsto> (e, now + lifetime h e))"
    and put_nil: "put k None now h c = (None, rem k c)"
    and inv_rem: "inv c \<Longrightarrow> inv (rem k c)"
    and cap_rem: "cap (rem k c) = cap c"
    and look_rem: "inv c \<Longrightarrow> look (rem k c) = (look c)(k := None)"
begin

lemma get_cases:
  assumes "inv c"
  shows "get k now h c = (Inl (KeyNotFound (ToLower k)), h, c)
      \<and> look c (ToLower k) = None
    \<or> (\<exists>e t. look c (ToLower k) = Some (e, t) \<and> t < now
      \<and> get k now h c = (Inl (KeyExpired (ToLower k)), h, rem (ToLower k) c))
    \<or> (\<exists>e t. look c (ToLower k) = Some (e, t) \<and> now \<le> t \<and> get k now h c =
        (Inr e, store_ttls (uint32_Seconds (duration_Truncate (t - now) Second)) (recs e) h, c))"
proof (cases "look c (ToLower k)")
  case None
  with assms show ?thesis by (simp add: get_miss)
next
  case (Some p)
  obtain e t where p: "p = (e, t)" by (cases p)
  with Some have look: "look c (ToLower k) = Some (e, t)" by simp
  show ?thesis
  proof (cases "t < now")
    case True
    with assms look show ?thesis by (auto simp: get_expired)
  next
    case False
    then have "now \<le> t" by simp
    with assms look show ?thesis by (auto simp: get_hit)
  qed
qed

lemma get_inv: "inv c \<Longrightarrow> get k now h c = (r, h', c') \<Longrightarrow> inv c' \<and> cap c' = cap c"
  using get_cases [of c k now h] by (auto simp: inv_rem cap_rem)

lemma put_inv:
  assumes "inv c" and "put k e now h c = (r, c')"
  shows "inv c' \<and> cap c' = cap c"
proof (cases e)
  case None
  with assms show ?thesis by (auto simp: put_nil inv_rem cap_rem)
next
  case (Some x)
  show ?thesis
  proof (cases "full c \<and> \<not> has k c")
    case True
    with assms Some show ?thesis by (simp add: put_full)
  next
    case False
    with assms Some put_ok [of c k x now h] show ?thesis by auto
  qed
qed

text \<open>An entry is served until its lifetime is over, and by then no longer.\<close>

lemma put_then_get:
  assumes "inv c" and put: "put k (Some e) t h c = (None, c')"
    and "t' \<le> t + lifetime h e" and k: "ToLower k' = ToLower k"
  shows "get k' t' h' c' = (Inr e, store_ttls
    (uint32_Seconds (duration_Truncate (t + lifetime h e - t') Second)) (recs e) h', c')"
proof -
  have "\<not> full c \<or> has k c"
    using put assms(1) put_full [of c k e t h] by auto
  with assms(1) put have "inv c'" and "look c' (ToLower k') = Some (e, t + lifetime h e)"
    using put_ok [of c k e t h] k by auto
  then show ?thesis
    using assms(3) by (simp add: get_hit)
qed

lemma put_then_get_late:
  assumes "inv c" and put: "put k (Some e) t h c = (None, c')"
    and "t + lifetime h e < t'" and k: "ToLower k' = ToLower k"
  shows "get k' t' h' c' = (Inl (KeyExpired (ToLower k)), h', rem (ToLower k) c')
    \<and> get k' t'' h'' (rem (ToLower k) c') =
        (Inl (KeyNotFound (ToLower k)), h'', rem (ToLower k) c')"
proof -
  have "\<not> full c \<or> has k c"
    using put assms(1) put_full [of c k e t h] by auto
  with assms(1) put have i: "inv c'" and "look c' (ToLower k') = Some (e, t + lifetime h e)"
    using put_ok [of c k e t h] k by auto
  then have "get k' t' h' c' = (Inl (KeyExpired (ToLower k)), h', rem (ToLower k) c')"
    using assms(3) get_expired [of c' k' e _ t' h'] k by simp
  moreover have "look (rem (ToLower k) c') (ToLower k') = None"
    using i k by (simp add: look_rem)
  ultimately show ?thesis
    using i k get_miss [of "rem (ToLower k) c'" k' t'' h''] by (simp add: inv_rem)
qed

lemma put_refused_iff:
  assumes "inv c"
  shows "fst (put k (Some e) now h c) \<noteq> None \<longleftrightarrow>
     0 < cap c \<and> cap c = len c \<and> look c (ToLower k) = None"
proof (cases "full c \<and> \<not> has k c")
  case True
  with assms have "look c (ToLower k) = None" and "0 < cap c \<and> cap c \<le> len c"
    by (metis has_iff, metis full_iff)
  with assms True within_cap [of c] show ?thesis
    by (simp add: put_full)
next
  case False
  with assms put_ok [of c k e now h] show ?thesis
    by (cases "look c (ToLower k)") (auto simp: full_iff has_iff)
qed

end

section \<open>The implementation meets the contract\<close>

definition lcache_inv :: "'e lengCache \<Rightarrow> bool" where
  "lcache_inv c \<longleftrightarrow>
     finite (dom (backend c)) \<and>
     cache_size c = int (card (dom (backend c))) \<and>
     (\<forall>k en. backend c k = Some en \<longrightarrow> ToLower k = k \<and> underlying en \<noteq> None) \<and>
     (0 < maxSize c \<longrightarrow> cache_size c \<le> maxSize c)"

definition lcache_look :: "'e lengCache \<Rightarrow> string \<Rightarrow> ('e \<times> gotime) option" where
  "lcache_look c k = (case backend c k of None \<Rightarrow> None
     | Some en \<Rightarrow> map_option (\<lambda>e. (e, expiresAt en)) (underlying en))"

lemma lcache_look_Some:
  "lcache_look c k = Some (e, t) \<longleftrightarrow>
     (\<exists>en. backend c k = Some en \<and> underlying en = Some e \<and> expiresAt en = t)"
  by (auto simp: lcache_look_def split: option.splits)

lemma lcache_look_None:
  "lcache_inv c \<Longrightarrow> lcache_look c k = None \<longleftrightarrow> backend c k = None"
  by (force simp: lcache_look_def lcache_inv_def split: option.splits)

lemma dom_lcache_look: "lcache_inv c \<Longrightarrow> dom (lcache_look c) = dom (backend c)"
  by (auto simp: dom_def lcache_look_None)

lemma lcache_inv_NewGeneric: "lcache_inv (NewGeneric n)"
  by (simp add: lcache_inv_def NewGeneric_def)

lemma lcache_inv_Remove:
  assumes "lcache_inv c"
  shows "lcache_inv (lengCache_Remove k c)"
proof (cases "backend c k")
  case None
  with assms show ?thesis by (simp add: lengCache_Remove_def)
next
  case (Some en)
  then have k: "k \<in> dom (backend c)" by auto
  have fin: "finite (dom (backend c))" and sz: "cache_size c = int (card (dom (backend c)))"
    using assms by (simp_all add: lcache_inv_def)
  have "card (dom (backend c)) = Suc (card (dom (backend c) - {k}))"
    by (rule card.remove [OF fin k])
  with sz have "cache_size c - 1 = int (card (dom (backend c) - {k}))" by simp
  with Some assms show ?thesis
    by (auto simp: lengCache_Remove_def lcache_inv_def)
qed

lemma lcache_look_Remove:
  "lcache_look (lengCache_Remove k c) = (lcache_look c)(k := None)"
  by (auto simp: lcache_look_def lengCache_Remove_def fun_eq_iff split: option.splits)

lemma lcache_Set_ok:
  assumes inv: "lcache_inv c" and room: "\<not> lengCache_Full c \<or> lengCache_Exists k c"
  shows "\<exists>c'. lengCache_Set RRs k (Some e) now h c = (None, c') \<and> lcache_inv c'
    \<and> maxSize c' = maxSize c
    \<and> lcache_look c' = (lcache_look c)(ToLower k \<mapsto> (e, now + minTtlFor RRs h e))"
proof -
  let ?k = "ToLower k"
  let ?b = "(backend c)(?k \<mapsto> \<lparr>underlying = Some e, expiresAt = now + minTtlFor RRs h e\<rparr>)"
  let ?c = "c\<lparr>backend := ?b,
    cache_size := (if backend c ?k = None then cache_size c + 1 else cache_size c)\<rparr>"
  have set: "lengCache_Set RRs k (Some e) now h c = (None, ?c)"
    using room by (auto simp: lengCache_Set_def Let_def lengCache_Exists_def)
  have fin: "finite (dom (backend c))" and sz: "cache_size c = int (card (dom (backend c)))"
    using inv by (simp_all add: lcache_inv_def)
  have "cache_size ?c = int (card (dom ?b))"
    using fin sz by (simp add: domIff insert_absorb)
  moreover have "0 < maxSize c \<longrightarrow> cache_size ?c \<le> maxSize c"
    using room inv by (auto simp: lcache_inv_def lengCache_Full_def lengCache_Exists_def)
  ultimately have "lcache_inv ?c"
    using inv by (auto simp: lcache_inv_def)
  moreover have "lcache_look ?c = (lcache_look c)(?k \<mapsto> (e, now + minTtlFor RRs h e))"
    by (auto simp: lcache_look_def fun_eq_iff)
  ultimately show ?thesis
    using set by auto
qed

interpretation lc: dns_cache
  lcache_inv lcache_look maxSize DefaultEntry_RRs "minTtlFor DefaultEntry_RRs"
  "lengCache_Get DefaultEntry_RRs" "lengCache_Set DefaultEntry_RRs"
  lengCache_Exists lengCache_Remove lengCache_Length lengCache_Full
proof unfold_locales
  fix c :: "DefaultEntry lengCache" and k e t now h
  assume inv: "lcache_inv c"
  show "finite (dom (lcache_look c))"
    using inv by (simp add: dom_lcache_look) (simp add: lcache_inv_def)
  show "lengCache_Length c = int (card (dom (lcache_look c)))"
    using inv by (simp add: dom_lcache_look lengCache_Length_def) (simp add: lcache_inv_def)
  show "lengCache_Full c = (0 < maxSize c \<and> maxSize c \<le> lengCache_Length c)"
    by (simp add: lengCache_Full_def lengCache_Length_def)
  show "lengCache_Exists k c = (lcache_look c (ToLower k) \<noteq> None)"
    using inv by (simp add: lengCache_Exists_def lcache_look_None)
  show "lcache_inv (lengCache_Remove k c)"
    by (rule lcache_inv_Remove [OF inv])
  show "lcache_look (lengCache_Remove k c) = (lcache_look c)(k := None)"
    by (rule lcache_look_Remove)
  show "lcache_look c k \<noteq> None \<Longrightarrow> ToLower k = k"
    using inv lcache_look_None [OF inv, of k] by (auto simp: lcache_inv_def)
  show "0 < maxSize c \<Longrightarrow> lengCache_Length c \<le> maxSize c"
    using inv by (simp add: lcache_inv_def lengCache_Length_def)
  show "lcache_look c (ToLower k) = None \<Longrightarrow> lengCache_Get DefaultEntry_RRs k now h c =
      (Inl (KeyNotFound (ToLower k)), h, c)"
    using inv by (simp add: lengCache_Get_def lcache_look_None Let_def)
  show "lcache_look c (ToLower k) = Some (e, t) \<Longrightarrow> t < now \<Longrightarrow>
      lengCache_Get DefaultEntry_RRs k now h c =
        (Inl (KeyExpired (ToLower k)), h, lengCache_Remove (ToLower k) c)"
    by (auto simp: lengCache_Get_def lcache_look_Some Let_def)
  show "lcache_look c (ToLower k) = Some (e, t) \<Longrightarrow> now \<le> t \<Longrightarrow>
      lengCache_Get DefaultEntry_RRs k now h c = (Inr e,
        store_ttls (uint32_Seconds (duration_Truncate (t - now) Second)) (DefaultEntry_RRs e) h, c)"
    by (auto simp: lengCache_Get_def lcache_look_Some Let_def)
  show "lengCache_Full c \<Longrightarrow> \<not> lengCache_Exists k c \<Longrightarrow>
      lengCache_Set DefaultEntry_RRs k (Some e) now h c = (Some CacheIsFull, c)"
    by (simp add: lengCache_Set_def lengCache_Exists_def Let_def)
  show "\<not> lengCache_Full c \<or> lengCache_Exists k c \<Longrightarrow>
      \<exists>c'. lengCache_Set DefaultEntry_RRs k (Some e) now h c = (None, c') \<and> lcache_inv c'
        \<and> maxSize c' = maxSize c \<and> lcache_look c' =
          (lcache_look c)(ToLower k \<mapsto> (e, now + minTtlFor DefaultEntry_RRs h e))"
    by (rule lcache_Set_ok [OF inv])
qed (simp_all add: lengCache_Set_def lengCache_Remove_def split: option.splits)

section \<open>Lifetimes\<close>

lemma minTtl_loop_le: "minTtl_loop h m rs \<le> m"
proof (induction rs arbitrary: m)
  case (Cons r rs)
  show ?case
    using Cons.IH [of "if m > ttl_of h r then ttl_of h r else m"]
    by (auto simp: Let_def split: if_splits)
qed simp

lemma minTtl_loop_le_ttl: "r \<in> set rs \<Longrightarrow> minTtl_loop h m rs \<le> ttl_of h r"
proof (induction rs arbitrary: m)
  case (Cons s rs)
  show ?case
  proof (cases "r = s")
    case True
    have "minTtl_loop h m (s # rs) \<le> (if m > ttl_of h s then ttl_of h s else m)"
      by (simp add: Let_def minTtl_loop_le del: not_less)
    with True show ?thesis by (auto split: if_splits)
  next
    case False
    with Cons show ?thesis by (simp add: Let_def)
  qed
qed simp

text \<open>The loop finds a minimum: its result is one of the values it has seen.\<close>

lemma minTtl_loop_mem: "minTtl_loop h m rs \<in> insert m (ttl_of h ` set rs)"
proof (induction rs arbitrary: m)
  case (Cons r rs)
  show ?case
    using Cons.IH [of "if m > ttl_of h r then ttl_of h r else m"]
    by (auto simp: Let_def split: if_splits)
qed simp

lemma minTtlFor_le:
  "r \<in> set (RRs e) \<Longrightarrow> minTtlFor RRs h e \<le> seconds_of_u32 (ttl_of h r)"
  by (simp add: minTtlFor_def seconds_of_u32_mono minTtl_loop_le_ttl)

lemma minTtlFor_nonneg [simp]: "0 \<le> minTtlFor RRs h e"
  by (simp add: minTtlFor_def)

lemma minTtlFor_less: "minTtlFor RRs h e < 2 ^ 32 * Second"
  by (simp only: minTtlFor_def seconds_of_u32_less)

lemma minTtlFor_no_records: "RRs e = [] \<Longrightarrow> minTtlFor RRs h e = 4294967295 * Second"
  by (simp add: minTtlFor_def seconds_of_u32_def)

text \<open>What a hit leaves in the heap, for any moment of the lifetime.\<close>

lemma ttl_after_hit:
  assumes ok: "refs_ok rs h'" and t: "t \<le> t'" "t' \<le> t + minTtlFor RRs h e"
    and w: "w = uint32_Seconds (duration_Truncate (t + minTtlFor RRs h e - t') Second)"
  shows "r \<in> set rs \<Longrightarrow>
    int (unat (ttl_of (store_ttls w rs h') r)) = (t + minTtlFor RRs h e - t') div Second"
proof -
  let ?d = "t + minTtlFor RRs h e - t'"
  assume "r \<in> set rs"
  then have "ttl_of (store_ttls w rs h') r = w"
    using ok by (simp add: heap_simps)
  moreover have d: "0 \<le> ?d" "?d < 2 ^ 32 * Second"
    using t minTtlFor_less [of RRs h e] by simp_all
  ultimately show ?thesis
    using unat_seconds_left [OF d] w d
    by (simp add: uint32_Seconds_Truncate pos_imp_zdiv_nonneg_iff)
qed

section \<open>Runs of cache operations\<close>

datatype 'e cache_op = OpGet string | OpSet string "'e option" | OpRemove string

text \<open>A client run: operations with their clock readings, on a heap and a cache.\<close>

fun lcache_run :: "(gotime \<times> DefaultEntry cache_op) list \<Rightarrow> rr_heap \<times> DefaultEntry lengCache
    \<Rightarrow> rr_heap \<times> DefaultEntry lengCache" where
  "lcache_run [] s = s"
| "lcache_run ((now, OpGet k) # ops) (h, c) =
     lcache_run ops (snd (lengCache_Get DefaultEntry_RRs k now h c))"
| "lcache_run ((now, OpSet k e) # ops) (h, c) =
     lcache_run ops (h, snd (lengCache_Set DefaultEntry_RRs k e now h c))"
| "lcache_run ((now, OpRemove k) # ops) (h, c) = lcache_run ops (h, lengCache_Remove k c)"

lemma lcache_run_inv:
  "lcache_inv (snd s) \<Longrightarrow>
     lcache_inv (snd (lcache_run ops s)) \<and> maxSize (snd (lcache_run ops s)) = maxSize (snd s)"
proof (induction ops s rule: lcache_run.induct)
  case (2 now k ops h c)
  obtain r h' c' where g: "lengCache_Get DefaultEntry_RRs k now h c = (r, h', c')"
    by (cases "lengCache_Get DefaultEntry_RRs k now h c")
  with 2 lc.get_inv [OF _ g] show ?case by simp
next
  case (3 now k e ops h c)
  obtain r c' where g: "lengCache_Set DefaultEntry_RRs k e now h c = (r, c')"
    by (cases "lengCache_Set DefaultEntry_RRs k e now h c")
  with 3 lc.put_inv [OF _ g] show ?case by simp
qed (simp_all add: lc.inv_rem lc.cap_rem)

section \<open>Properties\<close>

text \<open>Concrete inputs of the witnesses: one A record that lives ten seconds, and a reply with it.\<close>

definition ex_rr :: rr where
  "ex_rr = \<lparr>Hdr = \<lparr>Hdr_Name = ''a.b.'', Rrtype = TypeA, Class = ClassINET, Ttl = 10, Rdlength = 4\<rparr>,
     Rdata = RdA (Some [10, 0, 0, 1])\<rparr>"

definition ex_reply :: DefaultEntry where
  "ex_reply = new_Msg\<lparr>Answer := [0]\<rparr>"

lemma minTtlFor_example [simp]: "minTtlFor DefaultEntry_RRs [ex_rr] ex_reply = 10 * Second"
  by (simp add: minTtlFor_def DefaultEntry_RRs_def ex_reply_def ex_rr_def ttl_of_def
      seconds_of_u32_def Let_def)

lemma lower_examples [simp]: "ToLower ''K'' = ''k''" "ToLower ''k'' = ''k''" "ToLower ''l'' = ''l''"
  by code_simp+

text \<open>
  C31. After any sequence of operations on a new cache the size counter is the number of
  stored keys, and a cache with a positive capacity never holds more keys than that.
\<close>

theorem lcache_size_tracks_keys:
  assumes "c = snd (lcache_run ops (h, NewGeneric n))"
  shows "lengCache_Length c = int (card (dom (backend c))) \<and>
    (0 < n \<longrightarrow> lengCache_Length c \<le> n)"
proof -
  have "lcache_inv c \<and> maxSize c = n"
    using lcache_run_inv [of "(h, NewGeneric n)" ops] assms
    by (simp add: lcache_inv_NewGeneric) (simp add: NewGeneric_def)
  then show ?thesis
    by (auto simp: lcache_inv_def lengCache_Length_def)
qed

theorem lcache_size_tracks_keys_witness:
  "lengCache_Length (snd (lcache_run
      [(0, OpSet ''k'' (Some new_Msg)), (1, OpSet ''l'' (Some new_Msg)), (2, OpGet ''k'')]
      ([], NewGeneric 1))) \<le> 1"
  using lcache_size_tracks_keys [OF refl,
      of "[(0, OpSet ''k'' (Some new_Msg)), (1, OpSet ''l'' (Some new_Msg)), (2, OpGet ''k'')]"
        "[]" 1]
  by linarith

text \<open>
  An entry that \<open>Set\<close> accepted is what \<open>Get\<close> returns until its lifetime is over, the
  smallest time to live among its records, whatever the case of the key; every record of
  the entry then carries the whole seconds that are left, and no other record changes.
\<close>

theorem lcache_Get_after_Set:
  assumes "lcache_inv c"
    and "lengCache_Set DefaultEntry_RRs k (Some e) t h c = (None, c')"
    and "t \<le> t'" and "t' \<le> t + minTtlFor DefaultEntry_RRs h e"
    and "ToLower k' = ToLower k" and "refs_ok (Answer e) h'"
  shows "\<exists>h''. lengCache_Get DefaultEntry_RRs k' t' h' c' = (Inr e, h'', c') \<and>
    (\<forall>r\<in>set (Answer e). int (unat (ttl_of h'' r)) =
        (t + minTtlFor DefaultEntry_RRs h e - t') div Second) \<and>
    (\<forall>r. r \<notin> set (Answer e) \<longrightarrow> h'' ! r = h' ! r)"
  using lc.put_then_get [OF assms(1,2,4,5), of h'] ttl_after_hit [OF assms(6,3,4)]
  by (auto simp: DefaultEntry_RRs_def heap_simps)

theorem lcache_Get_after_Set_witness:
  "\<exists>h''. lengCache_Get DefaultEntry_RRs ''k'' (3 * Second) [ex_rr]
      (snd (lengCache_Set DefaultEntry_RRs ''K'' (Some ex_reply) 0 [ex_rr] (NewGeneric 5)))
    = (Inr ex_reply, h'', snd (lengCache_Set DefaultEntry_RRs ''K'' (Some ex_reply) 0 [ex_rr] (NewGeneric 5)))
    \<and> ttl_of h'' 0 = 7"
proof -
  let ?c = "snd (lengCache_Set DefaultEntry_RRs ''K'' (Some ex_reply) 0 [ex_rr] (NewGeneric 5))"
  have "lengCache_Set DefaultEntry_RRs ''K'' (Some ex_reply) 0 [ex_rr] (NewGeneric 5) = (None, ?c)"
    by (simp add: lengCache_Set_def NewGeneric_def lengCache_Full_def Let_def)
  from lcache_Get_after_Set [OF lcache_inv_NewGeneric this, of "3 * Second" "''k''" "[ex_rr]"]
  obtain h'' where "lengCache_Get DefaultEntry_RRs ''k'' (3 * Second) [ex_rr] ?c = (Inr ex_reply, h'', ?c)"
    and "uint (ttl_of h'' 0) = 7"
    by (auto simp: refs_ok_def ex_reply_def [THEN arg_cong [of _ _ Answer]] Second_def)
  moreover from this(2) have "ttl_of h'' 0 = 7"
    by (metis word_of_int_numeral word_of_int_uint)
  ultimately show ?thesis by blast
qed

text \<open>
  Once the lifetime is over, \<open>Get\<close> reports the key as expired and drops it, and from
  then on reports it as not found.
\<close>

theorem lcache_Get_expired:
  assumes "lcache_inv c"
    and "lengCache_Set DefaultEntry_RRs k (Some e) t h c = (None, c')"
    and "t + minTtlFor DefaultEntry_RRs h e < t'" and "ToLower k' = ToLower k"
  shows "\<exists>c''. lengCache_Get DefaultEntry_RRs k' t' h' c' = (Inl (KeyExpired (ToLower k)), h', c'') \<and>
    lengCache_Get DefaultEntry_RRs k' t'' h'' c'' = (Inl (KeyNotFound (ToLower k)), h'', c'') \<and>
    lengCache_Length c'' = lengCache_Length c' - 1"
proof -
  let ?c = "lengCache_Remove (ToLower k) c'"
  have "\<not> lengCache_Full c \<or> lengCache_Exists k c"
    using assms(1,2) lc.put_full [of c k e t h] by auto
  then have "lcache_look c' (ToLower k) \<noteq> None"
    using lc.put_ok [of c k e t h] assms(1,2) by auto
  then have "lengCache_Length ?c = lengCache_Length c' - 1"
    by (auto simp: lcache_look_def lengCache_Remove_def lengCache_Length_def split: option.splits)
  then show ?thesis
    using lc.put_then_get_late [OF assms, of h' t'' h''] by auto
qed

theorem lcache_Get_expired_witness:
  "\<exists>c''. lengCache_Get DefaultEntry_RRs ''k'' (11 * Second) []
      (snd (lengCache_Set DefaultEntry_RRs ''K'' (Some ex_reply) 0 [ex_rr] (NewGeneric 5)))
    = (Inl (KeyExpired ''k''), [], c'') \<and>
    lengCache_Get DefaultEntry_RRs ''k'' (12 * Second) [] c'' = (Inl (KeyNotFound ''k''), [], c'')"
proof -
  let ?c = "snd (lengCache_Set DefaultEntry_RRs ''K'' (Some ex_reply) 0 [ex_rr] (NewGeneric 5))"
  have "lengCache_Set DefaultEntry_RRs ''K'' (Some ex_reply) 0 [ex_rr] (NewGeneric 5) = (None, ?c)"
    by (simp add: lengCache_Set_def NewGeneric_def lengCache_Full_def Let_def)
  from lcache_Get_expired [OF lcache_inv_NewGeneric this, of "11 * Second" "''k''" "[]" "12 * Second" "[]"]
  show ?thesis by (auto simp: Second_def)
qed

text \<open>
  \<open>Set\<close> refuses an entry exactly when the cache has a capacity, is at that capacity
  and does not hold the key yet; a refused \<open>Set\<close> changes nothing.
\<close>

theorem lcache_Set_refused:
  assumes "lcache_inv c"
  shows "(fst (lengCache_Set DefaultEntry_RRs k (Some e) now h c) = Some CacheIsFull \<longleftrightarrow>
        0 < maxSize c \<and> lengCache_Length c = maxSize c \<and> \<not> lengCache_Exists k c) \<and>
    (fst (lengCache_Set DefaultEntry_RRs k (Some e) now h c) = Some CacheIsFull \<longrightarrow>
        snd (lengCache_Set DefaultEntry_RRs k (Some e) now h c) = c)"
proof -
  have "lengCache_Exists (ToLower k) c = lengCache_Exists k c"
    by (simp add: lengCache_Exists_def)
  moreover have "lengCache_Full c \<longleftrightarrow> 0 < maxSize c \<and> lengCache_Length c = maxSize c"
    using lc.full_iff [OF assms] lc.within_cap [OF assms] by linarith
  ultimately show ?thesis
    by (auto simp: lengCache_Set_def Let_def)
qed

theorem lcache_Set_refused_witness:
  "fst (lengCache_Set DefaultEntry_RRs ''l'' (Some ex_reply) 5 [ex_rr]
      (snd (lcache_run [(0, OpSet ''k'' (Some ex_reply))] ([ex_rr], NewGeneric 1))))
    = Some CacheIsFull"
proof -
  let ?c = "snd (lcache_run [(0, OpSet ''k'' (Some ex_reply))] ([ex_rr], NewGeneric 1))"
  have "lcache_inv ?c"
    using lcache_run_inv [of "([ex_rr], NewGeneric 1)" "[(0, OpSet ''k'' (Some ex_reply))]"]
    by (simp add: lcache_inv_NewGeneric)
  from lcache_Set_refused [OF this, of "''l''" ex_reply 5 "[ex_rr]"] show ?thesis
    by (simp add: lengCache_Set_def NewGeneric_def lengCache_Full_def Let_def
        lengCache_Length_def lengCache_Exists_def)
qed

end
