(* ===== verification/Main_Cache.thy ===== *)
theory Main_Cache
  imports Dns_Msg
begin

text \<open>
  The two message caches of package main (src/cache.go, \<open>makeCache\<close> of src/utils.go):
  \<open>MemoryCache\<close>, a map behind a lock, and \<open>lengCache\<close>, a \<open>sync.Map\<close> with a size counter.
  The event loop uses the cache of package lcache instead. Both age the records of an
  entry at every read, by the whole seconds since the last one.
\<close>

section \<open>Data\<close>

datatype main_error = main_KeyNotFound string | main_KeyExpired string | main_CacheIsFull

record Mesg =
  Mesg_Msg :: "rref msg option"
  Mesg_Blocked :: bool
  LastUpdateTime :: gotime

record MemoryCache =
  mem_Backend :: "(string \<times> Mesg) list"
  mem_Maxcount :: int

definition makeCache :: MemoryCache where
  "makeCache = \<lparr>mem_Backend = [], mem_Maxcount = 0\<rparr>"

text \<open>The other helpers of src/utils.go, on lists of comparable values.\<close>

definition difference :: "'a list \<Rightarrow> 'a list \<Rightarrow> 'a list" where
  "difference a b =
     (let m = foldl (\<lambda>m item. m(item := True)) (\<lambda>_. False) b
      in foldl (\<lambda>diff item. if \<not> m item then diff @ [item] else diff) [] a)"

definition testEq :: "'a list \<Rightarrow> 'a list \<Rightarrow> bool" where
  "testEq a b = (if length a \<noteq> length b then False else list_all (\<lambda>i. a ! i = b ! i) [0 ..< length a])"

lemma difference_filter: "difference a b = filter (\<lambda>x. x \<notin> set b) a"
proof -
  have "foldl (\<lambda>m item. m(item := True)) f b = (\<lambda>x. f x \<or> x \<in> set b)" for f :: "'a \<Rightarrow> bool"
    by (induction b arbitrary: f) (auto simp: fun_eq_iff)
  moreover have "foldl (\<lambda>diff item. if \<not> p item then diff @ [item] else diff) ds a = ds @ filter (\<lambda>x. \<not> p x) a" for p ds
    by (induction a arbitrary: ds) auto
  ultimately show ?thesis by (simp add: difference_def)
qed

lemma testEq_iff: "testEq a b \<longleftrightarrow> a = b"
  by (auto simp: testEq_def list_all_iff intro: nth_equalityI)

text \<open>
  The loop over the answers of an entry: an answer that is older than its time to live makes
  the entry expired; every time to live is decreased, with wrap-around.
\<close>

fun age_answers :: "u32 \<Rightarrow> rref list \<Rightarrow> bool \<times> rr_heap \<Rightarrow> bool \<times> rr_heap" where
  "age_answers elapsed [] (expired, h) = (expired, h)"
| "age_answers elapsed (r # rs) (expired, h) =
     age_answers elapsed rs (expired \<or> elapsed > ttl_of h r, h[r := set_Ttl (ttl_of h r - elapsed) (h ! r)])"

section \<open>MemoryCache\<close>

definition removeNoLock :: "string \<Rightarrow> MemoryCache \<Rightarrow> MemoryCache" where
  "removeNoLock key c = c\<lparr>mem_Backend := AList.delete (ToLower key) (mem_Backend c)\<rparr>"

definition MemoryCache_Remove :: "string \<Rightarrow> MemoryCache \<Rightarrow> MemoryCache" where
  "MemoryCache_Remove key c = removeNoLock key c"

definition MemoryCache_Exists :: "string \<Rightarrow> MemoryCache \<Rightarrow> bool" where
  "MemoryCache_Exists key c = (map_of (mem_Backend c) (ToLower key) \<noteq> None)"

definition MemoryCache_Length :: "MemoryCache \<Rightarrow> nat" where
  "MemoryCache_Length c = length (mem_Backend c)"

definition MemoryCache_Full :: "MemoryCache \<Rightarrow> bool" where
  "MemoryCache_Full c = (if mem_Maxcount c = 0 then False else int (MemoryCache_Length c) \<ge> mem_Maxcount c)"

definition MemoryCache_Get ::
  "string \<Rightarrow> gotime \<Rightarrow> rr_heap \<Rightarrow> MemoryCache
    \<Rightarrow> (main_error + rref msg \<times> bool) \<times> rr_heap \<times> MemoryCache" where
  "MemoryCache_Get key clock h c =
     (let key = ToLower key;
          now = time_Truncate clock Second
      in
      case map_of (mem_Backend c) key of
        None \<Rightarrow> (Inl (main_KeyNotFound key), h, c)
      | Some mesg \<Rightarrow>
          (case Mesg_Msg mesg of
             None \<Rightarrow> (Inl (main_KeyNotFound key), h, removeNoLock key c)
           | Some m \<Rightarrow>
               let elapsed = uint32_Seconds (now - LastUpdateTime mesg);
                   (expired, h) = age_answers elapsed (Answer m) (False, h)
               in
               if expired then (Inl (main_KeyExpired key), h, removeNoLock key c)
               else (Inr (m, Mesg_Blocked mesg), h,
                     c\<lparr>mem_Backend := AList.update key (mesg\<lparr>LastUpdateTime := now\<rparr>) (mem_Backend c)\<rparr>)))"

definition MemoryCache_Set ::
  "string \<Rightarrow> rref msg option \<Rightarrow> bool \<Rightarrow> gotime \<Rightarrow> MemoryCache \<Rightarrow> main_error option \<times> MemoryCache" where
  "MemoryCache_Set key m blocked clock c =
     (let key = ToLower key in
      if MemoryCache_Full c \<and> \<not> MemoryCache_Exists key c then (Some main_CacheIsFull, c)
      else (None, c\<lparr>mem_Backend := AList.update key
              \<lparr>Mesg_Msg = m, Mesg_Blocked = blocked, LastUpdateTime = time_Truncate clock Second\<rparr> (mem_Backend c)\<rparr>))"

section \<open>lengCache of package main\<close>

record main_lengCache =
  mc_backend :: "string \<rightharpoonup> Mesg"
  mc_size :: int
  mc_full :: bool
  mc_maxSize :: int

definition NewCache :: "int \<Rightarrow> main_lengCache" where
  "NewCache n = \<lparr>mc_backend = Map.empty, mc_size = 0, mc_full = False, mc_maxSize = n\<rparr>"

definition main_lengCache_Exists :: "string \<Rightarrow> main_lengCache \<Rightarrow> bool" where
  "main_lengCache_Exists key c = (mc_backend c key \<noteq> None)"

definition main_lengCache_Remove :: "string \<Rightarrow> main_lengCache \<Rightarrow> main_lengCache" where
  "main_lengCache_Remove key c =
     (case mc_backend c key of
        None \<Rightarrow> c
      | Some _ \<Rightarrow>
          let c = c\<lparr>mc_backend := (mc_backend c)(key := None), mc_size := mc_size c - 1\<rparr>
          in if mc_size c < mc_maxSize c then c\<lparr>mc_full := False\<rparr> else c)"

definition main_lengCache_Length :: "main_lengCache \<Rightarrow> int \<times> main_lengCache" where
  "main_lengCache_Length c = (mc_size c, c\<lparr>mc_full := (mc_size c > mc_maxSize c)\<rparr>)"

definition main_lengCache_Full :: "main_lengCache \<Rightarrow> bool" where
  "main_lengCache_Full c = (if mc_maxSize c > 0 then mc_full c else False)"

text \<open>The type assertion on the result of \<open>Load\<close> comes before the test whether there is one.\<close>

definition main_lengCache_Get ::
  "string \<Rightarrow> gotime \<Rightarrow> rr_heap \<Rightarrow> main_lengCache
    \<Rightarrow> go_panic + (main_error + rref msg \<times> bool) \<times> rr_heap \<times> main_lengCache" where
  "main_lengCache_Get key clock h c =
     (let key = ToLower key;
          now = time_Truncate clock Second
      in
      case mc_backend c key of
        None \<Rightarrow> Inl TypeAssertion
      | Some mesg \<Rightarrow>
          (case Mesg_Msg mesg of
             None \<Rightarrow> Inr (Inl (main_KeyNotFound key), h, main_lengCache_Remove key c)
           | Some m \<Rightarrow>
               let elapsed = uint32_Seconds (now - LastUpdateTime mesg);
                   (expired, h) = age_answers elapsed (Answer m) (False, h)
               in
               if expired then Inr (Inl (main_KeyExpired key), h, main_lengCache_Remove key c)
               else Inr (Inr (m, Mesg_Blocked mesg), h,
                     c\<lparr>mc_backend := (mc_backend c)(key \<mapsto> mesg\<lparr>LastUpdateTime := now\<rparr>)\<rparr>)))"

definition main_lengCache_Set ::
  "string \<Rightarrow> rref msg option \<Rightarrow> bool \<Rightarrow> gotime \<Rightarrow> main_lengCache \<Rightarrow> main_error option \<times> main_lengCache" where
  "main_lengCache_Set key m blocked clock c =
     (let key = ToLower key in
      if main_lengCache_Full c \<and> \<not> main_lengCache_Exists key c then (Some main_CacheIsFull, c)
      else (None, c\<lparr>mc_backend := (mc_backend c)(key \<mapsto>
              \<lparr>Mesg_Msg = m, Mesg_Blocked = blocked, LastUpdateTime = time_Truncate clock Second\<rparr>)\<rparr>))"

section \<open>Ageing\<close>

lemma age_answers_length [simp]: "length (snd (age_answers d rs (e, h))) = length h"
  by (induction rs arbitrary: e h) simp_all

lemma age_answers_expired_mono: "fst (age_answers d rs (True, h))"
  by (induction rs arbitrary: h) simp_all

text \<open>For distinct records nothing expires exactly when none is older than its time to live.\<close>

lemma age_answers_spec:
  "distinct rs \<Longrightarrow> refs_ok rs h \<Longrightarrow>
     (fst (age_answers d rs (e, h)) \<longleftrightarrow> e \<or> (\<exists>r\<in>set rs. ttl_of h r < d)) \<and>
     (\<forall>r. ttl_of (snd (age_answers d rs (e, h))) r = (if r \<in> set rs then ttl_of h r - d else ttl_of h r))"
proof (induction rs arbitrary: e h)
  case (Cons r rs)
  let ?h = "h[r := set_Ttl (ttl_of h r - d) (h ! r)]"
  have r: "r < length h" "r \<notin> set rs" "distinct rs" "refs_ok rs ?h"
    using Cons.prems by (auto simp: refs_ok_def)
  have t: "ttl_of ?h s = (if s = r then ttl_of h r - d else ttl_of h s)" for s
    using ttl_of_update [OF r(1)] by simp
  from Cons.IH [OF r(3,4), of "e \<or> d > ttl_of h r"] r(2) show ?case by (auto simp: t)
qed simp

lemma MemoryCache_Set_Get:
  assumes s: "MemoryCache_Set k (Some m) b t c = (None, c')" and k: "ToLower k' = ToLower k"
    and rs: "distinct (Answer m)" "refs_ok (Answer m) h"
    and d: "d = uint32_Seconds (time_Truncate t' Second - time_Truncate t Second)"
  shows "\<exists>h'. MemoryCache_Get k' t' h c' =
    (if \<exists>r\<in>set (Answer m). ttl_of h r < d then (Inl (main_KeyExpired (ToLower k)), h', MemoryCache_Remove k c')
     else (Inr (m, b), h', c'\<lparr>mem_Backend := AList.update (ToLower k)
        \<lparr>Mesg_Msg = Some m, Mesg_Blocked = b, LastUpdateTime = time_Truncate t' Second\<rparr> (mem_Backend c')\<rparr>)) \<and>
    (\<forall>r\<in>set (Answer m). ttl_of h' r = ttl_of h r - d)"
proof -
  obtain e h' where a: "age_answers d (Answer m) (False, h) = (e, h')" by fastforce
  have look: "map_of (mem_Backend c') (ToLower k) =
      Some \<lparr>Mesg_Msg = Some m, Mesg_Blocked = b, LastUpdateTime = time_Truncate t Second\<rparr>"
    using s by (auto simp: MemoryCache_Set_def Let_def update_conv' split: if_splits)
  show ?thesis
    using age_answers_spec [OF rs, of d False] a k look d
    by (intro exI [of _ h']) (auto simp: MemoryCache_Get_def MemoryCache_Remove_def removeNoLock_def Let_def)
qed

section \<open>Runs of lengCache\<close>

datatype main_op = MainGet string | MainSet string "rref msg option" bool | MainRemove string | MainLength

text \<open>A client run: operations with their clock readings, on a heap and a cache, up to a panic.\<close>

fun main_run :: "(gotime \<times> main_op) list \<Rightarrow> rr_heap \<times> main_lengCache \<Rightarrow> go_panic + rr_heap \<times> main_lengCache" where
  "main_run [] s = Inr s"
| "main_run ((t, MainGet k) # ops) (h, c) = go_bind (main_lengCache_Get k t h c) (\<lambda>(r, s). main_run ops s)"
| "main_run ((t, MainSet k m b) # ops) (h, c) = main_run ops (h, snd (main_lengCache_Set k m b t c))"
| "main_run ((t, MainRemove k) # ops) (h, c) = main_run ops (h, main_lengCache_Remove k c)"
| "main_run ((t, MainLength) # ops) (h, c) = main_run ops (h, snd (main_lengCache_Length c))"

definition never_full :: "main_lengCache \<Rightarrow> bool" where
  "never_full c \<longleftrightarrow> mc_size c \<le> 0 \<and> (mc_maxSize c > 0 \<longrightarrow> \<not> mc_full c)"

lemma never_full_Get:
  "never_full c \<Longrightarrow> main_lengCache_Get k t h c = Inr (r, h', c') \<Longrightarrow> never_full c'"
  by (auto simp: never_full_def main_lengCache_Get_def main_lengCache_Remove_def Let_def
      split: option.splits prod.splits if_splits)

lemma main_run_never_full: "main_run ops s = Inr s' \<Longrightarrow> never_full (snd s) \<Longrightarrow> never_full (snd s')"
proof (induction ops s rule: main_run.induct)
  case (2 t k ops h c)
  then obtain r h1 c1 where g: "main_lengCache_Get k t h c = Inr (r, h1, c1)" "main_run ops (h1, c1) = Inr s'"
    by (auto simp: go_bind_Inr_iff)
  with 2 never_full_Get [OF _ g(1)] show ?case by simp
next
  case (3 t k m b ops h c)
  then show ?case by (simp add: main_lengCache_Set_def Let_def never_full_def)
next
  case (4 t k ops h c)
  then show ?case by (auto simp: main_lengCache_Remove_def Let_def never_full_def split: option.splits)
next
  case (5 t ops h c)
  then show ?case by (simp add: main_lengCache_Length_def never_full_def)
qed simp

section \<open>Properties\<close>

text \<open>Concrete inputs of the witnesses.\<close>

definition ex_main_rr :: rr where
  "ex_main_rr = \<lparr>Hdr = \<lparr>Hdr_Name = ''a.b.'', Rrtype = TypeA, Class = ClassINET, Ttl = 10, Rdlength = 4\<rparr>,
     Rdata = RdA (Some [10, 0, 0, 1])\<rparr>"

definition ex_main_msg :: "rref msg" where
  "ex_main_msg = new_Msg\<lparr>Answer := [0]\<rparr>"

text \<open>
  What \<open>Set\<close> stored in a \<open>MemoryCache\<close> is what \<open>Get\<close> returns, whatever the case of the
  key, unless some record is older, in whole seconds, than its time to live, in which case
  the key is reported as expired and dropped; every record's time to live is decreased by
  the seconds that have passed.
\<close>

theorem memory_cache_Get_after_Set:
  assumes "MemoryCache_Set k (Some m) b t c = (None, c')" and "ToLower k' = ToLower k"
    and "distinct (Answer m)" and "refs_ok (Answer m) h"
    and "d = uint32_Seconds (time_Truncate t' Second - time_Truncate t Second)"
  shows "\<exists>h' c''. MemoryCache_Get k' t' h c' =
      (if \<exists>r\<in>set (Answer m). ttl_of h r < d then Inl (main_KeyExpired (ToLower k)) else Inr (m, b), h', c'') \<and>
    (\<forall>r\<in>set (Answer m). ttl_of h' r = ttl_of h r - d) \<and>
    (MemoryCache_Exists k c'' \<longleftrightarrow> \<not> (\<exists>r\<in>set (Answer m). ttl_of h r < d))"
proof -
  have "map_of (mem_Backend (MemoryCache_Remove k c')) (ToLower k) = None"
    by (simp add: MemoryCache_Remove_def removeNoLock_def delete_conv')
  then show ?thesis
    using MemoryCache_Set_Get [OF assms] by (auto simp: MemoryCache_Exists_def update_conv' split: if_splits)
qed

theorem memory_cache_Get_after_Set_witness:
  "\<exists>h' c''. MemoryCache_Get ''k'' (3 * Second) [ex_main_rr]
      (snd (MemoryCache_Set ''k'' (Some ex_main_msg) True 0 makeCache)) = (Inr (ex_main_msg, True), h', c'') \<and>
    ttl_of h' 0 = 7"
proof -
  let ?c = "snd (MemoryCache_Set ''k'' (Some ex_main_msg) True 0 makeCache)"
  have s: "MemoryCache_Set ''k'' (Some ex_main_msg) True 0 makeCache = (None, ?c)"
    by (simp add: MemoryCache_Set_def makeCache_def MemoryCache_Full_def Let_def)
  have d: "uint32_Seconds (time_Truncate (3 * Second) Second - time_Truncate 0 Second) = 3"
    by (simp add: time_Truncate_def Second_def uint32_Seconds_def)
  have t: "ttl_of [ex_main_rr] 0 = 10" by (simp add: ttl_of_def ex_main_rr_def)
  show ?thesis
    using memory_cache_Get_after_Set [OF s refl, of "[ex_main_rr]" 3 "3 * Second"] d t
    by (auto simp: ex_main_msg_def refs_ok_def)
qed

text \<open>
  \<open>lengCache\<close> of package main does not keep its contract: reading a key that is not stored
  panics, and, because no insertion counts, a cache with a positive capacity never refuses
  an entry, after any run of operations that did not panic.
\<close>

theorem main_cache_broken:
  assumes "main_run ops (h, NewCache n) = Inr (h', c)"
  shows "fst (main_lengCache_Set k m b t c) = None \<and> fst (main_lengCache_Length c) \<le> 0 \<and>
    (mc_backend c (ToLower k) = None \<longrightarrow> main_lengCache_Get k t h' c = Inl TypeAssertion)"
proof -
  have "never_full c"
    using main_run_never_full [OF assms] by (simp add: never_full_def NewCache_def)
  then show ?thesis
    by (auto simp: never_full_def main_lengCache_Set_def main_lengCache_Full_def main_lengCache_Length_def
        main_lengCache_Get_def Let_def)
qed

theorem main_cache_broken_witness:
  "fst (main_lengCache_Set ''l'' None False 5 (snd (main_lengCache_Set ''k'' None False 4 (NewCache 1)))) = None"
proof -
  have "main_run [(4, MainSet ''k'' None False)] ([], NewCache 1) =
      Inr ([], snd (main_lengCache_Set ''k'' None False 4 (NewCache 1)))"
    by simp
  from main_cache_broken [OF this] show ?thesis by blast
qed

end
