(* ===== verification/Glob_Match.thy ===== *)
theory Glob_Match
  imports Go_Prelude
begin

text \<open>
  The matcher of block-list patterns, \<open>Glob\<close> of github.com/ryanuber/go-glob (under
  src/vendor), which \<open>MemoryBlockCache.Exists\<close> calls. \<open>wildcard\<close> says what a pattern means:
  a star stands for any string, every other byte for itself. The greedy left-to-right
  search of \<open>Glob\<close> decides exactly that.
\<close>

section \<open>The matcher\<close>

text \<open>
  The loop over all parts but the last, with the index of the part: the first must match
  at the front unless the pattern starts with a star, a later one anywhere. \<open>None\<close> is the
  early \<open>return false\<close>, \<open>Some\<close> the rest of the subject. (With a leading star the first
  part is empty, so \<open>Index\<close> finds it.)
\<close>

fun glob_loop :: "bool \<Rightarrow> nat \<Rightarrow> string list \<Rightarrow> string \<Rightarrow> string option" where
  "glob_loop leadingGlob i [] subj = Some subj"
| "glob_loop leadingGlob i (part # parts) subj =
     (case Index subj part of
        None \<Rightarrow> None
      | Some idx \<Rightarrow>
          if i = 0 \<and> \<not> leadingGlob \<and> idx \<noteq> 0 then None
          else glob_loop leadingGlob (Suc i) parts (drop (idx + length part) subj))"

definition Glob :: "string \<Rightarrow> string \<Rightarrow> bool" where
  "Glob pattern subj =
     (if pattern = [] then subj = pattern
      else if pattern = ''*'' then True
      else let parts = Split pattern CHR ''*'' in
        if length parts = 1 then subj = pattern
        else let leadingGlob = HasPrefix pattern ''*''; trailingGlob = HasSuffix pattern ''*'' in
          case glob_loop leadingGlob 0 (butlast parts) subj of
            None \<Rightarrow> False
          | Some rest \<Rightarrow> trailingGlob \<or> HasSuffix rest (last parts))"

section \<open>What a pattern means\<close>

fun wildcard :: "string \<Rightarrow> string \<Rightarrow> bool" where
  "wildcard [] s \<longleftrightarrow> s = []"
| "wildcard (p # ps) s \<longleftrightarrow>
     (if p = CHR ''*'' then list_ex (\<lambda>k. wildcard ps (drop k s)) [0 ..< Suc (length s)]
      else s \<noteq> [] \<and> hd s = p \<and> wildcard ps (tl s))"

lemma wildcard_star: "wildcard (CHR ''*'' # ps) s \<longleftrightarrow> (\<exists>x y. s = x @ y \<and> wildcard ps y)"
proof -
  have "wildcard (CHR ''*'' # ps) s \<longleftrightarrow> (\<exists>k\<le>length s. wildcard ps (drop k s))"
    by (auto simp: list_ex_iff less_Suc_eq_le Bex_def simp del: upt_Suc)
  also have "\<dots> \<longleftrightarrow> (\<exists>x y. s = x @ y \<and> wildcard ps y)"
    by (metis append_eq_conv_conj append_take_drop_id length_take min.cobounded1)
  finally show ?thesis .
qed

declare wildcard.simps(2) [simp del]

lemma wildcard_char: "p \<noteq> CHR ''*'' \<Longrightarrow>
    wildcard (p # ps) s \<longleftrightarrow> (\<exists>s'. s = p # s' \<and> wildcard ps s')"
  by (cases s) (auto simp: wildcard.simps(2))

section \<open>The parts between the stars\<close>

text \<open>\<open>gaps ws s\<close>: the parts occur in \<open>s\<close> in order, the last one at the end.\<close>

fun gaps :: "string list \<Rightarrow> string \<Rightarrow> bool" where
  "gaps [] s \<longleftrightarrow> s = []"
| "gaps (w # ws) s \<longleftrightarrow> (\<exists>x y. s = x @ w @ y \<and> gaps ws y)"

lemma wildcard_Split:
  "wildcard p s \<longleftrightarrow> (\<exists>y. s = hd (Split p CHR ''*'') @ y \<and> gaps (tl (Split p CHR ''*'')) y)"
proof (induction p arbitrary: s)
  case (Cons c p)
  obtain w ws where sp: "Split p CHR ''*'' = w # ws"
    by (cases "Split p CHR ''*''") simp_all
  show ?case
  proof (cases "c = CHR ''*''")
    case True
    with sp Cons.IH show ?thesis
      by (simp add: wildcard_star) blast
  next
    case False
    with sp Cons.IH show ?thesis
      by (auto simp: wildcard_char)
  qed
qed simp

text \<open>More text in front does no harm: the first gap takes it.\<close>

lemma gaps_prepend: "ws \<noteq> [] \<Longrightarrow> gaps ws s \<Longrightarrow> gaps ws (x @ s)"
  by (cases ws) (auto, metis append.assoc)

lemma gaps_last: "gaps [w] s \<longleftrightarrow> suffix w s"
  by (auto simp: suffix_def)

section \<open>First occurrences\<close>

lemma Index_None: "Index s w = None \<longleftrightarrow> (\<forall>x y. s \<noteq> x @ w @ y)"
proof (induction s)
  case (Cons c s)
  show ?case
  proof (cases "prefix w (c # s)")
    case True
    then show ?thesis by (auto simp: prefix_def) (metis append_Nil)
  next
    case False
    have "(\<exists>x y. c # s = x @ w @ y) \<longleftrightarrow> (\<exists>x y. s = x @ w @ y)"
    proof
      assume "\<exists>x y. c # s = x @ w @ y"
      then obtain x y where "c # s = x @ w @ y" by blast
      with False show "\<exists>x y. s = x @ w @ y"
        by (cases x) (auto simp: prefix_def)
    next
      assume "\<exists>x y. s = x @ w @ y"
      then show "\<exists>x y. c # s = x @ w @ y" by (metis append_Cons)
    qed
    with False Cons.IH show ?thesis by auto
  qed
qed auto

lemma Index_Some_occurs: "Index s w = Some i \<Longrightarrow> s = take i s @ w @ drop (i + length w) s"
proof (induction s arbitrary: i)
  case (Cons c s)
  show ?case
  proof (cases "prefix w (c # s)")
    case True
    with Cons.prems show ?thesis by (auto simp: prefix_def)
  next
    case False
    with Cons.prems obtain j where "Index s w = Some j" and "i = Suc j" by auto
    with Cons.IH show ?thesis by simp
  qed
qed (auto split: if_splits)

lemma Index_Some_first: "Index s w = Some i \<Longrightarrow> s = x @ w @ y \<Longrightarrow> i \<le> length x"
proof (induction s arbitrary: i x)
  case (Cons c s)
  show ?case
  proof (cases x)
    case Nil
    with Cons.prems(2) have "prefix w (c # s)" by (simp add: prefix_def)
    with Cons.prems(1) show ?thesis by simp
  next
    case (Cons d x')
    with Cons.prems Cons.IH show ?thesis by (auto split: if_splits)
  qed
qed (auto split: if_splits)

text \<open>Taking the first occurrence of a part that is not the last one never loses a match.\<close>

lemma gaps_greedy:
  assumes "ws \<noteq> []"
  shows "gaps (w # ws) s \<longleftrightarrow>
    (case Index s w of None \<Rightarrow> False | Some i \<Rightarrow> gaps ws (drop (i + length w) s))"
proof (cases "Index s w")
  case None
  then have "\<not> gaps (w # ws) s" by (simp add: Index_None)
  with None show ?thesis by simp
next
  case (Some i)
  have "gaps ws (drop (i + length w) s)" if occ: "s = x @ w @ y" and g: "gaps ws y" for x y
  proof -
    have "i \<le> length x"
      using Index_Some_first [OF Some occ] .
    moreover from this have "drop (i + length w) s = drop (i + length w) (x @ w) @ y"
      using occ by simp
    ultimately show ?thesis
      using gaps_prepend [OF assms g, of "drop (i + length w) (x @ w)"] by simp
  qed
  then have "gaps (w # ws) s \<Longrightarrow> gaps ws (drop (i + length w) s)" by fastforce
  moreover have "gaps ws (drop (i + length w) s) \<Longrightarrow> gaps (w # ws) s"
    using Index_Some_occurs [OF Some] gaps.simps(2) by blast
  ultimately show ?thesis
    using Some by (auto simp del: gaps.simps)
qed

lemma glob_loop_later:
  "ws \<noteq> [] \<Longrightarrow> 0 < i \<Longrightarrow> gaps ws s \<longleftrightarrow>
     (case glob_loop lead i (butlast ws) s of None \<Rightarrow> False | Some rest \<Rightarrow> HasSuffix rest (last ws))"
proof (induction ws arbitrary: i s)
  case (Cons w ws)
  show ?case
  proof (cases "ws = []")
    case True
    then show ?thesis by (simp add: gaps_last HasSuffix_def del: gaps.simps)
  next
    case False
    have IH: "gaps ws s' \<longleftrightarrow> (case glob_loop lead (Suc i) (butlast ws) s' of None \<Rightarrow> False
        | Some rest \<Rightarrow> HasSuffix rest (last ws))" for s'
      using Cons.IH [OF False] by simp
    show ?thesis
      using False Cons.prems by (auto simp: gaps_greedy IH simp del: gaps.simps split: option.split)
  qed
qed simp

section \<open>Greedy matching decides the meaning\<close>

lemma length_Split: "length (Split p c) = Suc (count_list p c)"
  by (induction p) (auto split: list.splits)

lemma Split_single: "length (Split p c) = 1 \<Longrightarrow> Split p c = [p]"
proof (induction p)
  case (Cons d p)
  then show ?case
    by (auto split: list.splits if_splits)
qed simp

lemma hd_Split_leading: "HasPrefix p [c] \<Longrightarrow> hd (Split p c) = []"
  by (cases p) (auto simp: HasPrefix_def)

lemma last_Split_trailing: "HasSuffix p [c] \<Longrightarrow> last (Split p c) = []"
proof (induction p)
  case (Cons d p)
  show ?case
  proof (cases "p = []")
    case True
    with Cons.prems show ?thesis by (auto simp: HasSuffix_def suffix_Cons)
  next
    case False
    with Cons.prems have "HasSuffix p [c]"
      by (auto simp: HasSuffix_def suffix_Cons)
    then have "last (Split p c) = []" by (rule Cons.IH)
    moreover obtain w ws where sp: "Split p c = w # ws" by (cases "Split p c") simp_all
    moreover have "ws \<noteq> []"
    proof
      assume "ws = []"
      with sp Split_single [of p c] \<open>last (Split p c) = []\<close> False show False by simp
    qed
    ultimately show ?thesis by simp
  qed
qed (simp add: HasSuffix_def)

text \<open>The first round of the loop is the front of the pattern.\<close>

lemma Index_front: "Index s w = Some 0 \<longleftrightarrow> prefix w s"
  by (cases s) auto

lemma glob_loop_first:
  assumes "ws \<noteq> []" and lead: "lead \<Longrightarrow> w = []"
  shows "(case glob_loop lead 0 (w # butlast ws) s of None \<Rightarrow> False
       | Some rest \<Rightarrow> HasSuffix rest (last ws))
     \<longleftrightarrow> (\<exists>y. s = w @ y \<and> gaps ws y)"
proof (cases "prefix w s")
  case True
  then have "Index s w = Some 0" by (simp add: Index_front)
  with True show ?thesis
    by (auto simp: prefix_def glob_loop_later [OF assms(1), where i = "Suc 0" and lead = lead])
next
  case False
  with lead have "\<not> lead" by auto
  moreover have "Index s w \<noteq> Some 0" using False by (simp add: Index_front)
  ultimately show ?thesis
    using False by (auto simp: prefix_def split: option.splits)
qed

lemma Glob_iff_wildcard: "Glob pattern subj \<longleftrightarrow> wildcard pattern subj"
proof -
  consider (empty) "pattern = []" | (star) "pattern = ''*''"
    | (plain) "pattern \<noteq> []" "pattern \<noteq> ''*''" "length (Split pattern CHR ''*'') = 1"
    | (parts) w ws where "pattern \<noteq> []" "pattern \<noteq> ''*''"
        "Split pattern CHR ''*'' = w # ws" "ws \<noteq> []"
    by (cases "Split pattern CHR ''*''"; cases "tl (Split pattern CHR ''*'')") auto
  then show ?thesis
  proof cases
    case star
    then show ?thesis by (simp add: Glob_def wildcard_star)
  next
    case plain
    then show ?thesis by (auto simp: Glob_def Split_single wildcard_Split)
  next
    case parts
    let ?lead = "HasPrefix pattern ''*''"
    have "last (Split pattern CHR ''*'') = []" if "HasSuffix pattern ''*''"
      using last_Split_trailing [OF that] .
    with parts have "Glob pattern subj \<longleftrightarrow> (case glob_loop ?lead 0 (w # butlast ws) subj of
        None \<Rightarrow> False | Some rest \<Rightarrow> HasSuffix rest (last ws))"
      by (auto simp: Glob_def Let_def HasSuffix_def split: option.splits)
    also have "\<dots> \<longleftrightarrow> wildcard pattern subj"
      using glob_loop_first [of ws ?lead w subj] hd_Split_leading [of pattern "CHR ''*''"] parts
      by (simp add: wildcard_Split)
    finally show ?thesis .
  qed (simp add: Glob_def)
qed

lemma wildcard_no_star: "CHR ''*'' \<notin> set p \<Longrightarrow> wildcard p s \<longleftrightarrow> s = p"
proof (induction p arbitrary: s)
  case (Cons c p)
  then have "c \<noteq> CHR ''*''" and IH: "\<And>s. wildcard p s \<longleftrightarrow> s = p" by auto
  then show ?case
    by (simp add: wildcard_char)
qed simp

text \<open>
  C18. The pattern matcher decides exactly the meaning of a pattern: a star stands for any
  string, possibly empty, and every other byte for itself.
\<close>

theorem Glob_is_wildcard: "Glob pattern subj \<longleftrightarrow> wildcard pattern subj"
  by (rule Glob_iff_wildcard)

end
