(* ===== verification/Block_Cache.thy ===== *)
theory Block_Cache
  imports Main_Cache Glob_Match
begin

text \<open>
  The block list (\<open>MemoryBlockCache\<close> of src/cache.go): exact names in \<open>Backend\<close>, patterns in
  \<open>Special\<close>. A key that starts with a tilde is a regular expression, a key with a star or a
  question mark is a glob pattern, any other key a name.

  Go maps that the code ranges over or measures are association lists; a nil map, which
  reads as empty and panics on a write, is \<open>None\<close>. Go's regular expressions are a parameter,
  \<open>compile\<close> and \<open>matches\<close>. The locale \<open>block_list\<close> is the contract towards the event loop,
  the updater and the API; the interpretation \<open>bc\<close> discharges it.
\<close>

section \<open>Data and operations\<close>

record 're MemoryBlockCache =
  Backend :: "(string \<times> bool) list"
  Special :: "(string \<times> 're option) list option"

abbreviation (input) "globChars \<equiv> ''*?''"

definition Special_entries :: "'re MemoryBlockCache \<Rightarrow> (string \<times> 're option) list" where
  "Special_entries c = (case Special c of None \<Rightarrow> [] | Some sp \<Rightarrow> sp)"

definition Special_put ::
  "string \<Rightarrow> 're option \<Rightarrow> 're MemoryBlockCache \<Rightarrow> go_panic + 're MemoryBlockCache" where
  "Special_put key v c = (case Special c of None \<Rightarrow> Inl NilMapWrite
     | Some sp \<Rightarrow> Inr (c\<lparr>Special := Some (AList.update key v sp)\<rparr>))"

definition MemoryBlockCache_Get ::
  "string \<Rightarrow> 're MemoryBlockCache \<Rightarrow> bool \<times> main_error option" where
  "MemoryBlockCache_Get key c =
     (let (key, val, ok) =
        (if HasPrefix key ''~'' then (key, True, map_of (Special_entries c) key \<noteq> None)
         else if ContainsAny key globChars then
           (let key = ToLower key in (key, True, map_of (Special_entries c) key \<noteq> None))
         else
           (let key = ToLower key in
            case map_of (Backend c) key of
              None \<Rightarrow> (key, False, False)
            | Some v \<Rightarrow> (key, v, True)))
      in if \<not> ok then (False, Some (main_KeyNotFound key)) else (val, None))"

definition MemoryBlockCache_Remove :: "string \<Rightarrow> 're MemoryBlockCache \<Rightarrow> 're MemoryBlockCache" where
  "MemoryBlockCache_Remove key c =
     (if HasPrefix key ''~'' then c\<lparr>Special := map_option (AList.delete key) (Special c)\<rparr>
      else if ContainsAny key globChars then
        c\<lparr>Special := map_option (AList.delete (ToLower key)) (Special c)\<rparr>
      else c\<lparr>Backend := AList.delete (ToLower key) (Backend c)\<rparr>)"

text \<open>\<open>Set\<close> always returns a nil error; an expression that does not compile is only logged.\<close>

definition MemoryBlockCache_Set ::
  "(string \<Rightarrow> 're option) \<Rightarrow> string \<Rightarrow> bool \<Rightarrow> 're MemoryBlockCache
    \<Rightarrow> go_panic + 're MemoryBlockCache" where
  "MemoryBlockCache_Set compile key value c =
     (if HasPrefix key ''~'' then
        (case compile (tl key) of
           None \<Rightarrow> Inr c
         | Some re \<Rightarrow> Special_put key (Some re) c)
      else if ContainsAny key globChars then Special_put (ToLower key) None c
      else Inr (c\<lparr>Backend := AList.update (ToLower key) value (Backend c)\<rparr>))"

definition MemoryBlockCache_Exists ::
  "('re \<Rightarrow> string \<Rightarrow> bool) \<Rightarrow> string \<Rightarrow> 're MemoryBlockCache \<Rightarrow> bool" where
  "MemoryBlockCache_Exists matches key c =
     (let key = ToLower key in
      map_of (Backend c) key \<noteq> None \<or>
      list_ex (\<lambda>(data, regex). case regex of Some re \<Rightarrow> matches re key | None \<Rightarrow> Glob data key)
        (Special_entries c))"

definition MemoryBlockCache_Length :: "'re MemoryBlockCache \<Rightarrow> nat" where
  "MemoryBlockCache_Length c = length (Backend c)"

definition empty_block_cache :: "'re MemoryBlockCache" where
  "empty_block_cache = \<lparr>Backend = [], Special = Some []\<rparr>"

section \<open>Kinds of keys\<close>

definition plain_key :: "string \<Rightarrow> bool" where
  "plain_key k \<longleftrightarrow> \<not> HasPrefix k ''~'' \<and> \<not> ContainsAny k globChars"

text \<open>The key under which an entry is stored.\<close>

definition stored_key :: "string \<Rightarrow> string" where
  "stored_key k = (if HasPrefix k ''~'' then k else ToLower k)"

lemma to_lower_char_eq_iff:
  "of_char d < (65::nat) \<or> (90::nat) < of_char d \<and> of_char d < (97::nat) \<or> (122::nat) < of_char d
    \<Longrightarrow> to_lower_char c = d \<longleftrightarrow> c = d"
  by (auto simp: to_lower_char_def Let_def)

lemma to_lower_char_marks [simp]:
  "to_lower_char c = CHR ''~'' \<longleftrightarrow> c = CHR ''~''"
  "to_lower_char c = CHR ''*'' \<longleftrightarrow> c = CHR ''*''"
  "to_lower_char c = CHR ''?'' \<longleftrightarrow> c = CHR ''?''"
  by (rule to_lower_char_eq_iff; simp)+

lemma HasPrefix_tilde_ToLower [simp]: "HasPrefix (ToLower k) ''~'' \<longleftrightarrow> HasPrefix k ''~''"
  by (cases k) (simp_all add: HasPrefix_def ToLower_def eq_commute [of "CHR ''~''"])

lemma ContainsAny_glob_ToLower [simp]: "ContainsAny (ToLower k) globChars \<longleftrightarrow> ContainsAny k globChars"
  by (auto simp: ContainsAny_def ToLower_def list_ex_iff)

lemma plain_key_ToLower [simp]: "plain_key (ToLower k) \<longleftrightarrow> plain_key k"
  by (simp add: plain_key_def)

section \<open>The contract of the block list\<close>

locale block_list =
  fixes inv :: "'c \<Rightarrow> bool"
    and put :: "string \<Rightarrow> bool \<Rightarrow> 'c \<Rightarrow> go_panic + 'c"
    and get :: "string \<Rightarrow> 'c \<Rightarrow> bool \<times> main_error option"
    and rem :: "string \<Rightarrow> 'c \<Rightarrow> 'c"
    and has :: "string \<Rightarrow> 'c \<Rightarrow> bool"
  assumes put_ok: "inv c \<Longrightarrow> \<exists>c'. put k v c = Inr c' \<and> inv c'"
    and put_mono: "inv c \<Longrightarrow> put k v c = Inr c' \<Longrightarrow> has q c \<Longrightarrow> has q c'"
    and put_plain: "inv c \<Longrightarrow> plain_key k \<Longrightarrow> put k v c = Inr c' \<Longrightarrow>
      has q c' \<longleftrightarrow> has q c \<or> ToLower q = ToLower k"
    and put_glob: "inv c \<Longrightarrow> \<not> HasPrefix k ''~'' \<Longrightarrow> ContainsAny k globChars \<Longrightarrow>
      put k v c = Inr c' \<Longrightarrow> has q c' \<longleftrightarrow> has q c \<or> wildcard (ToLower k) (ToLower q)"
    and get_put: "inv c \<Longrightarrow> plain_key k \<Longrightarrow> put k v c = Inr c' \<Longrightarrow> get k c' = (v, None)"
    and get_put_other: "inv c \<Longrightarrow> stored_key q \<noteq> stored_key k \<Longrightarrow> put k v c = Inr c' \<Longrightarrow>
      get q c' = get q c"
    and inv_rem: "inv c \<Longrightarrow> inv (rem k c)"
    and get_rem: "get k (rem k c) = (False, Some (main_KeyNotFound (stored_key k)))"
    and get_rem_other: "stored_key q \<noteq> stored_key k \<Longrightarrow> get q (rem k c) = get q c"
    and rem_subset: "inv c \<Longrightarrow> has q (rem k c) \<Longrightarrow> has q c"
    and has_lower: "has (ToLower q) c \<longleftrightarrow> has q c"
begin

text \<open>Loading a list of entries one after the other.\<close>

primrec load :: "string list \<Rightarrow> 'c \<Rightarrow> go_panic + 'c" where
  "load [] c = Inr c"
| "load (k # ks) c = go_bind (put k True c) (load ks)"

lemma load_ok: "inv c \<Longrightarrow> \<exists>c'. load ks c = Inr c' \<and> inv c'"
proof (induction ks arbitrary: c)
  case (Cons k ks)
  from put_ok [OF Cons.prems, of k True] obtain c1 where "put k True c = Inr c1" "inv c1" by blast
  with Cons.IH [of c1] show ?case by simp
qed simp

lemma load_mono: "inv c \<Longrightarrow> load ks c = Inr c' \<Longrightarrow> has q c \<Longrightarrow> has q c'"
proof (induction ks arbitrary: c)
  case (Cons k ks)
  from put_ok [OF Cons.prems(1), of k True] obtain c1 where c1: "put k True c = Inr c1" "inv c1"
    by blast
  moreover from Cons.prems c1 have "has q c1" by (blast intro: put_mono)
  ultimately show ?case using Cons.IH [of c1] Cons.prems by simp
qed simp

text \<open>Every loaded name is blocked, in any case; with names only, nothing else is added.\<close>

lemma load_plain:
  "inv c \<Longrightarrow> list_all plain_key ks \<Longrightarrow> load ks c = Inr c' \<Longrightarrow>
     has q c' \<longleftrightarrow> has q c \<or> ToLower q \<in> ToLower ` set ks"
proof (induction ks arbitrary: c)
  case (Cons k ks)
  from put_ok [OF Cons.prems(1), of k True] obtain c1 where c1: "put k True c = Inr c1" "inv c1"
    by blast
  with Cons.prems put_plain [of c k True c1 q] have "has q c1 \<longleftrightarrow> has q c \<or> ToLower q = ToLower k"
    by simp
  with c1 Cons.IH [of c1] Cons.prems show ?case by auto
qed simp

lemma load_blocks:
  "inv c \<Longrightarrow> load ks c = Inr c' \<Longrightarrow> k \<in> set ks \<Longrightarrow> plain_key k \<Longrightarrow> ToLower q = ToLower k \<Longrightarrow> has q c'"
proof (induction ks arbitrary: c)
  case (Cons k' ks)
  from put_ok [OF Cons.prems(1), of k' True] obtain c1 where c1: "put k' True c = Inr c1" "inv c1"
    by blast
  with Cons.prems have l: "load ks c1 = Inr c'" by simp
  show ?case
  proof (cases "k = k'")
    case True
    with c1 Cons.prems have "has q c1" using put_plain [of c k' True c1 q] by simp
    then show ?thesis by (rule load_mono [OF c1(2) l])
  next
    case False
    with Cons c1 l show ?thesis by auto
  qed
qed simp

end

section \<open>The implementation meets the contract\<close>

definition special_ok :: "(string \<Rightarrow> 're option) \<Rightarrow> string \<Rightarrow> 're option \<Rightarrow> bool" where
  "special_ok compile k v =
     (if HasPrefix k ''~'' then v \<noteq> None \<and> v = compile (tl k)
      else v = None \<and> ContainsAny k globChars \<and> ToLower k = k)"

definition bc_inv :: "(string \<Rightarrow> 're option) \<Rightarrow> 're MemoryBlockCache \<Rightarrow> bool" where
  "bc_inv compile c \<longleftrightarrow>
     Special c \<noteq> None \<and>
     distinct (map fst (Backend c)) \<and>
     distinct (map fst (Special_entries c)) \<and>
     (\<forall>k v. map_of (Special_entries c) k = Some v \<longrightarrow> special_ok compile k v)"

lemma bc_inv_empty: "bc_inv compile empty_block_cache"
  by (simp add: bc_inv_def empty_block_cache_def Special_entries_def)

lemma Exists_iff:
  assumes "bc_inv compile c"
  shows "MemoryBlockCache_Exists matches q c \<longleftrightarrow>
    map_of (Backend c) (ToLower q) \<noteq> None \<or>
    (\<exists>k v. map_of (Special_entries c) k = Some v \<and>
      (case v of Some re \<Rightarrow> matches re (ToLower q) | None \<Rightarrow> wildcard k (ToLower q)))"
proof -
  have d: "distinct (map fst (Special_entries c))" using assms by (simp add: bc_inv_def)
  show ?thesis
    by (auto simp: MemoryBlockCache_Exists_def Let_def list_ex_iff Glob_iff_wildcard
        map_of_eq_Some_iff [OF d])
qed

lemma Special_put_ok:
  assumes "bc_inv compile c" and "special_ok compile k v"
  obtains c' where "Special_put k v c = Inr c'" and "bc_inv compile c'"
    and "Backend c' = Backend c" and "map_of (Special_entries c') = (map_of (Special_entries c))(k \<mapsto> v)"
proof -
  obtain sp where sp: "Special c = Some sp" using assms(1) by (auto simp: bc_inv_def)
  let ?c = "c\<lparr>Special := Some (AList.update k v sp)\<rparr>"
  have m: "map_of (Special_entries ?c) = (map_of (Special_entries c))(k \<mapsto> v)"
    using sp by (simp add: Special_entries_def update_conv')
  have "bc_inv compile ?c"
    using assms sp m by (auto simp: bc_inv_def Special_entries_def distinct_update)
  with that [of ?c] sp m show thesis by (simp add: Special_put_def)
qed

lemma Set_cases:
  assumes inv: "bc_inv compile c"
  obtains (bad) "HasPrefix k ''~''" "compile (tl k) = None"
      "MemoryBlockCache_Set compile k v c = Inr c"
  | (regex) re c' where "HasPrefix k ''~''" "compile (tl k) = Some re"
      "MemoryBlockCache_Set compile k v c = Inr c'" "bc_inv compile c'" "Backend c' = Backend c"
      "map_of (Special_entries c') = (map_of (Special_entries c))(k \<mapsto> Some re)"
  | (glob) c' where "\<not> HasPrefix k ''~''" "ContainsAny k globChars"
      "MemoryBlockCache_Set compile k v c = Inr c'" "bc_inv compile c'" "Backend c' = Backend c"
      "map_of (Special_entries c') = (map_of (Special_entries c))(ToLower k \<mapsto> None)"
  | (name) c' where "plain_key k"
      "MemoryBlockCache_Set compile k v c = Inr c'" "bc_inv compile c'"
      "map_of (Backend c') = (map_of (Backend c))(ToLower k \<mapsto> v)"
      "Special_entries c' = Special_entries c"
proof (cases "HasPrefix k ''~''")
  case True
  show thesis
  proof (cases "compile (tl k)")
    case None
    with True bad show thesis by (simp add: MemoryBlockCache_Set_def)
  next
    case (Some re)
    with True have "special_ok compile k (Some re)" by (simp add: special_ok_def)
    from Special_put_ok [OF inv this] True Some regex show thesis
      by (auto simp: MemoryBlockCache_Set_def)
  qed
next
  case False
  show thesis
  proof (cases "ContainsAny k globChars")
    case True
    with False have "special_ok compile (ToLower k) None" by (simp add: special_ok_def)
    from Special_put_ok [OF inv this] True False glob show thesis
      by (auto simp: MemoryBlockCache_Set_def)
  next
    case plain: False
    let ?c = "c\<lparr>Backend := AList.update (ToLower k) v (Backend c)\<rparr>"
    have "bc_inv compile ?c"
      using inv by (simp add: bc_inv_def Special_entries_def distinct_update)
    with False plain name [of ?c] show thesis
      by (simp add: MemoryBlockCache_Set_def plain_key_def Special_entries_def update_conv')
  qed
qed

lemma map_of_Special_Remove:
  "map_of (Special_entries (MemoryBlockCache_Remove k c)) =
     (if plain_key k then map_of (Special_entries c)
      else (map_of (Special_entries c))(stored_key k := None))"
  by (auto simp: MemoryBlockCache_Remove_def plain_key_def stored_key_def Special_entries_def
      delete_conv' split: option.splits)

lemma map_of_Backend_Remove:
  "map_of (Backend (MemoryBlockCache_Remove k c)) =
     (if plain_key k then (map_of (Backend c))(ToLower k := None) else map_of (Backend c))"
  by (auto simp: MemoryBlockCache_Remove_def plain_key_def delete_conv')

lemma bc_inv_Remove: "bc_inv compile c \<Longrightarrow> bc_inv compile (MemoryBlockCache_Remove k c)"
  by (auto simp: bc_inv_def map_of_Special_Remove)
    (auto simp: MemoryBlockCache_Remove_def Special_entries_def distinct_delete)

text \<open>\<open>Get\<close> looks under the stored key, in the map that the kind of key selects.\<close>

lemma Get_eq:
  "MemoryBlockCache_Get k c =
     (if plain_key k then
        (case map_of (Backend c) (stored_key k) of None \<Rightarrow> (False, Some (main_KeyNotFound (stored_key k)))
         | Some v \<Rightarrow> (v, None))
      else if map_of (Special_entries c) (stored_key k) = None
        then (False, Some (main_KeyNotFound (stored_key k))) else (True, None))"
  by (auto simp: MemoryBlockCache_Get_def plain_key_def stored_key_def Let_def split: option.splits)

lemma plain_stored: "plain_key k \<Longrightarrow> stored_key k = ToLower k"
  by (simp add: plain_key_def stored_key_def)

text \<open>Which names an entry of the list matches.\<close>

definition entry_matches ::
  "(string \<Rightarrow> 're option) \<Rightarrow> ('re \<Rightarrow> string \<Rightarrow> bool) \<Rightarrow> string \<Rightarrow> string \<Rightarrow> bool" where
  "entry_matches compile matches k q =
     (if HasPrefix k ''~'' then
        (case compile (tl k) of None \<Rightarrow> False | Some re \<Rightarrow> matches re (ToLower q))
      else if ContainsAny k globChars then wildcard (ToLower k) (ToLower q)
      else ToLower q = ToLower k)"

lemma ex_map_upd:
  assumes "m k = None \<or> m k = Some w"
  shows "(\<exists>k' v. (m(k \<mapsto> w)) k' = Some v \<and> P k' v) \<longleftrightarrow> (\<exists>k' v. m k' = Some v \<and> P k' v) \<or> P k w"
proof -
  have "(m(k \<mapsto> w)) k' = Some v \<longleftrightarrow> m k' = Some v \<or> k' = k \<and> v = w" for k' v
    using assms by auto
  then show ?thesis by blast
qed

lemma Exists_Special_upd:
  assumes "bc_inv compile c" "bc_inv compile c'" "Backend c' = Backend c"
    and "map_of (Special_entries c') = (map_of (Special_entries c))(k \<mapsto> w)"
    and "map_of (Special_entries c) k = None \<or> map_of (Special_entries c) k = Some w"
  shows "MemoryBlockCache_Exists matches q c' \<longleftrightarrow> MemoryBlockCache_Exists matches q c \<or>
    (case w of Some re \<Rightarrow> matches re (ToLower q) | None \<Rightarrow> wildcard k (ToLower q))"
  unfolding Exists_iff [OF assms(1)] Exists_iff [OF assms(2)] assms(3,4)
    ex_map_upd [where m = "map_of (Special_entries c)" and k = k and w = w, OF assms(5)]
  by blast

lemma Exists_Set:
  assumes inv: "bc_inv compile c" and set: "MemoryBlockCache_Set compile k v c = Inr c'"
  shows "MemoryBlockCache_Exists matches q c' \<longleftrightarrow>
    MemoryBlockCache_Exists matches q c \<or> entry_matches compile matches k q"
proof (rule Set_cases [OF inv, of k v])
  assume "HasPrefix k ''~''" "compile (tl k) = None" "MemoryBlockCache_Set compile k v c = Inr c"
  with set show ?thesis by (simp add: entry_matches_def)
next
  fix re c2
  assume a: "HasPrefix k ''~''" "compile (tl k) = Some re"
    "MemoryBlockCache_Set compile k v c = Inr c2" "bc_inv compile c2" "Backend c2 = Backend c"
    "map_of (Special_entries c2) = (map_of (Special_entries c))(k \<mapsto> Some re)"
  have "map_of (Special_entries c) k = None \<or> map_of (Special_entries c) k = Some (Some re)"
    using inv a(1,2) by (cases "map_of (Special_entries c) k") (auto simp: bc_inv_def special_ok_def)
  from Exists_Special_upd [OF inv a(4-6) this] a set show ?thesis
    by (simp add: entry_matches_def)
next
  fix c2
  assume a: "\<not> HasPrefix k ''~''" "ContainsAny k globChars"
    "MemoryBlockCache_Set compile k v c = Inr c2" "bc_inv compile c2" "Backend c2 = Backend c"
    "map_of (Special_entries c2) = (map_of (Special_entries c))(ToLower k \<mapsto> None)"
  have "map_of (Special_entries c) (ToLower k) = None \<or> map_of (Special_entries c) (ToLower k) = Some None"
    using inv a(1,2) by (cases "map_of (Special_entries c) (ToLower k)")
      (auto simp: bc_inv_def special_ok_def)
  from Exists_Special_upd [OF inv a(4-6) this] a set show ?thesis
    by (simp add: entry_matches_def)
next
  fix c2
  assume a: "plain_key k" "MemoryBlockCache_Set compile k v c = Inr c2" "bc_inv compile c2"
    "map_of (Backend c2) = (map_of (Backend c))(ToLower k \<mapsto> v)"
    "Special_entries c2 = Special_entries c"
  with set show ?thesis
    unfolding Exists_iff [OF inv] by (auto simp: Exists_iff entry_matches_def plain_key_def)
qed

interpretation bc: block_list "bc_inv compile" "MemoryBlockCache_Set compile"
  MemoryBlockCache_Get MemoryBlockCache_Remove "MemoryBlockCache_Exists matches"
  for compile :: "string \<Rightarrow> 're option" and matches :: "'re \<Rightarrow> string \<Rightarrow> bool"
proof unfold_locales
  fix c c' :: "'re MemoryBlockCache" and k q v
  show "MemoryBlockCache_Get k (MemoryBlockCache_Remove k c)
      = (False, Some (main_KeyNotFound (stored_key k)))"
    by (simp add: Get_eq map_of_Special_Remove map_of_Backend_Remove plain_stored)
  show "stored_key q \<noteq> stored_key k \<Longrightarrow>
      MemoryBlockCache_Get q (MemoryBlockCache_Remove k c) = MemoryBlockCache_Get q c"
    by (auto simp: Get_eq map_of_Special_Remove map_of_Backend_Remove plain_stored)
  show "MemoryBlockCache_Exists matches (ToLower q) c = MemoryBlockCache_Exists matches q c"
    by (simp add: MemoryBlockCache_Exists_def)
  assume inv: "bc_inv compile c"
  show "\<exists>c'. MemoryBlockCache_Set compile k v c = Inr c' \<and> bc_inv compile c'"
    by (rule Set_cases [OF inv, of k v]) (use inv in auto)
  show "bc_inv compile (MemoryBlockCache_Remove k c)"
    by (rule bc_inv_Remove [OF inv])
  show "MemoryBlockCache_Exists matches q (MemoryBlockCache_Remove k c) \<Longrightarrow>
      MemoryBlockCache_Exists matches q c"
    using inv bc_inv_Remove [OF inv, of k]
    by (auto simp: Exists_iff map_of_Special_Remove map_of_Backend_Remove split: if_splits)
  assume set: "MemoryBlockCache_Set compile k v c = Inr c'"
  show "MemoryBlockCache_Exists matches q c \<Longrightarrow> MemoryBlockCache_Exists matches q c'"
    using Exists_Set [OF inv set] by blast
  show "plain_key k \<Longrightarrow> MemoryBlockCache_Exists matches q c' \<longleftrightarrow>
      MemoryBlockCache_Exists matches q c \<or> ToLower q = ToLower k"
    using Exists_Set [OF inv set] by (simp add: entry_matches_def plain_key_def)
  show "\<not> HasPrefix k ''~'' \<Longrightarrow> ContainsAny k globChars \<Longrightarrow> MemoryBlockCache_Exists matches q c' \<longleftrightarrow>
      MemoryBlockCache_Exists matches q c \<or> wildcard (ToLower k) (ToLower q)"
    using Exists_Set [OF inv set] by (simp add: entry_matches_def)
  show "plain_key k \<Longrightarrow> MemoryBlockCache_Get k c' = (v, None)"
    by (rule Set_cases [OF inv, of k v])
      (use set in \<open>auto simp: Get_eq plain_stored plain_key_def\<close>)
  show "stored_key q \<noteq> stored_key k \<Longrightarrow> MemoryBlockCache_Get q c' = MemoryBlockCache_Get q c"
    by (rule Set_cases [OF inv, of k v])
      (use set in \<open>auto simp: Get_eq stored_key_def plain_key_def\<close>)
qed

section \<open>Properties\<close>

text \<open>
  C17. On a block list with its maps allocated, \<open>Set\<close> never panics, and afterwards a name is
  blocked if it was before or if the new entry matches it: the same name in any case, a
  glob pattern whose stars can be filled in, or a regular expression that matches.
\<close>

theorem block_cache_Set_blocks:
  assumes "bc_inv compile c"
  shows "\<exists>c'. MemoryBlockCache_Set compile k v c = Inr c' \<and> bc_inv compile c' \<and>
    (\<forall>q. MemoryBlockCache_Exists matches q c' \<longleftrightarrow>
       MemoryBlockCache_Exists matches q c \<or>
       (if HasPrefix k ''~'' then
          (case compile (tl k) of None \<Rightarrow> False | Some re \<Rightarrow> matches re (ToLower q))
        else if ContainsAny k globChars then wildcard (ToLower k) (ToLower q)
        else ToLower q = ToLower k))"
proof -
  obtain c' where "MemoryBlockCache_Set compile k v c = Inr c'" and "bc_inv compile c'"
    using bc.put_ok [OF assms] by blast
  with Exists_Set [OF assms] show ?thesis
    unfolding entry_matches_def by blast
qed

theorem block_cache_Set_blocks_witness:
  "\<exists>c'. MemoryBlockCache_Set (\<lambda>_. None :: unit option) ''ads.*'' True empty_block_cache = Inr c'
    \<and> MemoryBlockCache_Exists (\<lambda>_ _. False) ''ADS.com'' c'"
proof -
  have "wildcard (ToLower ''ads.*'') (ToLower ''ADS.com'')"
    by code_simp
  moreover have "\<not> HasPrefix ''ads.*'' ''~''" "ContainsAny ''ads.*'' globChars"
    by code_simp+
  ultimately show ?thesis
    using block_cache_Set_blocks [OF bc_inv_empty, of "\<lambda>_. None" "''ads.*''" True "\<lambda>_ _. False"]
    by auto
qed

text \<open>
  \<open>Get\<close> returns what \<open>Set\<close> stored under a name, \<open>Remove\<close> makes \<open>Get\<close> report that very
  key as not found, and neither affects an entry stored under another key.
\<close>

theorem block_cache_Get_Set_Remove:
  assumes "bc_inv compile c" and "plain_key k"
    and "MemoryBlockCache_Set compile k v c = Inr c'" and "stored_key q \<noteq> ToLower k"
  shows "MemoryBlockCache_Get k c' = (v, None) \<and>
    MemoryBlockCache_Get k (MemoryBlockCache_Remove k c') =
      (False, Some (main_KeyNotFound (ToLower k))) \<and>
    MemoryBlockCache_Get q c' = MemoryBlockCache_Get q c \<and>
    MemoryBlockCache_Get q (MemoryBlockCache_Remove k c') = MemoryBlockCache_Get q c"
proof -
  have sk: "stored_key k = ToLower k" by (rule plain_stored [OF assms(2)])
  with assms(4) have q: "stored_key q \<noteq> stored_key k" by simp
  show ?thesis
    using bc.get_put [OF assms(1-3)] bc.get_rem [of k c'] bc.get_put_other [OF assms(1) q assms(3)]
      bc.get_rem_other [OF q, of c'] by (simp add: sk)
qed

theorem block_cache_Get_Set_Remove_witness:
  "MemoryBlockCache_Get ''A.com''
     (MemoryBlockCache_Remove ''A.com'' \<lparr>Backend = [(''a.com'', True)], Special = Some ([] :: (string \<times> unit option) list)\<rparr>)
   = (False, Some (main_KeyNotFound ''a.com''))"
proof -
  have set: "MemoryBlockCache_Set (\<lambda>_. None) ''A.com'' True empty_block_cache =
      Inr \<lparr>Backend = [(''a.com'', True)], Special = Some ([] :: (string \<times> unit option) list)\<rparr>"
    by code_simp
  have "plain_key ''A.com''" and "stored_key ''b.com'' \<noteq> ToLower ''A.com''"
    and "ToLower ''A.com'' = ''a.com''"
    by code_simp+
  with block_cache_Get_Set_Remove [OF bc_inv_empty _ set, of "''b.com''"] show ?thesis
    by simp
qed

text \<open>
  A question mark makes an entry a pattern but is no wildcard of the matcher: an entry
  with question marks and no star blocks exactly the name that spells them out.
\<close>

theorem block_cache_question_mark:
  assumes "bc_inv compile c" and "\<not> HasPrefix k ''~''"
    and "CHR ''?'' \<in> set k" and "CHR ''*'' \<notin> set k"
    and "MemoryBlockCache_Set compile k v c = Inr c'"
  shows "MemoryBlockCache_Exists matches q c' \<longleftrightarrow>
    MemoryBlockCache_Exists matches q c \<or> ToLower q = ToLower k"
proof -
  have "ContainsAny k globChars"
    using assms(3) by (auto simp: ContainsAny_def list_ex_iff)
  moreover have "CHR ''*'' \<notin> set (ToLower k)"
    using assms(4) by (auto simp: ToLower_def dest: sym)
  then have "wildcard (ToLower k) (ToLower q) \<longleftrightarrow> ToLower q = ToLower k"
    by (rule wildcard_no_star)
  ultimately show ?thesis
    using Exists_Set [OF assms(1,5)] assms(2) by (simp add: entry_matches_def)
qed

theorem block_cache_question_mark_witness:
  "\<exists>c'. MemoryBlockCache_Set (\<lambda>_. None :: unit option) ''ad?.com'' True empty_block_cache = Inr c'
    \<and> \<not> MemoryBlockCache_Exists (\<lambda>_ _. False) ''ad1.com'' c'"
proof -
  have set: "MemoryBlockCache_Set (\<lambda>_. None :: unit option) ''ad?.com'' True empty_block_cache =
      Inr \<lparr>Backend = [], Special = Some [(''ad?.com'', None)]\<rparr>"
    by code_simp
  have "\<not> HasPrefix ''ad?.com'' ''~''" "ToLower ''ad1.com'' \<noteq> ToLower ''ad?.com''"
    "\<not> MemoryBlockCache_Exists (\<lambda>_ _. False) ''ad1.com'' (empty_block_cache :: unit MemoryBlockCache)"
    by code_simp+
  with block_cache_question_mark [OF bc_inv_empty _ _ _ set, of "\<lambda>_ _. False" "''ad1.com''"] set
  show ?thesis by auto
qed

end
