(* ===== verification/Dns_Mux.thy ===== *)
theory Dns_Mux
  imports Dns_Msg
begin

text \<open>
  \<open>dns.ServeMux\<close> of github.com/miekg/dns (serve_mux.go and labels.go under src/vendor): the
  map from zone names to handlers in which leng keeps its custom records, and in which each
  listener registers the event loop under the root zone. A request goes to the handler
  whose zone matches the most labels of the question name.
\<close>

section \<open>Labels\<close>

definition escaped_dot :: "string \<Rightarrow> nat \<Rightarrow> bool" where
  "escaped_dot s i \<longleftrightarrow> odd (trailing_backslashes (take i s))"

function next_label_loop :: "string \<Rightarrow> nat \<Rightarrow> nat \<times> bool" where
  "next_label_loop s i =
     (if i < length s - 1 then
        (if s ! i \<noteq> CHR ''.'' \<or> escaped_dot s i then next_label_loop s (Suc i)
         else (i + 1, False))
      else (i + 1, True))"
  by pat_completeness auto
termination
  by (relation "measure (\<lambda>(s, i). length s - i)") auto

declare next_label_loop.simps [simp del]

definition NextLabel :: "string \<Rightarrow> nat \<Rightarrow> nat \<times> bool" where
  "NextLabel s offset = (if s = [] then (0, True) else next_label_loop s offset)"

lemma next_label_loop_progress:
  "next_label_loop s i = (j, e) \<Longrightarrow> i < j \<and> (\<not> e \<longrightarrow> j < length s)"
proof (induction s i rule: next_label_loop.induct)
  case (1 s i)
  from "1.prems" "1.IH" show ?case
    unfolding next_label_loop.simps [of s i] by (fastforce split: if_splits)
qed

lemma NextLabel_progress: "NextLabel s i = (j, False) \<Longrightarrow> i < j \<and> j < length s"
  using next_label_loop_progress [of s i j False] by (auto simp: NextLabel_def split: if_splits)

section \<open>Matching\<close>

text \<open>
  The loop of \<open>match\<close>. \<open>Inl h\<close> is the early return for anything but a DS query, \<open>Inr\<close> the
  handler that a DS query has seen last, for the parent zone.
\<close>

function match_loop ::
  "(string \<rightharpoonup> 'h) \<Rightarrow> string \<Rightarrow> u16 \<Rightarrow> nat \<Rightarrow> 'h option \<Rightarrow> 'h + 'h option" where
  "match_loop z q t off handler =
     (case z (drop off q) of
        Some h \<Rightarrow>
          if t \<noteq> TypeDS then Inl h
          else (case NextLabel q off of (off', end_reached) \<Rightarrow>
            if end_reached then Inr (Some h) else match_loop z q t off' (Some h))
      | None \<Rightarrow> (case NextLabel q off of (off', end_reached) \<Rightarrow>
            if end_reached then Inr handler else match_loop z q t off' handler))"
  by pat_completeness auto
termination
  by (relation "measure (\<lambda>(z, q, t, off, handler). length q - off)")
    (auto dest!: sym [of "(_, _)"] NextLabel_progress)

declare match_loop.simps [simp del]

definition ServeMux_match :: "(string \<rightharpoonup> 'h) \<Rightarrow> string \<Rightarrow> u16 \<Rightarrow> 'h option" where
  "ServeMux_match z q t =
     (case match_loop z (CanonicalName q) t 0 None of
        Inl h \<Rightarrow> Some h
      | Inr handler \<Rightarrow> (case z ''.'' of Some h \<Rightarrow> Some h | None \<Rightarrow> handler))"

text \<open>\<open>HandleFunc\<close> registers under the canonical name; an empty pattern panics.\<close>

definition ServeMux_Handle ::
  "string \<Rightarrow> 'h \<Rightarrow> (string \<rightharpoonup> 'h) \<Rightarrow> go_panic + (string \<rightharpoonup> 'h)" where
  "ServeMux_Handle pattern h z =
     (if pattern = [] then Inl (ExplicitPanic ''dns: invalid pattern '')
      else Inr (z(CanonicalName pattern \<mapsto> h)))"

text \<open>The handler \<open>ServeDNS\<close> chooses; \<open>None\<close> is the REFUSED reply.\<close>

definition ServeMux_handler :: "(string \<rightharpoonup> 'h) \<Rightarrow> 'r msg \<Rightarrow> 'h option" where
  "ServeMux_handler z req = (case Question req of [] \<Rightarrow> None
     | q # _ \<Rightarrow> ServeMux_match z (q_Name q) (q_Qtype q))"

section \<open>Facts\<close>

text \<open>The exact name wins.\<close>

lemma ServeMux_match_exact:
  "z (CanonicalName q) = Some h \<Longrightarrow> t \<noteq> TypeDS \<Longrightarrow> ServeMux_match z q t = Some h"
  by (simp add: ServeMux_match_def match_loop.simps [of z _ t 0])

lemma match_loop_suffix:
  "(\<And>h. handler = Some h \<Longrightarrow> \<exists>p. z p = Some h \<and> suffix p q) \<Longrightarrow>
   match_loop z q t off handler = Inl h \<or> match_loop z q t off handler = Inr (Some h) \<Longrightarrow>
   \<exists>p. z p = Some h \<and> suffix p q"
proof (induction z q t off handler rule: match_loop.induct)
  case (1 z q t off handler)
  obtain off' e where nl: "NextLabel q off = (off', e)" by (cases "NextLabel q off")
  show ?case
  proof (cases "z (drop off q)")
    case None
    then show ?thesis
      using "1.IH"(1) [OF None nl [symmetric]] "1.prems" nl
      by (auto simp: match_loop.simps [of z q t off] split: if_splits)
  next
    case (Some g)
    have g: "\<exists>p. z p = Some g \<and> suffix p q"
      using Some suffix_drop by blast
    show ?thesis
      using "1.IH"(2) [OF Some _ nl [symmetric]] "1.prems" nl Some g
      by (auto simp: match_loop.simps [of z q t off] split: if_splits)
  qed
qed

text \<open>A handler is chosen only for its own zone, a parent of the name, or the root.\<close>

lemma ServeMux_match_suffix:
  assumes "ServeMux_match z q t = Some h"
  shows "\<exists>p. z p = Some h \<and> (suffix p (CanonicalName q) \<or> p = ''.'')"
proof (cases "match_loop z (CanonicalName q) t 0 None")
  case (Inl g)
  with assms have "g = h" by (simp add: ServeMux_match_def)
  with Inl match_loop_suffix [of None z "CanonicalName q" t 0 h] show ?thesis by auto
next
  case (Inr g)
  show ?thesis
  proof (cases "z ''.''")
    case None
    with assms Inr have "g = Some h" by (simp add: ServeMux_match_def)
    with Inr match_loop_suffix [of None z "CanonicalName q" t 0 h] show ?thesis by auto
  next
    case (Some r)
    with assms Inr show ?thesis by (auto simp: ServeMux_match_def)
  qed
qed

lemma ServeMux_match_empty: "ServeMux_match Map.empty q t = (None :: 'h option)"
proof (rule ccontr)
  assume "ServeMux_match Map.empty q t \<noteq> (None :: 'h option)"
  then obtain h :: 'h where "ServeMux_match Map.empty q t = Some h" by blast
  from ServeMux_match_suffix [OF this] show False by simp
qed

end
