(* ===== verification/Net_IP.thy ===== *)
theory Net_IP
  imports Go_Prelude
begin

text \<open>
  The addresses of package net: \<open>net.ParseIP\<close>, which the event loop applies to the
  configured null routes, \<open>IP.String\<close> and the host part of a socket address, which the
  metrics use as a label. An address is its bytes, 16 of them as \<open>ParseIP\<close> returns it.
\<close>

section \<open>Parsing\<close>

definition dec_value :: "char \<Rightarrow> nat option" where
  "dec_value c = (let n = of_char c in if 48 \<le> n \<and> n \<le> 57 then Some (n - 48) else None)"

definition hex_value :: "char \<Rightarrow> nat option" where
  "hex_value c = (let n = of_char c in
     if 48 \<le> n \<and> n \<le> 57 then Some (n - 48)
     else if 97 \<le> n \<and> n \<le> 102 then Some (n - 87)
     else if 65 \<le> n \<and> n \<le> 70 then Some (n - 55) else None)"

fun number :: "(char \<Rightarrow> nat option) \<Rightarrow> nat \<Rightarrow> nat \<Rightarrow> string \<Rightarrow> nat option" where
  "number val base acc [] = Some acc"
| "number val base acc (c # s) =
     (case val c of None \<Rightarrow> None | Some d \<Rightarrow> number val base (acc * base + d) s)"

text \<open>A decimal field: digits only, no leading zero, at most 255.\<close>

definition octet :: "string \<Rightarrow> byte option" where
  "octet s = (if s = [] \<or> 3 < length s \<or> (1 < length s \<and> hd s = CHR ''0'') then None
     else case number dec_value 10 0 s of None \<Rightarrow> None
       | Some n \<Rightarrow> if 255 < n then None else Some (of_nat n))"

definition parse_v4 :: "string \<Rightarrow> byte list option" where
  "parse_v4 s = (let fs = map octet (Split s CHR ''.'') in
     if length fs = 4 \<and> None \<notin> set fs then Some (map the fs) else None)"

type_synonym v6_state = "byte list \<times> nat option \<times> string"

text \<open>
  One field after the other, at most eight: the bytes so far, the place of the ellipsis
  and the rest of the text. A dot after the digits starts an embedded IPv4 address.
\<close>

fun parse_v6_fields :: "nat \<Rightarrow> v6_state \<Rightarrow> v6_state option" where
  "parse_v6_fields 0 st = Some st"
| "parse_v6_fields (Suc n) (bs, ell, s) =
     (let ds = takeWhile (\<lambda>c. hex_value c \<noteq> None) s; rest = drop (length ds) s in
      if ds = [] \<or> 4 < length ds then None
      else if rest \<noteq> [] \<and> hd rest = CHR ''.'' then
        (if (ell = None \<and> length bs \<noteq> 12) \<or> 16 < length bs + 4 then None
         else case parse_v4 s of None \<Rightarrow> None | Some v4 \<Rightarrow> Some (bs @ v4, ell, []))
      else
        (case number hex_value 16 0 ds of None \<Rightarrow> None
         | Some v \<Rightarrow>
           let bs = bs @ [of_nat (v div 256), of_nat (v mod 256)] in
           if rest = [] then Some (bs, ell, [])
           else if hd rest \<noteq> CHR '':'' \<or> length rest = 1 then None
           else if hd (tl rest) = CHR '':'' then
             (if ell \<noteq> None then None
              else if tl (tl rest) = [] then Some (bs, Some (length bs), [])
              else parse_v6_fields n (bs, Some (length bs), tl (tl rest)))
           else parse_v6_fields n (bs, ell, tl rest)))"

definition parse_v6 :: "string \<Rightarrow> byte list option" where
  "parse_v6 s =
     (let (ell, s) = (if prefix ''::'' s then (Some 0, drop 2 s) else (None, s)) in
      if ell = Some 0 \<and> s = [] then Some (replicate 16 0)
      else case parse_v6_fields 8 ([], ell, s) of
        None \<Rightarrow> None
      | Some (bs, ell, rest) \<Rightarrow>
          if rest \<noteq> [] then None
          else if length bs < 16 then
            (case ell of None \<Rightarrow> None
             | Some e \<Rightarrow> Some (take e bs @ replicate (16 - length bs) 0 @ drop e bs))
          else if ell \<noteq> None then None else Some bs)"

text \<open>The first dot or colon decides which form it is; IPv4 is returned in its 16-byte form.\<close>

definition v4_prefix :: "byte list" where
  "v4_prefix = replicate 10 0 @ [255, 255]"

definition ParseIP :: "string \<Rightarrow> byte list option" where
  "ParseIP s = (case dropWhile (\<lambda>c. c \<noteq> CHR ''.'' \<and> c \<noteq> CHR '':'') s of
     [] \<Rightarrow> None
   | c # _ \<Rightarrow> if c = CHR ''.'' then map_option ((@) v4_prefix) (parse_v4 s) else parse_v6 s)"

section \<open>Printing\<close>

definition v4_String :: "byte list \<Rightarrow> string" where
  "v4_String bs = concat (map (\<lambda>b. Itoa (unat b) @ ''.'') (butlast bs)) @ Itoa (unat (last bs))"

fun hextets :: "byte list \<Rightarrow> nat list" where
  "hextets (a # b # bs) = (unat a * 256 + unat b) # hextets bs"
| "hextets _ = []"

fun Itox :: "nat \<Rightarrow> string" where
  "Itox n = (if n < 16 then [digit n] else Itox (n div 16) @ [digit (n mod 16)])"

declare Itox.simps [simp del]

text \<open>The first longest run of at least two zero groups, as its start and length.\<close>

definition zero_run :: "nat list \<Rightarrow> nat \<Rightarrow> nat" where
  "zero_run hs i = length (takeWhile ((=) 0) (drop i hs))"

definition best_run :: "nat list \<Rightarrow> (nat \<times> nat) option" where
  "best_run hs = (let m = foldr max (map (zero_run hs) [0 ..< length hs]) 0 in
     if m < 2 then None
     else map_option (\<lambda>i. (i, m)) (find (\<lambda>i. zero_run hs i = m) [0 ..< length hs]))"

fun join_colon :: "nat list \<Rightarrow> string" where
  "join_colon [] = []"
| "join_colon [h] = Itox h"
| "join_colon (h # hs) = Itox h @ '':'' @ join_colon hs"

definition IP_String :: "byte list \<Rightarrow> string" where
  "IP_String bs =
     (if length bs = 4 then v4_String bs
      else if length bs = 16 \<and> take 12 bs = v4_prefix then v4_String (drop 12 bs)
      else if length bs = 16 then
        (let hs = hextets bs in
         case best_run hs of
           None \<Rightarrow> join_colon hs
         | Some (i, m) \<Rightarrow> join_colon (take i hs) @ ''::'' @ join_colon (drop (i + m) hs))
      else if bs = [] then ''<nil>'' else ''?'' @ hex_string bs)"

section \<open>Socket addresses\<close>

datatype net_addr = TCPAddr "byte list option" nat | UDPAddr "byte list option" nat

fun addr_ip :: "net_addr \<Rightarrow> byte list option" where
  "addr_ip (TCPAddr i _) = i"
| "addr_ip (UDPAddr i _) = i"

text \<open>The host of \<open>net.SplitHostPort(addr.String())\<close>: a missing address prints as nothing.\<close>

definition addr_host :: "net_addr \<Rightarrow> string" where
  "addr_host a = (case addr_ip a of None \<Rightarrow> [] | Some i \<Rightarrow> IP_String i)"

lemma ParseIP_null_routes:
  "ParseIP ''0.0.0.0'' = Some (v4_prefix @ [0, 0, 0, 0])"
  "ParseIP ''0:0:0:0:0:0:0:0'' = Some (replicate 16 0)"
  by code_simp+

end
