(* ===== verification/Metrics.thy ===== *)
theory Metrics
  imports Dns_Msg Net_IP
begin

text \<open>
  The metrics of src/internal/metric/metric.go. A Prometheus counter vector is a function
  from label values to counts, zero where no series exists; \<open>With(labels).Inc()\<close> adds one at
  its labels. The package-level variables of the Go file are the fields of one record.
  Registration with the Prometheus client library is not modelled.
\<close>

section \<open>State\<close>

record response_labels =
  lbl_q_type :: string
  lbl_remote_ip :: string
  lbl_q_name :: string
  lbl_rcode :: string
  lbl_blocked :: string

record upstream_labels =
  up_q_type :: string
  up_q_name :: string
  up_rcode :: string
  up_upstream :: string

record metrics =
  configHighCardinality :: bool
  configHistograms :: bool
  CustomRecordCount :: nat
  RequestCustomCounter :: nat
  responseCounter :: "response_labels \<Rightarrow> nat"
  cachedResponseCounter :: nat
  RequestUpstreamResolveCounter :: "upstream_labels \<Rightarrow> nat"
  RequestUpstreamDohRequest :: "string \<Rightarrow> nat"
  RequestUpstreamResolveDuration :: "(string \<times> duration) list"
  CustomDNSConfigReload :: nat
  DohResponseCount :: "string \<Rightarrow> nat"

definition init_metrics :: metrics where
  "init_metrics = \<lparr>configHighCardinality = False, configHistograms = False, CustomRecordCount = 0,
     RequestCustomCounter = 0, responseCounter = (\<lambda>_. 0), cachedResponseCounter = 0,
     RequestUpstreamResolveCounter = (\<lambda>_. 0), RequestUpstreamDohRequest = (\<lambda>_. 0),
     RequestUpstreamResolveDuration = [], CustomDNSConfigReload = 0, DohResponseCount = (\<lambda>_. 0)\<rparr>"

definition Inc :: "'l \<Rightarrow> ('l \<Rightarrow> nat) \<Rightarrow> ('l \<Rightarrow> nat)" where
  "Inc l f = f(l := Suc (f l))"

section \<open>Operations\<close>

text \<open>The synchronous part of \<open>Start\<close>; its goroutine is \<open>reset_tick\<close>, run after each sleep.\<close>

definition metric_Start :: "bool \<Rightarrow> bool \<Rightarrow> metrics \<Rightarrow> metrics" where
  "metric_Start highCardinality histogramsEnabled m =
     (let m = m\<lparr>configHighCardinality := highCardinality\<rparr>
      in if histogramsEnabled then m\<lparr>configHistograms := True\<rparr> else m)"

definition reset_allVecMetrics :: "metrics \<Rightarrow> metrics" where
  "reset_allVecMetrics m = m\<lparr>responseCounter := (\<lambda>_. 0), RequestUpstreamResolveCounter := (\<lambda>_. 0),
     RequestUpstreamDohRequest := (\<lambda>_. 0), DohResponseCount := (\<lambda>_. 0)\<rparr>"

definition reset_tick :: "int \<Rightarrow> gotime \<Rightarrow> gotime \<times> metrics \<Rightarrow> gotime \<times> metrics" where
  "reset_tick resetPeriodMinutes now = (\<lambda>(mark, m).
     if now - mark > Duration resetPeriodMinutes (60 * Second) then (now, reset_allVecMetrics m)
     else (mark, m))"

definition response_labels_for ::
  "bool \<Rightarrow> string \<Rightarrow> dns_question \<Rightarrow> int \<Rightarrow> bool \<Rightarrow> response_labels" where
  "response_labels_for high remoteHost question rc blocked =
     \<lparr>lbl_q_type = Type_String (q_Qtype question),
      lbl_remote_ip = (if high then remoteHost else []),
      lbl_q_name = (if high then q_Name question else []),
      lbl_rcode = RcodeToString rc,
      lbl_blocked = FormatBool blocked\<rparr>"

text \<open>Both reports index the question section, which panics when it is empty.\<close>

definition ReportDNSResponse ::
  "net_addr \<Rightarrow> 'r msg \<Rightarrow> bool \<Rightarrow> metrics \<Rightarrow> go_panic + metrics" where
  "ReportDNSResponse remoteAddr message blocked m =
     (case Question message of
        [] \<Rightarrow> Inl IndexOutOfRange
      | question # _ \<Rightarrow> Inr (m\<lparr>responseCounter := Inc
          (response_labels_for (configHighCardinality m) (addr_host remoteAddr) question
             (Rcode message) blocked) (responseCounter m)\<rparr>))"

definition ReportDNSRespond ::
  "ip \<Rightarrow> 'r msg \<Rightarrow> bool \<Rightarrow> bool \<Rightarrow> metrics \<Rightarrow> go_panic + metrics" where
  "ReportDNSRespond remote message blocked cached m =
     (case Question message of
        [] \<Rightarrow> Inl IndexOutOfRange
      | question # _ \<Rightarrow>
          let m = m\<lparr>responseCounter := Inc
            (response_labels_for (configHighCardinality m) (IP_String remote) question
               (Rcode message) blocked) (responseCounter m)\<rparr>
          in Inr (if cached
                  then m\<lparr>cachedResponseCounter := Suc (cachedResponseCounter m)\<rparr> else m))"

definition ReportUpstreamResolve :: "string \<Rightarrow> duration \<Rightarrow> metrics \<Rightarrow> metrics" where
  "ReportUpstreamResolve upstreamType d m =
     (if \<not> configHistograms m then m
      else m\<lparr>RequestUpstreamResolveDuration :=
               RequestUpstreamResolveDuration m @ [(upstreamType, d)]\<rparr>)"

section \<open>Labels that identify clients and names\<close>

text \<open>
  With high cardinality off, no series of the response counter names a client or a domain.
\<close>

definition low_cardinality :: "metrics \<Rightarrow> bool" where
  "low_cardinality m \<longleftrightarrow> \<not> configHighCardinality m \<and>
     (\<forall>l. lbl_q_name l \<noteq> [] \<or> lbl_remote_ip l \<noteq> [] \<longrightarrow> responseCounter m l = 0)"

lemma low_cardinality_Inc:
  "low_cardinality m \<Longrightarrow> low_cardinality (m\<lparr>responseCounter :=
     Inc (response_labels_for (configHighCardinality m) h q rc b) (responseCounter m)\<rparr>)"
  by (auto simp: low_cardinality_def Inc_def response_labels_for_def)

lemma low_cardinality_ReportDNSResponse:
  "low_cardinality m \<Longrightarrow> ReportDNSResponse a msg b m = Inr m' \<Longrightarrow> low_cardinality m'"
  by (auto simp: ReportDNSResponse_def low_cardinality_Inc split: list.splits)

lemma low_cardinality_ReportDNSRespond:
  assumes "low_cardinality m" and "ReportDNSRespond a msg b c m = Inr m'"
  shows "low_cardinality m'"
proof -
  have up: "low_cardinality (n\<lparr>cachedResponseCounter := k\<rparr>) = low_cardinality n" for n k
    by (simp add: low_cardinality_def)
  from assms(2) show ?thesis
    by (auto simp: ReportDNSRespond_def Let_def up low_cardinality_Inc [OF assms(1)]
        split: list.splits if_splits)
qed

lemma low_cardinality_ReportUpstreamResolve:
  "low_cardinality m \<Longrightarrow> low_cardinality (ReportUpstreamResolve t d m)"
  by (simp add: low_cardinality_def ReportUpstreamResolve_def)

lemma ReportDNSRespond_ok: "Question msg \<noteq> [] \<Longrightarrow> \<exists>m'. ReportDNSRespond a msg b c m = Inr m'"
  by (cases "Question msg") (auto simp: ReportDNSRespond_def Let_def)

lemma ReportDNSResponse_ok: "Question msg \<noteq> [] \<Longrightarrow> \<exists>m'. ReportDNSResponse a msg b m = Inr m'"
  by (cases "Question msg") (auto simp: ReportDNSResponse_def)

end
