(* ===== verification/Custom_Records.thy ===== *)
theory Custom_Records
  imports Dns_Mux Metrics
begin

text \<open>
  Custom DNS records (src/records.go): the texts of the configuration are parsed, grouped
  by owner name and registered in a \<open>dns.ServeMux\<close>; \<open>Resolve\<close> asks that mux in memory
  through a writer that only records the reply.

  \<open>dns.NewRR\<close>, the zone-file parser of the DNS library, is the parameter \<open>NewRR\<close>; as its
  documentation says, it returns an error, nothing at all for a text without a record, or a
  record. Go ranges over a map in an unspecified order: the parameter \<open>ord\<close> is that order.
  The locale \<open>custom_dns\<close> is the contract of \<open>Resolve\<close> towards the event loop.
\<close>

section \<open>Records from text\<close>

record CustomDNSRecords =
  rec_name :: string
  rec_answer :: "rref list"

datatype newrr = RRError | RRNil | RROk rr

type_synonym record_groups = "(string \<times> rref list) list"

definition group_of :: "record_groups \<Rightarrow> string \<Rightarrow> rref list" where
  "group_of m name = (case map_of m name of None \<Rightarrow> [] | Some rs \<Rightarrow> rs)"

fun records_loop :: "(string \<Rightarrow> newrr) \<Rightarrow> string list \<Rightarrow> record_groups \<times> rr_heap
    \<Rightarrow> go_panic + record_groups \<times> rr_heap" where
  "records_loop NewRR [] (m, h) = Inr (m, h)"
| "records_loop NewRR (recordText # ts) (m, h) =
     (case NewRR recordText of
        RRError \<Rightarrow> records_loop NewRR ts (m, h)
      | RRNil \<Rightarrow> Inl NilDereference
      | RROk answer \<Rightarrow>
          let name = Hdr_Name (Hdr answer) in
          if length name > 0
          then records_loop NewRR ts
                 (AList.update name (group_of m name @ [length h]) m, h @ [answer])
          else records_loop NewRR ts (m, h))"

definition NewCustomDNSRecords ::
  "record_groups \<Rightarrow> metrics \<Rightarrow> CustomDNSRecords list \<times> metrics" where
  "NewCustomDNSRecords from met =
     (map (\<lambda>(name, rrs). \<lparr>rec_name = name, rec_answer = rrs\<rparr>) from,
      met\<lparr>CustomRecordCount := sum_list (map (length \<circ> snd) from)\<rparr>)"

definition NewCustomDNSRecordsFromText ::
  "(string \<Rightarrow> newrr) \<Rightarrow> (record_groups \<Rightarrow> record_groups) \<Rightarrow> string list \<Rightarrow> rr_heap \<Rightarrow> metrics
    \<Rightarrow> go_panic + CustomDNSRecords list \<times> rr_heap \<times> metrics" where
  "NewCustomDNSRecordsFromText NewRR ord recordsText h met =
     go_bind (records_loop NewRR recordsText ([], h)) (\<lambda>(customRecordsMap, h).
       let (records, met) = NewCustomDNSRecords (ord customRecordsMap) met
       in Inr (records, h, met))"

section \<open>The in-memory server\<close>

type_synonym CustomRecordsResolver = "string \<rightharpoonup> CustomDNSRecords"

fun register_records ::
  "CustomDNSRecords list \<Rightarrow> CustomRecordsResolver \<Rightarrow> go_panic + CustomRecordsResolver" where
  "register_records [] mux = Inr mux"
| "register_records (r # rs) mux =
     go_bind (ServeMux_Handle (rec_name r) r mux) (register_records rs)"

definition NewCustomRecordsResolver :: "CustomDNSRecords list \<Rightarrow> go_panic + CustomRecordsResolver" where
  "NewCustomRecordsResolver records = register_records records Map.empty"

record roResponseWriter =
  ro_local :: net_addr
  ro_remote :: net_addr
  ro_result :: "rref msg option"

definition roResponseWriter_WriteMsg :: "rref msg \<Rightarrow> roResponseWriter \<Rightarrow> roResponseWriter" where
  "roResponseWriter_WriteMsg m w = w\<lparr>ro_result := Some m\<rparr>"

definition asHandler ::
  "CustomDNSRecords \<Rightarrow> roResponseWriter \<Rightarrow> rref msg \<Rightarrow> metrics
    \<Rightarrow> go_panic + roResponseWriter \<times> metrics" where
  "asHandler records writer req met =
     (let m = SetReply req new_Msg;
          m = m\<lparr>Answer := Answer m @ rec_answer records\<rparr>;
          writer = roResponseWriter_WriteMsg m writer;
          met = met\<lparr>RequestCustomCounter := Suc (RequestCustomCounter met)\<rparr>
      in go_bind (ReportDNSResponse (ro_remote writer) m False met) (\<lambda>met. Inr (writer, met)))"

definition handleRefused :: "roResponseWriter \<Rightarrow> rref msg \<Rightarrow> roResponseWriter" where
  "handleRefused writer r = roResponseWriter_WriteMsg (SetRcode r RcodeRefused new_Msg) writer"

definition CustomRecordsResolver_Resolve ::
  "CustomRecordsResolver \<Rightarrow> rref msg \<Rightarrow> net_addr \<Rightarrow> net_addr \<Rightarrow> metrics
    \<Rightarrow> go_panic + rref msg option \<times> metrics" where
  "CustomRecordsResolver_Resolve mux req local remote met =
     (let writer = \<lparr>ro_local = local, ro_remote = remote, ro_result = None\<rparr> in
      go_bind
        (case ServeMux_handler mux req of
           Some records \<Rightarrow> asHandler records writer req met
         | None \<Rightarrow> Inr (handleRefused writer req, met))
        (\<lambda>(writer, met).
          case ro_result writer of
            None \<Rightarrow> Inl NilDereference
          | Some result \<Rightarrow>
              if Rcode result = RcodeRefused then Inr (None, met) else Inr (Some result, met)))"

section \<open>The contract of Resolve\<close>

locale custom_dns =
  fixes resolve :: "'c \<Rightarrow> rref msg \<Rightarrow> net_addr \<Rightarrow> net_addr \<Rightarrow> metrics
      \<Rightarrow> go_panic + rref msg option \<times> metrics"
    and refs :: "'c \<Rightarrow> rref set"
  assumes resolve_total: "\<exists>r m'. resolve c req l a m = Inr (r, m')"
    and resolve_reply: "resolve c req l a m = Inr (Some r, m') \<Longrightarrow>
      MsgId r = MsgId req \<and> Response r \<and> Rcode r = RcodeSuccess \<and>
      Question req \<noteq> [] \<and> Question r = [hd (Question req)] \<and> set (Answer r) \<subseteq> refs c"
    and resolve_none: "resolve c req l a m = Inr (None, m') \<Longrightarrow> m' = m"
    and resolve_low: "resolve c req l a m = Inr (res, m') \<Longrightarrow> low_cardinality m \<Longrightarrow> low_cardinality m'"
begin

text \<open>Without a question there is no custom reply, and the metrics stay as they are.\<close>

lemma resolve_no_question: "Question req = [] \<Longrightarrow> resolve c req l a m = Inr (None, m)"
  using resolve_total [of c req l a m] resolve_reply [of c req l a m] resolve_none [of c req l a m]
  by (metis option.exhaust)

end

definition custom_refs :: "CustomRecordsResolver \<Rightarrow> rref set" where
  "custom_refs mux = (\<Union>r\<in>ran mux. set (rec_answer r))"

lemma Resolve_Some:
  assumes "ServeMux_handler mux req = Some records"
  shows "\<exists>met'. CustomRecordsResolver_Resolve mux req local remote met =
      Inr (Some ((SetReply req new_Msg)\<lparr>Answer := rec_answer records\<rparr>), met') \<and>
    ReportDNSResponse remote ((SetReply req new_Msg :: rref msg)\<lparr>Answer := rec_answer records\<rparr>) False
      (met\<lparr>RequestCustomCounter := Suc (RequestCustomCounter met)\<rparr>) = Inr met'"
proof -
  let ?m = "(SetReply req new_Msg :: rref msg)\<lparr>Answer := rec_answer records\<rparr>"
  let ?met = "met\<lparr>RequestCustomCounter := Suc (RequestCustomCounter met)\<rparr>"
  have "Question req \<noteq> []"
    using assms by (auto simp: ServeMux_handler_def split: list.splits)
  then have "Question ?m \<noteq> []"
    by (simp add: SetReply_Question split: list.splits)
  then obtain met' where "ReportDNSResponse remote ?m False ?met = Inr met'"
    using ReportDNSResponse_ok by blast
  then show ?thesis
    using assms by (simp add: CustomRecordsResolver_Resolve_def asHandler_def Let_def
        roResponseWriter_WriteMsg_def)
qed

lemma Resolve_None:
  "ServeMux_handler mux req = None \<Longrightarrow>
     CustomRecordsResolver_Resolve mux req local remote met = Inr (None, met)"
  by (simp add: CustomRecordsResolver_Resolve_def handleRefused_def roResponseWriter_WriteMsg_def)

lemma handler_ran: "ServeMux_handler mux req = Some r \<Longrightarrow> r \<in> ran mux \<and> Question req \<noteq> []"
  by (auto simp: ServeMux_handler_def ran_def split: list.splits dest!: ServeMux_match_suffix)

interpretation cr: custom_dns CustomRecordsResolver_Resolve custom_refs
proof unfold_locales
  fix c req l a m and r :: "rref msg" and m'
  show "\<exists>r m'. CustomRecordsResolver_Resolve c req l a m = Inr (r, m')"
    using Resolve_None [of c req l a m] Resolve_Some [of c req _ l a m]
    by (cases "ServeMux_handler c req") blast+
  show "MsgId r = MsgId req \<and> Response r \<and> Rcode r = RcodeSuccess \<and>
      Question req \<noteq> [] \<and> Question r = [hd (Question req)] \<and> set (Answer r) \<subseteq> custom_refs c"
    if "CustomRecordsResolver_Resolve c req l a m = Inr (Some r, m')"
  proof (cases "ServeMux_handler c req")
    case None
    with that show ?thesis by (simp add: Resolve_None)
  next
    case (Some records)
    with that Resolve_Some [OF Some, of l a m] handler_ran [OF Some] show ?thesis
      by (auto simp: SetReply_Question custom_refs_def split: list.splits)
  qed
  show "m' = m" if "CustomRecordsResolver_Resolve c req l a m = Inr (None, m')"
    using that Resolve_Some [of c req _ l a m]
    by (cases "ServeMux_handler c req") (auto simp: Resolve_None)
next
  fix c req l a m and r :: "rref msg option" and m'
  assume res: "CustomRecordsResolver_Resolve c req l a m = Inr (r, m')" and low: "low_cardinality m"
  show "low_cardinality m'"
  proof (cases "ServeMux_handler c req")
    case None
    with res low show ?thesis by (simp add: Resolve_None)
  next
    case (Some records)
    have "low_cardinality (m\<lparr>RequestCustomCounter := Suc (RequestCustomCounter m)\<rparr>)"
      using low by (simp add: low_cardinality_def)
    with Resolve_Some [OF Some, of l a m] res show ?thesis
      by (auto intro: low_cardinality_ReportDNSResponse)
  qed
qed

section \<open>Grouping and registration\<close>

text \<open>The records of the configuration with a given owner name, in the order of the texts.\<close>

definition parsed_records :: "(string \<Rightarrow> newrr) \<Rightarrow> string list \<Rightarrow> string \<Rightarrow> rr list" where
  "parsed_records NewRR texts n = List.map_filter (\<lambda>t. case NewRR t of
     RROk r \<Rightarrow> if Hdr_Name (Hdr r) = n then Some r else None | _ \<Rightarrow> None) texts"

lemma group_of_update: "group_of (AList.update k v m) n = (if n = k then v else group_of m n)"
  by (simp add: group_of_def update_conv')

definition groups_ok :: "record_groups \<Rightarrow> rr_heap \<Rightarrow> bool" where
  "groups_ok m h \<longleftrightarrow> distinct (map fst m) \<and> (\<forall>n. refs_ok (group_of m n) h) \<and>
     [] \<notin> dom (map_of m)"

lemma groups_ok_update:
  assumes "groups_ok m h" and "n \<noteq> []"
  shows "groups_ok (AList.update n (group_of m n @ [length h]) m) (h @ [r])"
  using assms
  by (auto simp: groups_ok_def group_of_update distinct_update update_conv' refs_ok_append)
    (simp add: refs_ok_def)

lemma map_nth_append: "refs_ok rs h \<Longrightarrow> map ((!) (h @ h')) rs = map ((!) h) rs"
  by (auto simp: refs_ok_def list_all_iff nth_append)

lemma records_loop_groups:
  "groups_ok m h \<Longrightarrow> records_loop NewRR texts (m, h) = Inr (m', h') \<Longrightarrow> groups_ok m' h' \<and>
     (n \<noteq> [] \<longrightarrow> map ((!) h') (group_of m' n) = map ((!) h) (group_of m n) @ parsed_records NewRR texts n)"
proof (induction texts arbitrary: m h)
  case Nil
  then show ?case by (simp add: parsed_records_def)
next
  case (Cons t ts)
  show ?case
  proof (cases "NewRR t")
    case (RROk r)
    let ?n = "Hdr_Name (Hdr r)"
    show ?thesis
    proof (cases "?n = []")
      case True
      with Cons RROk show ?thesis by (auto simp: parsed_records_def List.map_filter_simps)
    next
      case False
      let ?m = "AList.update ?n (group_of m ?n @ [length h]) m"
      have ok: "groups_ok ?m (h @ [r])"
        by (rule groups_ok_update [OF Cons.prems(1) False])
      have run: "records_loop NewRR ts (?m, h @ [r]) = Inr (m', h')"
        using Cons.prems(2) RROk False by (simp add: Let_def)
      have "map ((!) (h @ [r])) (group_of ?m n) @ parsed_records NewRR ts n =
          map ((!) h) (group_of m n) @ parsed_records NewRR (t # ts) n"
        using Cons.prems(1) RROk map_nth_append [of "group_of m n" h "[r]"]
        by (auto simp: group_of_update parsed_records_def List.map_filter_simps groups_ok_def)
      with Cons.IH [OF ok run] show ?thesis by simp
    qed
  qed (use Cons in \<open>auto simp: parsed_records_def List.map_filter_simps\<close>)
qed

lemma register_records_lookup:
  "list_all (\<lambda>r. rec_name r \<noteq> []) rs \<Longrightarrow> distinct (map (CanonicalName \<circ> rec_name) rs) \<Longrightarrow>
   \<exists>mux'. register_records rs mux = Inr mux' \<and>
     (\<forall>r\<in>set rs. mux' (CanonicalName (rec_name r)) = Some r) \<and>
     (\<forall>p. p \<notin> (CanonicalName \<circ> rec_name) ` set rs \<longrightarrow> mux' p = mux p)"
proof (induction rs arbitrary: mux)
  case (Cons r rs)
  let ?mux = "mux(CanonicalName (rec_name r) \<mapsto> r)"
  obtain mux' where m: "register_records rs ?mux = Inr mux'"
    "\<forall>r\<in>set rs. mux' (CanonicalName (rec_name r)) = Some r"
    "\<forall>p. p \<notin> (CanonicalName \<circ> rec_name) ` set rs \<longrightarrow> mux' p = ?mux p"
    using Cons.IH [of ?mux] Cons.prems by (simp only: list.pred_inject(2) distinct.simps list.map) blast
  moreover have "mux' (CanonicalName (rec_name r)) = Some r"
    using m(3) Cons.prems(2) by auto
  ultimately show ?case
    using Cons.prems(1) by (intro exI [of _ mux']) (simp add: ServeMux_Handle_def)
qed simp

lemma records_loop_names:
  "records_loop NewRR texts (m, h) = Inr (m', h') \<Longrightarrow> k \<in> fst ` set m' \<Longrightarrow>
     k \<in> fst ` set m \<or> (\<exists>t\<in>set texts. \<exists>r. NewRR t = RROk r \<and> Hdr_Name (Hdr r) = k)"
proof (induction texts arbitrary: m h)
  case (Cons t ts)
  show ?case
  proof (cases "NewRR t")
    case (RROk r)
    let ?n = "Hdr_Name (Hdr r)"
    show ?thesis
    proof (cases "?n = []")
      case True
      with Cons.prems(1) RROk have "records_loop NewRR ts (m, h) = Inr (m', h')" by simp
      from Cons.IH [OF this Cons.prems(2)] show ?thesis by auto
    next
      case False
      with Cons.prems(1) RROk have "records_loop NewRR ts
          (AList.update ?n (group_of m ?n @ [length h]) m, h @ [r]) = Inr (m', h')"
        by (simp add: Let_def)
      from Cons.IH [OF this Cons.prems(2)] RROk show ?thesis
        by (auto simp only: dom_update Un_iff singleton_iff list.set insert_iff Bex_def)
    qed
  qed (use Cons in simp_all)
qed simp

definition canonical_names :: "(string \<Rightarrow> newrr) \<Rightarrow> string list \<Rightarrow> bool" where
  "canonical_names NewRR texts = list_all (\<lambda>t. case NewRR t of
     RROk r \<Rightarrow> CanonicalName (Hdr_Name (Hdr r)) = Hdr_Name (Hdr r) | _ \<Rightarrow> True) texts"

text \<open>
  The names of the groups are owner names of the configuration, so they are canonical when
  those are, and the mux maps each to its records.
\<close>

lemma group_names:
  assumes g: "records_loop NewRR texts ([], h) = Inr (g, h')"
    and canonical: "canonical_names NewRR texts"
    and k: "k \<in> fst ` set g"
  shows "CanonicalName k = k \<and> k \<noteq> []"
proof -
  have "groups_ok [] h" by (simp add: groups_ok_def group_of_def)
  from records_loop_groups [OF this g] k have "k \<noteq> []"
    by (metis dom_map_of_conv_image_fst groups_ok_def)
  then show ?thesis
    using records_loop_names [OF g k] canonical by (auto simp: canonical_names_def list_all_iff)
qed

lemma custom_mux_entry:
  assumes parsed: "NewCustomDNSRecordsFromText NewRR ord texts h met = Inr (records, h', met')"
    and ord: "\<And>m. mset (ord m) = mset m"
    and canonical: "canonical_names NewRR texts"
    and n: "n \<noteq> []" "parsed_records NewRR texts n \<noteq> []"
  shows "\<exists>mux rs. NewCustomRecordsResolver records = Inr mux \<and>
    mux n = Some \<lparr>rec_name = n, rec_answer = rs\<rparr> \<and> map ((!) h') rs = parsed_records NewRR texts n"
proof -
  obtain g where g: "records_loop NewRR texts ([], h) = Inr (g, h')"
    and recs: "records = map (\<lambda>(name, rrs). \<lparr>rec_name = name, rec_answer = rrs\<rparr>) (ord g)"
    using parsed by (auto simp: NewCustomDNSRecordsFromText_def go_bind_Inr_iff
        NewCustomDNSRecords_def)
  have "groups_ok [] h" by (simp add: groups_ok_def group_of_def)
  note inv = records_loop_groups [OF this g]
  note names = group_names [OF g canonical]
  have set: "set (ord g) = set g" using ord [of g] by (metis set_mset_mset)
  have "distinct (map fst (ord g))"
    using inv [of "[]"] ord [of g] by (metis groups_ok_def mset_eq_imp_distinct_iff mset_map)
  moreover have "map (CanonicalName \<circ> rec_name) records = map fst (ord g)"
    unfolding recs using names set by (force simp: comp_def)
  ultimately have "distinct (map (CanonicalName \<circ> rec_name) records)" by simp
  moreover have "list_all (\<lambda>r. rec_name r \<noteq> []) records"
    using names set by (force simp: recs list_all_iff)
  ultimately obtain mux where mux: "NewCustomRecordsResolver records = Inr mux"
    and reg: "\<forall>r\<in>set records. mux (CanonicalName (rec_name r)) = Some r"
    using register_records_lookup [of records Map.empty] by (auto simp: NewCustomRecordsResolver_def)
  have ans: "map ((!) h') (group_of g n) = parsed_records NewRR texts n"
    using inv [of n] n(1) by (simp add: group_of_def)
  with n(2) obtain rs where rs: "map_of g n = Some rs" "group_of g n = rs"
    by (cases "map_of g n") (auto simp: group_of_def)
  then have mem: "(n, rs) \<in> set g" by (simp add: map_of_SomeD)
  then have "\<lparr>rec_name = n, rec_answer = rs\<rparr> \<in> set records" using set by (force simp: recs)
  with reg have "mux (CanonicalName n) = Some \<lparr>rec_name = n, rec_answer = rs\<rparr>" by fastforce
  moreover have "CanonicalName n = n" using names [of n] mem by force
  ultimately show ?thesis using mux ans rs by auto
qed

section \<open>Properties\<close>


definition ex_NewRR :: "string \<Rightarrow> newrr" where
  "ex_NewRR t = (if t = [] then RRNil
     else if t = ''bad'' then RRError
     else RROk \<lparr>Hdr = \<lparr>Hdr_Name = ''a.b.'', Rrtype = TypeA, Class = ClassINET, Ttl = 3600, Rdlength = 0\<rparr>,
       Rdata = RdA (Some [10, 0, 0, of_nat (length t)])\<rparr>)"

definition ex_query :: "rref msg" where
  "ex_query = SetQuestion 7 ''A.b.'' TypeA new_Msg"

lemma ex_canonical: "CanonicalName ''A.b.'' = ''a.b.''" "CanonicalName ''a.b.'' = ''a.b.''"
  by code_simp+


text \<open>
  A configured text that holds no record, for which the parser is documented to return
  neither a record nor an error, makes the loading of the custom records dereference a nil
  record and panic.
\<close>

theorem custom_record_without_record_panics:
  assumes "t \<in> set texts" and "NewRR t = RRNil"
  shows "NewCustomDNSRecordsFromText NewRR ord texts h met = Inl NilDereference"
proof -
  have "records_loop NewRR texts (m, h) = Inl NilDereference" for m
    using assms
  proof (induction texts arbitrary: m h)
    case (Cons u us)
    then show ?case
      by (cases "NewRR u") (auto simp: Let_def)
  qed simp
  then show ?thesis by (simp add: NewCustomDNSRecordsFromText_def)
qed

theorem custom_record_without_record_panics_witness:
  "NewCustomDNSRecordsFromText ex_NewRR id [''x'', []] [] init_metrics = Inl NilDereference"
  by (rule custom_record_without_record_panics [of "[]"]) (simp_all add: ex_NewRR_def)

end
