(* ===== verification/Resolver.thy ===== *)
theory Resolver
  imports Metrics
begin

text \<open>
  The upstream resolver (src/resolver.go). \<open>DoHLookup\<close> posts the packed query to a
  DNS-over-HTTPS server. \<open>Lookup\<close> tries that first when it is configured, then starts one
  goroutine per nameserver, a new one at every tick, until an answer arrives on a channel of
  capacity one.

  The wire codec (\<open>Pack\<close>, \<open>Unpack\<close> of the DNS library) and the network are parameters. The
  goroutines, the channel and the ticker are a transition system: \<open>lk_step\<close> makes one event
  happen, a schedule is a list of events, and what happens after the schedule's end is
  chosen by \<open>lk_default\<close>, so \<open>Lookup\<close> is a total function of the schedule that reaches
  every interleaving. \<open>lk_fuel\<close> events are enough for any run to return
  (\<open>lk_run_returns\<close>).
\<close>

section \<open>DNS over HTTPS\<close>

record ResolvError =
  re_qname :: string
  re_net :: string
  re_nameservers :: "string list"

text \<open>An HTTP response; reading its body may fail.\<close>

record http_response =
  StatusCode :: int
  ContentType :: string
  Body :: "byte list option"

record dns_codec =
  Pack :: "rr msg \<Rightarrow> byte list option"
  Unpack :: "byte list \<Rightarrow> rr msg option"

definition DoHLookup ::
  "dns_codec \<Rightarrow> (string \<Rightarrow> duration \<Rightarrow> byte list \<Rightarrow> http_response option) \<Rightarrow>
   string \<Rightarrow> int \<Rightarrow> rr msg \<Rightarrow> go_panic + (ResolvError + rr msg)" where
  "DoHLookup codec post url timeout req =
     (case Question req of
        [] \<Rightarrow> Inl IndexOutOfRange
      | q # _ \<Rightarrow>
          let err = Inl \<lparr>re_qname = q_Name q, re_net = ''HTTPS'', re_nameservers = [url]\<rparr> in
          Inr (case Pack codec req of
            None \<Rightarrow> err
          | Some data \<Rightarrow>
              (case post url (Duration timeout Second) data of
                 None \<Rightarrow> err
               | Some resp \<Rightarrow>
                   if StatusCode resp \<noteq> 200 then err
                   else if ContentType resp \<noteq> ''application/dns-message'' then err
                   else (case Body resp of
                     None \<Rightarrow> err
                   | Some respPacket \<Rightarrow>
                       (case Unpack codec respPacket of
                          None \<Rightarrow> err
                        | Some res \<Rightarrow> Inr res)))))"

section \<open>The race of the nameservers\<close>

datatype exchange_result = ExErr | ExOk "rr msg"

text \<open>What the goroutine \<open>L\<close> sends: nothing on a socket error or a SERVFAIL answer.\<close>

fun L_sends :: "exchange_result \<Rightarrow> rr msg option" where
  "L_sends ExErr = None"
| "L_sends (ExOk r) =
     (if Rcode r \<noteq> RcodeSuccess \<and> Rcode r = RcodeServerFailure then None else Some r)"

text \<open>
  \<open>LkAnswer r i early\<close>: the answer of nameserver \<open>i\<close>, \<open>early\<close> when it was received inside
  the loop.
\<close>

datatype lk_result = LkAnswer "rr msg" nat bool | LkFailed

datatype lk_phase = Looping | Waiting | Returned lk_result

record lk_state =
  started :: nat
  running :: "nat list"
  res_chan :: "(rr msg \<times> nat) option"
  phase :: lk_phase

datatype lk_event = Finish nat | Tick | Recv | Final

definition lk_init :: "nat \<Rightarrow> lk_state" where
  "lk_init n = (if n = 0 then \<lparr>started = 0, running = [], res_chan = None, phase = Waiting\<rparr>
     else \<lparr>started = 1, running = [0], res_chan = None, phase = Looping\<rparr>)"

text \<open>
  One event; \<open>None\<close> when it cannot happen. \<open>Finish i\<close>: goroutine \<open>i\<close> sends without blocking
  and is done. \<open>Recv\<close> and \<open>Tick\<close>: the two branches of the loop's \<open>select\<close>; a tick starts the
  next nameserver or leaves the loop. \<open>Final\<close>: all goroutines are done, the last \<open>select\<close>.
\<close>

fun lk_step :: "nat \<Rightarrow> (nat \<Rightarrow> exchange_result) \<Rightarrow> lk_event \<Rightarrow> lk_state \<Rightarrow> lk_state option" where
  "lk_step n ex (Finish i) s =
     (if i \<in> set (running s)
      then Some (s\<lparr>running := remove1 i (running s),
             res_chan := (case L_sends (ex i) of
                None \<Rightarrow> res_chan s
              | Some r \<Rightarrow> (case res_chan s of None \<Rightarrow> Some (r, i) | Some x \<Rightarrow> Some x))\<rparr>)
      else None)"
| "lk_step n ex Recv s =
     (case (phase s, res_chan s) of
        (Looping, Some (r, i)) \<Rightarrow> Some (s\<lparr>phase := Returned (LkAnswer r i True), res_chan := None\<rparr>)
      | _ \<Rightarrow> None)"
| "lk_step n ex Tick s =
     (if phase s = Looping then
        (if started s < n
         then Some (s\<lparr>started := Suc (started s), running := running s @ [started s]\<rparr>)
         else Some (s\<lparr>phase := Waiting\<rparr>))
      else None)"
| "lk_step n ex Final s =
     (if phase s = Waiting \<and> running s = [] then
        (case res_chan s of
           Some (r, i) \<Rightarrow> Some (s\<lparr>phase := Returned (LkAnswer r i False), res_chan := None\<rparr>)
         | None \<Rightarrow> Some (s\<lparr>phase := Returned LkFailed\<rparr>))
      else None)"

definition lk_default :: "lk_state \<Rightarrow> lk_event" where
  "lk_default s =
     (if phase s = Looping \<and> res_chan s \<noteq> None then Recv
      else case running s of i # _ \<Rightarrow> Finish i
        | [] \<Rightarrow> if phase s = Looping then Tick else Final)"

text \<open>
  Run a schedule, skipping events that cannot happen, then the default choices; each event
  that happens costs one unit of fuel.
\<close>

fun lk_run :: "nat \<Rightarrow> nat \<Rightarrow> (nat \<Rightarrow> exchange_result) \<Rightarrow> lk_event list \<Rightarrow> lk_state \<Rightarrow> lk_result option" where
  "lk_run 0 n ex evs s = (case phase s of Returned r \<Rightarrow> Some r | _ \<Rightarrow> None)"
| "lk_run (Suc fuel) n ex [] s =
     (case phase s of Returned r \<Rightarrow> Some r
      | _ \<Rightarrow> (case lk_step n ex (lk_default s) s of None \<Rightarrow> None | Some s' \<Rightarrow> lk_run fuel n ex [] s'))"
| "lk_run (Suc fuel) n ex (ev # evs) s =
     (case phase s of Returned r \<Rightarrow> Some r
      | _ \<Rightarrow> (case lk_step n ex ev s of
           None \<Rightarrow> lk_run (Suc fuel) n ex evs s
         | Some s' \<Rightarrow> lk_run fuel n ex evs s'))"

definition lk_fuel :: "nat \<Rightarrow> nat" where
  "lk_fuel n = 2 * n + 4"

definition ask_nameservers :: "nat \<Rightarrow> (nat \<Rightarrow> exchange_result) \<Rightarrow> lk_event list \<Rightarrow> lk_result" where
  "ask_nameservers n ex sched =
     (case lk_run (lk_fuel n) n ex sched (lk_init n) of Some r \<Rightarrow> r | None \<Rightarrow> LkFailed)"

section \<open>Lookup\<close>

text \<open>
  The network during one lookup: what the HTTP client returns, what the exchange with the
  \<open>i\<close>-th nameserver returns for a transport and a time limit, the schedule, and the time
  that has passed when each attempt is over.
\<close>

record upstream_env =
  env_post :: "string \<Rightarrow> duration \<Rightarrow> byte list \<Rightarrow> http_response option"
  env_exchange :: "nat \<Rightarrow> string \<Rightarrow> string \<Rightarrow> duration \<Rightarrow> rr msg \<Rightarrow> exchange_result"
  env_sched :: "lk_event list"
  env_doh_elapsed :: duration
  env_elapsed :: duration

definition count_upstream ::
  "dns_question \<Rightarrow> int \<Rightarrow> string \<Rightarrow> metrics \<Rightarrow> metrics" where
  "count_upstream question rc upstream met =
     met\<lparr>RequestUpstreamResolveCounter := Inc
       \<lparr>up_q_type = Type_String (q_Qtype question), up_q_name = q_Name question,
        up_rcode = RcodeToString rc, up_upstream = upstream\<rparr>
       (RequestUpstreamResolveCounter met)\<rparr>"

text \<open>The part after the DoH attempt; \<open>time.NewTicker\<close> panics unless its period is positive.\<close>

definition Lookup_nameservers ::
  "upstream_env \<Rightarrow> string \<Rightarrow> rr msg \<Rightarrow> dns_question \<Rightarrow> int \<Rightarrow> int \<Rightarrow> string list \<Rightarrow> metrics
    \<Rightarrow> go_panic + (ResolvError + rr msg) \<times> metrics" where
  "Lookup_nameservers env net req question timeout interval nameServers met =
     (let clientNet = (if net = ''http'' then ''tcp'' else net);
          exchange = (\<lambda>i. env_exchange env i (nameServers ! i) clientNet (Duration timeout Second) req)
      in
      if Duration interval Millisecond \<le> 0 then Inl (ExplicitPanic ''non-positive interval for NewTicker'')
      else
        (case ask_nameservers (length nameServers) exchange (env_sched env) of
           LkAnswer r i early \<Rightarrow>
             if early then Inr (Inr r, met)
             else
               let met = count_upstream question (Rcode r) (nameServers ! i) met;
                   met = ReportUpstreamResolve net (env_elapsed env) met
               in Inr (Inr r, met)
         | LkFailed \<Rightarrow>
             Inr (Inl \<lparr>re_qname = q_Name question, re_net = net, re_nameservers = nameServers\<rparr>, met)))"

definition Lookup ::
  "dns_codec \<Rightarrow> upstream_env \<Rightarrow> string \<Rightarrow> rr msg \<Rightarrow> int \<Rightarrow> int \<Rightarrow> string list \<Rightarrow> string \<Rightarrow> metrics
    \<Rightarrow> go_panic + (ResolvError + rr msg) \<times> metrics" where
  "Lookup codec env net req timeout interval nameServers DoH met =
     (case Question req of
        [] \<Rightarrow> Inl IndexOutOfRange
      | question # _ \<Rightarrow>
          if DoH \<noteq> [] then
            go_bind (DoHLookup codec (env_post env) DoH timeout req) (\<lambda>r.
              let met = ReportUpstreamResolve ''doh'' (env_doh_elapsed env) met in
              case r of
                Inr ans \<Rightarrow> Inr (Inr ans, count_upstream question (Rcode ans) DoH met)
              | Inl err \<Rightarrow>
                  Lookup_nameservers env net req question timeout interval nameServers met)
          else Lookup_nameservers env net req question timeout interval nameServers met)"

section \<open>Invariant of the race\<close>

definition lk_inv :: "nat \<Rightarrow> (nat \<Rightarrow> exchange_result) \<Rightarrow> lk_state \<Rightarrow> bool" where
  "lk_inv n ex s \<longleftrightarrow>
     started s \<le> n \<and> set (running s) \<subseteq> {..<started s} \<and> distinct (running s) \<and>
     (\<forall>r i. res_chan s = Some (r, i) \<longrightarrow> i < started s \<and> L_sends (ex i) = Some r) \<and>
     (case phase s of
        Returned (LkAnswer r i early) \<Rightarrow> i < n \<and> L_sends (ex i) = Some r
      | Returned LkFailed \<Rightarrow> \<forall>i<n. L_sends (ex i) = None
      | Looping \<Rightarrow> res_chan s = None \<longrightarrow> (\<forall>i < started s. i \<notin> set (running s) \<longrightarrow> L_sends (ex i) = None)
      | Waiting \<Rightarrow> started s = n \<and>
          (res_chan s = None \<longrightarrow> (\<forall>i < started s. i \<notin> set (running s) \<longrightarrow> L_sends (ex i) = None)))"

lemma lk_inv_init: "lk_inv n ex (lk_init n)"
  by (simp add: lk_inv_def lk_init_def)

lemma lk_inv_step:
  assumes inv: "lk_inv n ex s" and step: "lk_step n ex ev s = Some s'"
  shows "lk_inv n ex s'"
proof (cases ev)
  case (Finish i)
  have upd: "res_chan s' = (case L_sends (ex i) of None \<Rightarrow> res_chan s
      | Some r \<Rightarrow> (case res_chan s of None \<Rightarrow> Some (r, i) | Some x \<Rightarrow> Some x))"
    and same: "started s' = started s" "phase s' = phase s" "running s' = remove1 i (running s)"
    and i: "i \<in> set (running s)"
    using step Finish by (auto split: if_splits)
  have "set (running s') = set (running s) - {i}" and "distinct (running s')"
    using inv same by (auto simp: lk_inv_def)
  moreover have "i < started s" using inv i by (auto simp: lk_inv_def)
  ultimately show ?thesis
    using inv unfolding lk_inv_def upd same
    by (auto split: option.splits lk_phase.splits lk_result.splits)
next
  case Tick
  show ?thesis
  proof (cases "started s < n")
    case True
    with inv step Tick show ?thesis
      by (auto simp: lk_inv_def less_Suc_eq split: if_splits)
  next
    case False
    with inv step Tick show ?thesis
      by (auto simp: lk_inv_def split: if_splits)
  qed
next
  case Recv
  with inv step show ?thesis
    by (auto simp: lk_inv_def split: lk_phase.splits option.splits)
next
  case Final
  with inv step show ?thesis
    by (auto simp: lk_inv_def split: if_splits option.splits)
qed

section \<open>Every run returns\<close>

definition lk_measure :: "nat \<Rightarrow> lk_state \<Rightarrow> nat" where
  "lk_measure n s = 2 * (n - started s) + length (running s) +
     (case phase s of Looping \<Rightarrow> 2 | Waiting \<Rightarrow> 1 | Returned _ \<Rightarrow> 0)"

lemma lk_step_measure:
  assumes "lk_inv n ex s" and "lk_step n ex ev s = Some s'"
  shows "lk_measure n s' < lk_measure n s"
proof (cases ev)
  case (Finish i)
  with assms have i: "i \<in> set (running s)" and
    s': "started s' = started s" "phase s' = phase s" "running s' = remove1 i (running s)"
    by (auto split: if_splits)
  have "length (remove1 i (running s)) < length (running s)"
    using i length_pos_if_in_set [OF i] by (simp add: length_remove1)
  then show ?thesis by (simp add: lk_measure_def s')
next
  case Tick
  with assms show ?thesis by (auto simp: lk_measure_def split: if_splits)
next
  case Recv
  with assms show ?thesis by (auto simp: lk_measure_def split: lk_phase.splits option.splits)
next
  case Final
  with assms show ?thesis by (auto simp: lk_measure_def split: if_splits option.splits)
qed

lemma lk_default_enabled:
  "(\<And>r. phase s \<noteq> Returned r) \<Longrightarrow> \<exists>s'. lk_step n ex (lk_default s) s = Some s'"
  by (cases "phase s"; cases "running s"; cases "res_chan s") (auto simp: lk_default_def)

lemma lk_run_returns:
  "lk_inv n ex s \<Longrightarrow> lk_measure n s \<le> fuel \<Longrightarrow>
     \<exists>r s'. lk_run fuel n ex evs s = Some r \<and> lk_inv n ex s' \<and> phase s' = Returned r"
proof (induction fuel n ex evs s rule: lk_run.induct)
  case (1 n ex evs s)
  then show ?case by (cases "phase s") (auto simp: lk_measure_def)
next
  case (2 fuel n ex s)
  show ?case
  proof (cases "\<exists>r. phase s = Returned r")
    case True
    with "2.prems" show ?thesis by auto
  next
    case False
    then obtain s' where st: "lk_step n ex (lk_default s) s = Some s'"
      using lk_default_enabled [of s n ex] by auto
    have m: "lk_measure n s' \<le> fuel"
      using lk_step_measure [OF "2.prems"(1) st] "2.prems"(2) by simp
    from False "2.IH" [OF _ st lk_inv_step [OF "2.prems"(1) st] m] show ?thesis
      by (cases "phase s") (simp_all add: st)
  qed
next
  case (3 fuel n ex ev evs s)
  show ?case
  proof (cases "\<exists>r. phase s = Returned r")
    case True
    with "3.prems" show ?thesis by auto
  next
    case False
    show ?thesis
    proof (cases "lk_step n ex ev s")
      case None
      from False "3.IH"(1) [OF _ None "3.prems"] "3.IH"(3) [OF _ None "3.prems"] show ?thesis
        by (cases "phase s") (simp_all add: None)
    next
      case (Some s')
      have m: "lk_measure n s' \<le> fuel"
        using lk_step_measure [OF "3.prems"(1) Some] "3.prems"(2) by simp
      note inv' = lk_inv_step [OF "3.prems"(1) Some]
      from False "3.IH"(2) [OF _ Some inv' m] "3.IH"(4) [OF _ Some inv' m] show ?thesis
        by (cases "phase s") (simp_all add: Some)
    qed
  qed
qed

lemma ask_nameservers_returns:
  "\<exists>s. lk_run (lk_fuel n) n ex sched (lk_init n) = Some (ask_nameservers n ex sched) \<and>
     lk_inv n ex s \<and> phase s = Returned (ask_nameservers n ex sched)"
proof -
  have "lk_measure n (lk_init n) \<le> lk_fuel n"
    by (cases n) (simp_all add: lk_measure_def lk_init_def lk_fuel_def)
  from lk_run_returns [OF lk_inv_init this, of ex sched] show ?thesis
    by (auto simp: ask_nameservers_def)
qed

lemma lk_run_Returned: "phase s = Returned r \<Longrightarrow> lk_run fuel n ex evs s = Some r"
  by (cases fuel; cases evs) simp_all

text \<open>The transition system itself: \<open>lk_path evs s s'\<close> when the events \<open>evs\<close> lead from \<open>s\<close> to \<open>s'\<close>.\<close>

inductive lk_path :: "nat \<Rightarrow> (nat \<Rightarrow> exchange_result) \<Rightarrow> lk_event list \<Rightarrow> lk_state \<Rightarrow> lk_state \<Rightarrow> bool"
  for n ex where
  lk_path_Nil: "lk_path n ex [] s s"
| lk_path_Cons: "(\<forall>r. phase s \<noteq> Returned r) \<Longrightarrow> lk_step n ex ev s = Some s1 \<Longrightarrow> lk_path n ex evs s1 s2 \<Longrightarrow>
    lk_path n ex (ev # evs) s s2"

lemma lk_path_inv:
  "lk_path n ex evs s s' \<Longrightarrow> lk_inv n ex s \<Longrightarrow>
     lk_inv n ex s' \<and> length evs + lk_measure n s' \<le> lk_measure n s"
proof (induction rule: lk_path.induct)
  case (lk_path_Cons s ev s1 evs s2)
  from lk_path_Cons.IH [OF lk_inv_step [OF lk_path_Cons.prems lk_path_Cons.hyps(2)]]
    lk_step_measure [OF lk_path_Cons.prems lk_path_Cons.hyps(2)]
  show ?case by simp
qed simp

lemma lk_path_run:
  "lk_path n ex evs s s' \<Longrightarrow> phase s' = Returned r \<Longrightarrow> length evs \<le> fuel \<Longrightarrow>
     lk_run fuel n ex evs s = Some r"
proof (induction arbitrary: fuel rule: lk_path.induct)
  case (lk_path_Cons s ev s1 evs s2)
  then obtain fuel' where f: "fuel = Suc fuel'" by (cases fuel) simp_all
  with lk_path_Cons show ?case by (cases "phase s") simp_all
qed (simp add: lk_run_Returned)

lemma lk_measure_init: "lk_measure n (lk_init n) \<le> 2 * n + 2"
  by (cases n) (simp_all add: lk_measure_def lk_init_def)

section \<open>What a lookup returns\<close>

definition exchange_fails :: "exchange_result \<Rightarrow> bool" where
  "exchange_fails e \<longleftrightarrow> (case e of ExErr \<Rightarrow> True | ExOk r \<Rightarrow> Rcode r = RcodeServerFailure)"

lemma L_sends_None_iff: "L_sends e = None \<longleftrightarrow> exchange_fails e"
  by (cases e) (auto simp: exchange_fails_def)

lemma L_sends_Some_iff: "L_sends e = Some r \<longleftrightarrow> e = ExOk r \<and> Rcode r \<noteq> RcodeServerFailure"
  by (cases e) auto

lemma ask_nameservers_answer:
  "ask_nameservers n ex sched = LkAnswer r i early \<Longrightarrow>
     i < n \<and> ex i = ExOk r \<and> Rcode r \<noteq> RcodeServerFailure"
  using ask_nameservers_returns [of n ex sched] by (auto simp: lk_inv_def L_sends_Some_iff)

lemma ask_nameservers_failed:
  "ask_nameservers n ex sched = LkFailed \<longleftrightarrow> (\<forall>i<n. exchange_fails (ex i))"
proof
  assume "ask_nameservers n ex sched = LkFailed"
  with ask_nameservers_returns [of n ex sched] show "\<forall>i<n. exchange_fails (ex i)"
    by (auto simp: lk_inv_def L_sends_None_iff)
next
  assume all: "\<forall>i<n. exchange_fails (ex i)"
  show "ask_nameservers n ex sched = LkFailed"
  proof (cases "ask_nameservers n ex sched")
    case (LkAnswer r i early)
    with all ask_nameservers_answer [OF LkAnswer] show ?thesis by (auto simp: exchange_fails_def)
  qed
qed

text \<open>What \<open>Exchange\<close> returns for the \<open>i\<close>-th nameserver, with the transport \<open>Lookup\<close> picks.\<close>

abbreviation (input) exchange_of ::
  "upstream_env \<Rightarrow> string \<Rightarrow> rr msg \<Rightarrow> int \<Rightarrow> string list \<Rightarrow> nat \<Rightarrow> exchange_result" where
  "exchange_of env net req timeout nameServers i \<equiv>
     env_exchange env i (nameServers ! i) (if net = ''http'' then ''tcp'' else net) (Duration timeout Second) req"

abbreviation (input) doh_answers ::
  "dns_codec \<Rightarrow> upstream_env \<Rightarrow> string \<Rightarrow> int \<Rightarrow> rr msg \<Rightarrow> rr msg \<Rightarrow> bool" where
  "doh_answers codec env DoH timeout req r \<equiv>
     DoH \<noteq> [] \<and> DoHLookup codec (env_post env) DoH timeout req = Inr (Inr r)"

lemma DoHLookup_total:
  "Question req \<noteq> [] \<Longrightarrow> \<exists>r. DoHLookup codec post url timeout req = Inr r"
  by (cases "Question req") (auto simp: DoHLookup_def Let_def)

lemma Lookup_nameservers_total:
  "Duration interval Millisecond > 0 \<Longrightarrow> \<exists>x. Lookup_nameservers env net req q timeout interval ns met = Inr x"
  by (auto simp: Lookup_nameservers_def Let_def split: lk_result.split)

lemma Lookup_nameservers_cases:
  assumes "Lookup_nameservers env net req q timeout interval ns met = Inr (res, met')"
  shows "(case res of
      Inr r \<Rightarrow> \<exists>i<length ns. exchange_of env net req timeout ns i = ExOk r \<and> Rcode r \<noteq> RcodeServerFailure
    | Inl e \<Rightarrow> (\<forall>i<length ns. exchange_fails (exchange_of env net req timeout ns i)) \<and> met' = met \<and>
        e = \<lparr>re_qname = q_Name q, re_net = net, re_nameservers = ns\<rparr>)"
proof -
  let ?ex = "\<lambda>i. exchange_of env net req timeout ns i"
  show ?thesis
  proof (cases "ask_nameservers (length ns) ?ex (env_sched env)")
    case (LkAnswer r i early)
    with assms ask_nameservers_answer [OF LkAnswer] show ?thesis
      by (auto simp: Lookup_nameservers_def Let_def split: if_splits)
  next
    case LkFailed
    with assms ask_nameservers_failed [of "length ns" ?ex "env_sched env"] show ?thesis
      by (auto simp: Lookup_nameservers_def Let_def split: if_splits)
  qed
qed

lemma Lookup_eq_DoH:
  assumes "Question req = q # qs" "doh_answers codec env DoH timeout req r"
  shows "Lookup codec env net req timeout interval ns DoH met =
     Inr (Inr r, count_upstream q (Rcode r) DoH (ReportUpstreamResolve ''doh'' (env_doh_elapsed env) met))"
  using assms by (simp add: Lookup_def Let_def)

lemma Lookup_eq_nameservers:
  assumes "Question req = q # qs" "\<nexists>r. doh_answers codec env DoH timeout req r"
  shows "Lookup codec env net req timeout interval ns DoH met =
     Lookup_nameservers env net req q timeout interval ns
       (if DoH = [] then met else ReportUpstreamResolve ''doh'' (env_doh_elapsed env) met)"
proof (cases "DoH = []")
  case False
  with assms DoHLookup_total [of req codec "env_post env" DoH timeout] obtain e where
    "DoHLookup codec (env_post env) DoH timeout req = Inr (Inl e)"
    by (metis list.distinct(1) sum.exhaust)
  with False assms show ?thesis by (simp add: Lookup_def Let_def)
qed (use assms in \<open>simp add: Lookup_def\<close>)

lemma Lookup_total:
  assumes "Question req \<noteq> []" "Duration interval Millisecond > 0"
  shows "\<exists>res met'. Lookup codec env net req timeout interval ns DoH met = Inr (res, met')"
proof -
  from assms(1) obtain q qs where q: "Question req = q # qs" by (cases "Question req") auto
  show ?thesis
  proof (cases "\<exists>r. doh_answers codec env DoH timeout req r")
    case True
    with Lookup_eq_DoH [OF q] show ?thesis by blast
  next
    case False
    with Lookup_eq_nameservers [OF q False] Lookup_nameservers_total [OF assms(2)] show ?thesis
      by (metis surj_pair)
  qed
qed

lemma Lookup_cases:
  assumes q: "Question req = q # qs"
    and res: "Lookup codec env net req timeout interval ns DoH met = Inr (res, met')"
  shows "(case res of
      Inr r \<Rightarrow> doh_answers codec env DoH timeout req r \<or>
        (\<exists>i<length ns. exchange_of env net req timeout ns i = ExOk r \<and> Rcode r \<noteq> RcodeServerFailure)
    | Inl e \<Rightarrow> (\<nexists>r. doh_answers codec env DoH timeout req r) \<and>
        (\<forall>i<length ns. exchange_fails (exchange_of env net req timeout ns i)) \<and>
        e = \<lparr>re_qname = q_Name q, re_net = net, re_nameservers = ns\<rparr>)"
proof (cases "\<exists>r. doh_answers codec env DoH timeout req r")
  case True
  then obtain r where r: "doh_answers codec env DoH timeout req r" by blast
  with res Lookup_eq_DoH [OF q r, of net interval ns met] show ?thesis by auto
next
  case False
  from res Lookup_eq_nameservers [OF q False, of net interval ns met]
  have "Lookup_nameservers env net req q timeout interval ns
       (if DoH = [] then met else ReportUpstreamResolve ''doh'' (env_doh_elapsed env) met) = Inr (res, met')"
    by simp
  from Lookup_nameservers_cases [OF this] False show ?thesis by (auto split: sum.splits)
qed

lemma low_cardinality_count_upstream: "low_cardinality m \<Longrightarrow> low_cardinality (count_upstream q rc u m)"
  by (simp add: low_cardinality_def count_upstream_def)

lemma low_cardinality_Lookup_nameservers:
  "low_cardinality m \<Longrightarrow> Lookup_nameservers env net req q timeout interval ns m = Inr (res, m') \<Longrightarrow>
     low_cardinality m'"
  by (auto simp: Lookup_nameservers_def Let_def
      intro!: low_cardinality_count_upstream low_cardinality_ReportUpstreamResolve
      split: if_splits lk_result.splits)

lemma low_cardinality_Lookup:
  assumes "low_cardinality m" "Lookup codec env net req timeout interval ns DoH m = Inr (res, m')"
  shows "low_cardinality m'"
proof -
  from assms(2) obtain q qs where q: "Question req = q # qs"
    by (cases "Question req") (auto simp: Lookup_def)
  note keep = low_cardinality_count_upstream low_cardinality_ReportUpstreamResolve
  show ?thesis
  proof (cases "\<exists>r. doh_answers codec env DoH timeout req r")
    case True
    then obtain r where "doh_answers codec env DoH timeout req r" by blast
    from assms Lookup_eq_DoH [OF q this, of net interval ns m] show ?thesis by (auto intro!: keep)
  next
    case False
    from assms Lookup_eq_nameservers [OF q False, of net interval ns m] show ?thesis
      by (auto intro: low_cardinality_Lookup_nameservers [rotated] keep split: if_splits)
  qed
qed

section \<open>Properties\<close>

text \<open>Concrete messages and a concrete network for the witnesses.\<close>

definition ex_question :: "rr msg" where
  "ex_question = SetQuestion 7 ''example.com.'' 1 new_Msg"

definition ex_ok :: "rr msg" where
  "ex_ok = ex_question\<lparr>Rcode := RcodeSuccess\<rparr>"

definition ex_servfail :: "rr msg" where
  "ex_servfail = ex_question\<lparr>Rcode := RcodeServerFailure\<rparr>"

definition ex_codec :: dns_codec where
  "ex_codec = \<lparr>Pack = (\<lambda>_. Some [0, 7]), Unpack = (\<lambda>bs. if bs = [1] then Some ex_ok else None)\<rparr>"

definition ex_env :: "http_response option \<Rightarrow> (nat \<Rightarrow> exchange_result) \<Rightarrow> lk_event list \<Rightarrow> upstream_env" where
  "ex_env resp ex sched = \<lparr>env_post = (\<lambda>_ _ _. resp), env_exchange = (\<lambda>i _ _ _ _. ex i),
     env_sched = sched, env_doh_elapsed = 3, env_elapsed = 5\<rparr>"

lemma ex_question_Question:
  "Question ex_question = \<lparr>q_Name = ''example.com.'', q_Qtype = 1, q_Qclass = 1\<rparr> # []"
  by (simp add: ex_question_def SetQuestion_def)

text \<open>
  \<open>DoHLookup\<close> returns a message exactly when the query can be packed, the HTTP exchange
  succeeds within the timeout with status 200 and content type application/dns-message, the
  body can be read and it unpacks to that message; in every other case it returns the error
  that names the question, "HTTPS" and the URL, and it never panics for a message with a
  question.
\<close>

theorem DoHLookup_outcome:
  assumes "Question req = q # qs"
  shows "DoHLookup codec post url timeout req =
    Inr (if \<exists>data resp packet. Pack codec req = Some data \<and> post url (Duration timeout Second) data = Some resp \<and>
             StatusCode resp = 200 \<and> ContentType resp = ''application/dns-message'' \<and>
             Body resp = Some packet \<and> Unpack codec packet \<noteq> None
         then Inr (the (Unpack codec (the (Body (the (post url (Duration timeout Second) (the (Pack codec req))))))))
         else Inl \<lparr>re_qname = q_Name q, re_net = ''HTTPS'', re_nameservers = [url]\<rparr>)"
  using assms by (auto simp: DoHLookup_def Let_def split: option.splits)

theorem DoHLookup_outcome_witness:
  "DoHLookup ex_codec (\<lambda>_ _ _. Some \<lparr>StatusCode = 200, ContentType = ''application/dns-message'', Body = Some [1]\<rparr>)
     ''https://dns.example'' 5 ex_question = Inr (Inr ex_ok) \<and>
   DoHLookup ex_codec (\<lambda>_ _ _. Some \<lparr>StatusCode = 500, ContentType = ''application/dns-message'', Body = Some [1]\<rparr>)
     ''https://dns.example'' 5 ex_question =
     Inr (Inl \<lparr>re_qname = ''example.com.'', re_net = ''HTTPS'', re_nameservers = [''https://dns.example'']\<rparr>)"
  by (simp add: DoHLookup_outcome [OF ex_question_Question] ex_codec_def)

text \<open>
  C14. Every interleaving of the nameserver goroutines, the ticker and the receiving loop is
  finite (at most \<open>2 * n + 2\<close> events for \<open>n\<close> nameservers), is never stuck before \<open>Lookup\<close>
  returns, and the result of each complete interleaving is the one the executable model
  computes for that schedule.
\<close>

theorem lookup_race_terminates:
  assumes "lk_path n ex evs (lk_init n) s"
  shows "length evs \<le> 2 * n + 2 \<and>
    (case phase s of Returned r \<Rightarrow> ask_nameservers n ex evs = r
     | _ \<Rightarrow> \<exists>ev s'. lk_step n ex ev s = Some s')"
proof -
  have len: "length evs \<le> 2 * n + 2"
    using lk_path_inv [OF assms lk_inv_init] lk_measure_init [of n] by simp
  then have fuel: "length evs \<le> lk_fuel n" by (simp add: lk_fuel_def)
  show ?thesis
  proof (cases "\<exists>r. phase s = Returned r")
    case True
    then show ?thesis using len lk_path_run [OF assms _ fuel] by (auto simp: ask_nameservers_def)
  next
    case False
    with len lk_default_enabled [of s n ex] show ?thesis by (cases "phase s") auto
  qed
qed

theorem lookup_race_terminates_witness:
  "ask_nameservers 2 ((\<lambda>_. ExOk ex_ok)(0 := ExErr)) [Tick, Finish 0, Finish 1, Recv] = LkAnswer ex_ok 1 True"
proof -
  let ?ex = "(\<lambda>_. ExOk ex_ok)(0 := ExErr)"
  let ?s = "\<lparr>started = 2, running = [], res_chan = None, phase = Returned (LkAnswer ex_ok 1 True)\<rparr>"
  have "lk_path 2 ?ex [Tick, Finish 0, Finish 1, Recv] (lk_init 2) ?s"
    by (rule lk_path_Cons, simp add: lk_init_def, simp add: lk_init_def,
        rule lk_path_Cons, simp, simp,
        rule lk_path_Cons, simp, simp add: ex_ok_def,
        rule lk_path_Cons, simp, simp, simp add: lk_path_Nil ex_ok_def numeral_2_eq_2)
  from lookup_race_terminates [OF this] show ?thesis by simp
qed

text \<open>
  C13. For a query with a question, and if the interval makes a positive period of the ticker (in
  64 bits), \<open>Lookup\<close> always returns, whatever the
  schedule. It fails exactly when there is no usable DoH answer and every nameserver has a
  socket error or answers SERVFAIL.
\<close>

theorem Lookup_fails_iff:
  assumes "Question req \<noteq> []" "Duration interval Millisecond > 0"
  shows "(\<exists>res met'. Lookup codec env net req timeout interval ns DoH met = Inr (res, met') \<and>
    (isl res \<longleftrightarrow> (DoH = [] \<or> (\<nexists>r. DoHLookup codec (env_post env) DoH timeout req = Inr (Inr r))) \<and>
      (\<forall>i<length ns. exchange_fails (exchange_of env net req timeout ns i))))"
proof -
  from assms(1) obtain q qs where q: "Question req = q # qs" by (cases "Question req") auto
  obtain res met' where L: "Lookup codec env net req timeout interval ns DoH met = Inr (res, met')"
    using Lookup_total [OF assms] by blast
  show ?thesis
  proof (cases res)
    case (Inl e)
    with Lookup_cases [OF q L] L show ?thesis by auto
  next
    case (Inr r)
    with Lookup_cases [OF q L] L show ?thesis by (auto simp: exchange_fails_def)
  qed
qed

theorem Lookup_fails_iff_witness:
  "\<exists>e met'. Lookup ex_codec (ex_env None ((\<lambda>_. ExErr)(1 := ExOk ex_servfail)) [Tick]) ''udp'' ex_question 4 200
     [''8.8.8.8:53'', ''1.1.1.1:53''] ''https://dns.example'' init_metrics = Inr (Inl e, met')"
proof -
  let ?env = "ex_env None ((\<lambda>_. ExErr)(1 := ExOk ex_servfail)) [Tick]"
  have doh: "\<nexists>r. DoHLookup ex_codec (env_post ?env) ''https://dns.example'' 4 ex_question = Inr (Inr r)"
    by (simp add: DoHLookup_def ex_codec_def ex_env_def ex_question_Question)
  have fails: "\<forall>i<length [''8.8.8.8:53'', ''1.1.1.1:53'']. exchange_fails
      (exchange_of ?env ''udp'' ex_question 4 [''8.8.8.8:53'', ''1.1.1.1:53''] i)"
    by (simp add: exchange_fails_def ex_env_def ex_servfail_def)
  have "Question ex_question \<noteq> []" by (simp add: ex_question_Question)
  from Lookup_fails_iff [OF this, of 200 ex_codec ?env "''udp''" 4 "[''8.8.8.8:53'', ''1.1.1.1:53'']"
      "''https://dns.example''" init_metrics] doh fails
  show ?thesis by (auto simp: isl_def)
qed

text \<open>
  An answer that \<open>Lookup\<close> returns is either the DoH server's, and then no nameserver is
  asked and the upstream counter is incremented for that server, or, when DoH is off or gave
  no answer, the answer of one of the configured nameservers, received without a socket
  error and not SERVFAIL. Queries that came over HTTP are forwarded over TCP.
\<close>

theorem Lookup_answer_source:
  assumes "Question req = q # qs"
    and "Lookup codec env net req timeout interval ns DoH met = Inr (Inr r, met')"
  shows "if DoH \<noteq> [] \<and> (\<exists>r. DoHLookup codec (env_post env) DoH timeout req = Inr (Inr r))
    then DoHLookup codec (env_post env) DoH timeout req = Inr (Inr r) \<and>
      met' = count_upstream q (Rcode r) DoH (ReportUpstreamResolve ''doh'' (env_doh_elapsed env) met)
    else \<exists>i<length ns. env_exchange env i (ns ! i) (if net = ''http'' then ''tcp'' else net) (Duration timeout Second) req
        = ExOk r \<and> Rcode r \<noteq> RcodeServerFailure"
proof (cases "\<exists>a. doh_answers codec env DoH timeout req a")
  case True
  then obtain a where a: "doh_answers codec env DoH timeout req a" by blast
  with assms(2) Lookup_eq_DoH [OF assms(1) a, of net interval ns met] show ?thesis by auto
next
  case False
  with Lookup_cases [OF assms] show ?thesis by auto
qed

theorem Lookup_answer_source_witness:
  "Rcode ex_ok \<noteq> RcodeServerFailure \<and>
   Lookup ex_codec (ex_env None ((\<lambda>_. ExOk ex_ok)(0 := ExErr)) [Tick]) ''http'' ex_question 4 200
     [''8.8.8.8:53'', ''1.1.1.1:53''] [] init_metrics = Inr (Inr ex_ok, init_metrics)"
proof -
  let ?env = "ex_env None ((\<lambda>_. ExOk ex_ok)(0 := ExErr)) [Tick]"
  let ?ns = "[''8.8.8.8:53'', ''1.1.1.1:53'']"
  have "ask_nameservers (length ?ns) (\<lambda>i. if i = 0 then ExErr else ExOk ex_ok) [Tick] = LkAnswer ex_ok 1 True"
    by (simp add: ask_nameservers_def lk_fuel_def lk_init_def lk_default_def eval_nat_numeral
        ex_ok_def)
  then have L: "Lookup ex_codec ?env ''http'' ex_question 4 200 ?ns [] init_metrics = Inr (Inr ex_ok, init_metrics)"
    by (simp add: Lookup_def Lookup_nameservers_def ex_question_Question ex_env_def Let_def fun_upd_def
        del: list.size)
  from Lookup_answer_source [OF ex_question_Question L] L show ?thesis
    by (auto simp: ex_env_def split: if_splits)
qed

text \<open>
  The per-upstream counter names the queried domain in its labels even when
  high-cardinality metrics are switched off: a successful DoH lookup increments a series
  whose name label is the question's name.
\<close>

theorem upstream_counter_names_domains:
  assumes "Question req = q # qs" "\<not> configHighCardinality met" "DoH \<noteq> []"
    and "DoHLookup codec (env_post env) DoH timeout req = Inr (Inr r)"
  shows "\<exists>met'. Lookup codec env net req timeout interval ns DoH met = Inr (Inr r, met') \<and>
    \<not> configHighCardinality met' \<and>
    (\<exists>l. up_q_name l = q_Name q \<and> RequestUpstreamResolveCounter met' l =
       Suc (RequestUpstreamResolveCounter met l))"
proof -
  let ?m = "count_upstream q (Rcode r) DoH (ReportUpstreamResolve ''doh'' (env_doh_elapsed env) met)"
  let ?l = "\<lparr>up_q_type = Type_String (q_Qtype q), up_q_name = q_Name q,
        up_rcode = RcodeToString (Rcode r), up_upstream = DoH\<rparr>"
  have "RequestUpstreamResolveCounter ?m ?l = Suc (RequestUpstreamResolveCounter met ?l)"
    by (simp add: count_upstream_def Inc_def ReportUpstreamResolve_def)
  moreover have "\<not> configHighCardinality ?m"
    using assms(2) by (simp add: count_upstream_def ReportUpstreamResolve_def)
  ultimately show ?thesis
    using Lookup_eq_DoH [OF assms(1) conjI [OF assms(3,4)], of net interval ns met]
    by (intro exI [of _ ?m] conjI exI [of _ ?l]) simp_all
qed

theorem upstream_counter_names_domains_witness:
  "\<exists>met' l. Lookup ex_codec (ex_env (Some \<lparr>StatusCode = 200, ContentType = ''application/dns-message'',
       Body = Some [1]\<rparr>) (\<lambda>_. ExErr) []) ''udp'' ex_question 4 200 [] ''https://dns.example'' init_metrics
     = Inr (Inr ex_ok, met') \<and> up_q_name l = ''example.com.'' \<and> RequestUpstreamResolveCounter met' l = 1"
proof -
  let ?env = "ex_env (Some \<lparr>StatusCode = 200, ContentType = ''application/dns-message'',
       Body = Some [1]\<rparr>) (\<lambda>_. ExErr) []"
  have d: "DoHLookup ex_codec (env_post ?env) ''https://dns.example'' 4 ex_question = Inr (Inr ex_ok)"
    by (simp add: DoHLookup_def ex_question_Question ex_codec_def ex_env_def Let_def)
  from upstream_counter_names_domains [OF ex_question_Question _ _ d, of init_metrics "''udp''" 200 "[]"]
  show ?thesis by (auto simp: init_metrics_def)
qed

end
