(* ===== verification/Tls_Config.thy ===== *)
theory Tls_Config
  imports Go_Prelude
begin

text \<open>
  The TLS set-up of the DNS-over-HTTPS server (src/tls/tls.go). Reading and parsing of key
  pairs and certificates is the standard library's and the file system's: the record
  \<open>tls_files\<close> holds what they return. A certificate is its bytes; \<open>AppendCertsFromPEM\<close> is
  documented to succeed when at least one certificate was parsed.
\<close>

record tls_files =
  LoadX509KeyPair :: "string \<Rightarrow> string \<Rightarrow> byte list option"
  ReadFile :: "string \<Rightarrow> byte list option"
  parse_certs :: "byte list \<Rightarrow> byte list list"

record tls_Config =
  Certificates :: "byte list list"
  RootCAs :: "byte list list option"
  MinVersion :: u16
  MaxVersion :: u16
  CipherSuites :: "u16 list"

datatype tls_error = CertNotLoaded | RootsNotRead string | RootsNotParsed

abbreviation (input) "VersionTLS12 \<equiv> (0x0303 :: u16)"
abbreviation (input) "VersionTLS13 \<equiv> (0x0304 :: u16)"
abbreviation (input) "TLS_ECDHE_ECDSA_WITH_AES_256_GCM_SHA384 \<equiv> (0xc02c :: u16)"
abbreviation (input) "TLS_ECDHE_RSA_WITH_AES_256_GCM_SHA384 \<equiv> (0xc030 :: u16)"
abbreviation (input) "TLS_ECDHE_ECDSA_WITH_CHACHA20_POLY1305 \<equiv> (0xcca9 :: u16)"
abbreviation (input) "TLS_ECDHE_RSA_WITH_CHACHA20_POLY1305 \<equiv> (0xcca8 :: u16)"
abbreviation (input) "TLS_ECDHE_ECDSA_WITH_AES_128_GCM_SHA256 \<equiv> (0xc02b :: u16)"
abbreviation (input) "TLS_ECDHE_RSA_WITH_AES_128_GCM_SHA256 \<equiv> (0xc02f :: u16)"

definition setTLSDefaults :: "tls_Config \<Rightarrow> tls_Config" where
  "setTLSDefaults ctls = ctls\<lparr>MinVersion := VersionTLS12, MaxVersion := VersionTLS13,
     CipherSuites :=
       [TLS_ECDHE_ECDSA_WITH_AES_256_GCM_SHA384,
        TLS_ECDHE_RSA_WITH_AES_256_GCM_SHA384,
        TLS_ECDHE_ECDSA_WITH_CHACHA20_POLY1305,
        TLS_ECDHE_RSA_WITH_CHACHA20_POLY1305,
        TLS_ECDHE_ECDSA_WITH_AES_128_GCM_SHA256,
        TLS_ECDHE_RSA_WITH_AES_128_GCM_SHA256,
        TLS_ECDHE_ECDSA_WITH_AES_256_GCM_SHA384,
        TLS_ECDHE_RSA_WITH_AES_256_GCM_SHA384,
        TLS_ECDHE_RSA_WITH_AES_128_GCM_SHA256]\<rparr>"

text \<open>An empty path selects the system's certificates, a nil pool.\<close>

definition loadRoots :: "tls_files \<Rightarrow> string \<Rightarrow> tls_error + byte list list option" where
  "loadRoots fs caPath =
     (if caPath = [] then Inr None
      else case ReadFile fs (filepath_Clean caPath) of
        None \<Rightarrow> Inl (RootsNotRead caPath)
      | Some pem \<Rightarrow>
          let roots = parse_certs fs pem in
          if roots = [] then Inl RootsNotParsed else Inr (Some roots))"

definition NewTLSConfig :: "tls_files \<Rightarrow> string \<Rightarrow> string \<Rightarrow> string \<Rightarrow> tls_error + tls_Config" where
  "NewTLSConfig fs certPath keyPath caPath =
     (case LoadX509KeyPair fs certPath keyPath of
        None \<Rightarrow> Inl CertNotLoaded
      | Some cert \<Rightarrow>
          (case loadRoots fs caPath of
             Inl err \<Rightarrow> Inl err
           | Inr roots \<Rightarrow> Inr (setTLSDefaults
               \<lparr>Certificates = [cert], RootCAs = roots, MinVersion = VersionTLS12, MaxVersion = 0,
                CipherSuites = []\<rparr>)))"

text \<open>
  A TLS configuration is built exactly when the key pair loads and the root
  certificates, if a file is named, can be read and contain one; it then offers that
  certificate, allows TLS 1.2 and 1.3 only, every cipher suite it lists is one of the six
  ECDHE suites with authenticated encryption, and the roots are the system's only when no
  file is named.
\<close>

theorem NewTLSConfig_secure:
  "(case NewTLSConfig fs certPath keyPath caPath of
      Inr c \<Rightarrow> \<exists>cert. LoadX509KeyPair fs certPath keyPath = Some cert \<and> Certificates c = [cert] \<and>
        MinVersion c = VersionTLS12 \<and> MaxVersion c = VersionTLS13 \<and>
        set (CipherSuites c) \<subseteq> {0xc02b, 0xc02c, 0xc02f, 0xc030, 0xcca8, 0xcca9} \<and>
        (case RootCAs c of
           None \<Rightarrow> caPath = []
         | Some roots \<Rightarrow> caPath \<noteq> [] \<and> roots \<noteq> [] \<and>
             (\<exists>pem. ReadFile fs (filepath_Clean caPath) = Some pem \<and> roots = parse_certs fs pem))
    | Inl e \<Rightarrow> LoadX509KeyPair fs certPath keyPath = None \<or>
        caPath \<noteq> [] \<and> (case ReadFile fs (filepath_Clean caPath) of None \<Rightarrow> True
          | Some pem \<Rightarrow> parse_certs fs pem = []))"
  by (auto simp: NewTLSConfig_def loadRoots_def setTLSDefaults_def Let_def split: option.splits)

end
