(* ===== verification/Toml_Decode.thy ===== *)
theory Toml_Decode
  imports Go_Prelude
begin

text \<open>
  How the TOML library (src/vendor/github.com/pelletier/go-toml/v2/unmarshaler.go) stores a
  document in a Go structure. It finds the field for a key by reflection: a field that is not
  exported does not exist for it. The document is the list of expressions that the parser
  of the library gives; a Go value is a tree with the kinds that the configuration of leng
  has (text, integers, booleans, lists of text, structures, and a pointer that no key reaches).
\<close>

section \<open>Documents and Go values\<close>

text \<open>\<open>VDate\<close> stands for dates and times, of which leng has no field.\<close>

datatype toml_value =
    VString string
  | VInteger int
  | VFloat
  | VBool bool
  | VDate
  | VArray "toml_value list"
  | VInline "(string list \<times> toml_value) list"

text \<open>
  A key is the list of its parts. The header of an array table says whether it is the first
  one with this key, as the parser's tracker reports.
\<close>

datatype toml_expr =
    KeyValue "string list" toml_value
  | Table "string list"
  | ArrayTable bool "string list"

record go_field =
  f_name :: string
  f_tag :: string

datatype go_value =
    GString string
  | GInt int
  | GUint32 u32
  | GBool bool
  | GStrings "string list"
  | GPointer
  | GStruct "(go_field \<times> go_value) list"

text \<open>An error of the decoder, or a panic: of \<open>handleKeyPart\<close> itself, or of package reflect.\<close>

datatype decode_error = DecodeErr | DecodePanic

section \<open>Fields\<close>

text \<open>A Go name is exported if it starts with a capital letter.\<close>

definition exported :: "string \<Rightarrow> bool" where
  "exported name = (case name of [] \<Rightarrow> False | c # _ \<Rightarrow> 65 \<le> (of_char c :: nat) \<and> (of_char c :: nat) \<le> 90)"

text \<open>Both tests on the bits of a character, for evaluation.\<close>

lemma capital_bits:
  "\<forall>b0 b1 b2 b3 b4 b5 b6 b7. exported [Char b0 b1 b2 b3 b4 b5 b6 b7] \<longleftrightarrow>
     \<not> b7 \<and> b6 \<and> \<not> b5 \<and> (b0 \<or> b1 \<or> b2 \<or> b3 \<or> b4) \<and> \<not> (b4 \<and> b3 \<and> (b2 \<or> b0 \<and> b1))"
  by code_simp

lemma lower_bits:
  "\<forall>b0 b1 b2 b3 b4 b5 b6 b7. to_lower_char (Char b0 b1 b2 b3 b4 b5 b6 b7) =
     Char b0 b1 b2 b3 b4 (b5 \<or> \<not> b7 \<and> b6 \<and> (b0 \<or> b1 \<or> b2 \<or> b3 \<or> b4) \<and> \<not> (b4 \<and> b3 \<and> (b2 \<or> b0 \<and> b1))) b6 b7"
  by code_simp

lemma exported_code [code]:
  "exported [] = False"
  "exported (Char b0 b1 b2 b3 b4 b5 b6 b7 # name) \<longleftrightarrow>
     \<not> b7 \<and> b6 \<and> \<not> b5 \<and> (b0 \<or> b1 \<or> b2 \<or> b3 \<or> b4) \<and> \<not> (b4 \<and> b3 \<and> (b2 \<or> b0 \<and> b1))"
  using capital_bits by (simp_all add: exported_def)

lemma to_lower_char_code [code]:
  "to_lower_char (Char b0 b1 b2 b3 b4 b5 b6 b7) =
     Char b0 b1 b2 b3 b4 (b5 \<or> \<not> b7 \<and> b6 \<and> (b0 \<or> b1 \<or> b2 \<or> b3 \<or> b4) \<and> \<not> (b4 \<and> b3 \<and> (b2 \<or> b0 \<and> b1))) b6 b7"
  using lower_bits by blast

definition field_key :: "go_field \<Rightarrow> string" where
  "field_key f = (let name = takeWhile (\<lambda>c. c \<noteq> CHR '','') (f_tag f) in if name = [] then f_name f else name)"

fun forEachField :: "go_field list \<Rightarrow> nat \<Rightarrow> (string \<rightharpoonup> nat) \<Rightarrow> (string \<rightharpoonup> nat)" where
  "forEachField [] i paths = paths"
| "forEachField (f # fs) i paths =
     forEachField fs (Suc i)
       (if \<not> exported (f_name f) then paths
        else if f_tag f = ''-'' then paths
        else paths(field_key f \<mapsto> i, ToLower (field_key f) \<mapsto> i))"

definition structFieldPath :: "go_field list \<Rightarrow> string \<Rightarrow> nat option" where
  "structFieldPath fs name =
     (let paths = forEachField fs 0 Map.empty in
      case paths name of Some i \<Rightarrow> Some i | None \<Rightarrow> paths (ToLower name))"

text \<open>
  One part of a key: nothing happens if a structure has no such field, and what is not a
  structure has none, which is an error or a panic.
\<close>

definition at_field ::
  "decode_error \<Rightarrow> string \<Rightarrow> go_value \<Rightarrow> (go_value \<Rightarrow> decode_error + go_value) \<Rightarrow> decode_error + go_value" where
  "at_field err k v nextFn =
     (case v of
        GStruct fs \<Rightarrow>
          (case structFieldPath (map fst fs) k of
             None \<Rightarrow> Inr v
           | Some i \<Rightarrow> go_bind (nextFn (snd (fs ! i))) (\<lambda>x. Inr (GStruct (fs[i := (fst (fs ! i), x)]))))
      | _ \<Rightarrow> Inl err)"

section \<open>Values\<close>

definition unmarshalInteger :: "int \<Rightarrow> go_value \<Rightarrow> decode_error + go_value" where
  "unmarshalInteger i v =
     (if i < - (2 ^ 63) \<or> i \<ge> 2 ^ 63 then Inl DecodeErr
      else case v of
        GInt _ \<Rightarrow> Inr (GInt i)
      | GUint32 _ \<Rightarrow> if i < 0 \<or> i > 2 ^ 32 - 1 then Inl DecodeErr else Inr (GUint32 (word_of_int i))
      | _ \<Rightarrow> Inl DecodeErr)"

function handleValue :: "toml_value \<Rightarrow> go_value \<Rightarrow> decode_error + go_value"
  and unmarshalArray :: "toml_value list \<Rightarrow> decode_error + string list"
  and handleKeyValues :: "(string list \<times> toml_value) list \<Rightarrow> go_value \<Rightarrow> decode_error + go_value"
  and handleKeyValue :: "string list \<Rightarrow> toml_value \<Rightarrow> go_value \<Rightarrow> decode_error + go_value"
where
  "handleValue (VString s) v = (case v of GString _ \<Rightarrow> Inr (GString s) | _ \<Rightarrow> Inl DecodeErr)"
| "handleValue (VInteger i) v = unmarshalInteger i v"
| "handleValue VFloat v = Inl DecodeErr"
| "handleValue (VBool b) v = (case v of GBool _ \<Rightarrow> Inr (GBool b) | _ \<Rightarrow> Inl DecodeErr)"
| "handleValue VDate v = Inl DecodePanic"
| "handleValue (VArray xs) v =
     (case v of GStrings _ \<Rightarrow> go_bind (unmarshalArray xs) (\<lambda>ss. Inr (GStrings ss)) | _ \<Rightarrow> Inl DecodeErr)"
| "handleValue (VInline kvs) v = (case v of GStruct _ \<Rightarrow> handleKeyValues kvs v | _ \<Rightarrow> Inl DecodeErr)"
| "unmarshalArray [] = Inr []"
| "unmarshalArray (x # xs) =
     go_bind (handleValue x (GString [])) (\<lambda>v.
       go_bind (unmarshalArray xs) (\<lambda>ss. case v of GString s \<Rightarrow> Inr (s # ss) | _ \<Rightarrow> Inl DecodeErr))"
| "handleKeyValues [] v = Inr v"
| "handleKeyValues ((ks, x) # kvs) v = go_bind (handleKeyValue ks x v) (handleKeyValues kvs)"
| "handleKeyValue [] x v = handleValue x v"
| "handleKeyValue (k # ks) x v = at_field DecodeErr k v (handleKeyValue ks x)"
  by pat_completeness auto
termination
  by (relation "measures [\<lambda>a. case a of
        Inl (Inl (x, v)) \<Rightarrow> 2 * size x
      | Inl (Inr xs) \<Rightarrow> 2 * size_list size xs
      | Inr (Inl (kvs, v)) \<Rightarrow> 2 * size_list (size_prod (\<lambda>_. 0) size) kvs
      | Inr (Inr (ks, x, v)) \<Rightarrow> 2 * size x + 1,
      \<lambda>a. case a of Inr (Inr (ks, x, v)) \<Rightarrow> length ks | _ \<Rightarrow> 0]") auto

section \<open>Expressions\<close>

fun key_values :: "toml_expr list \<Rightarrow> (string list \<times> toml_value) list" where
  "key_values (KeyValue ks x # es) = (ks, x) # key_values es"
| "key_values es = []"

fun from_header :: "toml_expr list \<Rightarrow> toml_expr list" where
  "from_header (KeyValue ks x # es) = from_header es"
| "from_header es = es"

lemma from_header_length [termination_simp]: "length (from_header es) \<le> length es"
  by (induction es rule: from_header.induct) auto

text \<open>
  The header of a table, followed by the key-value pairs \<open>kvs\<close>. A header into a list goes to
  the last element, which is text here.
\<close>

fun handleTable :: "string list \<Rightarrow> (string list \<times> toml_value) list \<Rightarrow> go_value \<Rightarrow> decode_error + go_value" where
  "handleTable ks kvs (GStrings ss) =
     (if ss = [] then Inl DecodeErr
      else if ks \<noteq> [] then Inl DecodePanic
      else if kvs \<noteq> [] then Inl DecodeErr
      else Inr (GStrings ss))"
| "handleTable [] kvs v = handleKeyValues kvs v"
| "handleTable (k # ks) kvs v = at_field DecodePanic k v (handleTable ks kvs)"

definition handleArrayTableCollectionLast ::
  "bool \<Rightarrow> (string list \<times> toml_value) list \<Rightarrow> go_value \<Rightarrow> decode_error + go_value" where
  "handleArrayTableCollectionLast first kvs v =
     (case v of
        GStrings ss \<Rightarrow> if kvs \<noteq> [] then Inl DecodeErr else Inr (GStrings ((if first then [] else ss) @ [[]]))
      | _ \<Rightarrow> Inl DecodeErr)"

fun handleArrayTable ::
  "bool \<Rightarrow> string list \<Rightarrow> (string list \<times> toml_value) list \<Rightarrow> go_value \<Rightarrow> decode_error + go_value" where
  "handleArrayTable first [] kvs v = handleKeyValues kvs v"
| "handleArrayTable first (k # ks) kvs v =
     at_field DecodePanic k v (\<lambda>v.
       if ks = [] then handleArrayTableCollectionLast first kvs v
       else case v of GStrings _ \<Rightarrow> Inl DecodePanic | _ \<Rightarrow> handleArrayTable first ks kvs v)"

text \<open>
  The pairs after a header go to its table; if no field takes the table, they are skipped.
\<close>

fun fromParser :: "toml_expr list \<Rightarrow> go_value \<Rightarrow> decode_error + go_value" where
  "fromParser [] v = Inr v"
| "fromParser (KeyValue ks x # es) v = go_bind (handleKeyValue ks x v) (fromParser es)"
| "fromParser (Table ks # es) v = go_bind (handleTable ks (key_values es) v) (fromParser (from_header es))"
| "fromParser (ArrayTable first ks # es) v =
     go_bind (handleArrayTable first ks (key_values es) v) (fromParser (from_header es))"

section \<open>Decoding changes exported fields only\<close>

text \<open>\<open>keeps v w\<close>: the same shape, and equal at every field that is not exported.\<close>

inductive keeps :: "go_value \<Rightarrow> go_value \<Rightarrow> bool" where
  "keeps (GString s) (GString t)"
| "keeps (GInt i) (GInt j)"
| "keeps (GUint32 x) (GUint32 y)"
| "keeps (GBool b) (GBool c)"
| "keeps (GStrings ss) (GStrings ts)"
| "keeps GPointer GPointer"
| "list_all2 (\<lambda>a b. fst a = fst b \<and> keeps (snd a) (snd b) \<and> (\<not> exported (f_name (fst a)) \<longrightarrow> snd a = snd b)) fs gs \<Longrightarrow>
   keeps (GStruct fs) (GStruct gs)"

inductive_simps keeps_simps:
  "keeps (GString s) w" "keeps (GInt i) w" "keeps (GUint32 x) w" "keeps (GBool b) w" "keeps (GStrings ss) w"
  "keeps GPointer w" "keeps (GStruct fs) w"

lemma keeps_refl [simp, intro]: "keeps v v"
proof (induction v)
  case (GStruct fs)
  have "keeps (snd a) (snd a)" if "a \<in> set fs" for a
    using GStruct [OF that] by (cases a) (simp add: snds.simps)
  then show ?case by (simp add: keeps_simps list_all2_same)
qed (simp_all add: keeps_simps)

lemma keeps_trans [trans]: "keeps u v \<Longrightarrow> keeps v w \<Longrightarrow> keeps u w"
proof (induction u v arbitrary: w rule: keeps.induct)
  case (7 fs gs)
  then obtain hs where w: "w = GStruct hs" and
    gh: "list_all2 (\<lambda>a b. fst a = fst b \<and> keeps (snd a) (snd b) \<and> (\<not> exported (f_name (fst a)) \<longrightarrow> snd a = snd b)) gs hs"
    by (auto simp: keeps_simps)
  from 7(1) gh show ?case unfolding w by (fastforce simp: keeps_simps list_all2_conv_all_nth)
qed (auto simp: keeps_simps)

text \<open>The fields that are found are those that exist and are exported.\<close>

lemma forEachField_exported:
  assumes "forEachField fs i paths k = Some n" and "paths k \<noteq> Some n"
  shows "i \<le> n \<and> n < i + length fs \<and> exported (f_name (fs ! (n - i)))"
  using assms
proof (induction fs arbitrary: i paths)
  case (Cons f fs)
  let ?paths = "if \<not> exported (f_name f) then paths else if f_tag f = ''-'' then paths
    else paths(field_key f \<mapsto> i, ToLower (field_key f) \<mapsto> i)"
  show ?case
  proof (cases "?paths k = Some n")
    case True
    with Cons.prems(2) have "n = i \<and> exported (f_name f)" by (auto split: if_splits)
    then show ?thesis by simp
  next
    case False
    with Cons.IH [of "Suc i" ?paths] Cons.prems(1) have "Suc i \<le> n \<and> n < Suc i + length fs \<and> exported (f_name (fs ! (n - Suc i)))"
      by simp
    then show ?thesis by (simp add: nth_Cons')
  qed
qed simp

lemma structFieldPath_exported:
  "structFieldPath fs k = Some i \<Longrightarrow> i < length fs \<and> exported (f_name (fs ! i))"
  using forEachField_exported [of fs 0 Map.empty k i] forEachField_exported [of fs 0 Map.empty "ToLower k" i]
  by (auto simp: structFieldPath_def Let_def split: option.splits)

lemma at_field_keeps:
  assumes "at_field err k v nextFn = Inr w" and "\<And>x y. nextFn x = Inr y \<Longrightarrow> keeps x y"
  shows "keeps v w"
proof (cases v)
  case (GStruct fs)
  show ?thesis
  proof (cases "structFieldPath (map fst fs) k")
    case None
    with assms(1) GStruct show ?thesis by (auto simp: at_field_def)
  next
    case (Some i)
    then obtain y where y: "nextFn (snd (fs ! i)) = Inr y" and w: "w = GStruct (fs[i := (fst (fs ! i), y)])"
      using assms(1) GStruct by (auto simp: at_field_def go_bind_Inr_iff)
    from structFieldPath_exported [OF Some] have i: "i < length fs" "exported (f_name (fst (fs ! i)))" by auto
    show ?thesis
      unfolding GStruct w using i assms(2) [OF y]
      by (auto simp: keeps_simps list_all2_conv_all_nth nth_list_update)
  qed
qed (use assms(1) in \<open>simp_all add: at_field_def\<close>)

lemma handleValue_keeps:
  "handleValue x v = Inr w \<Longrightarrow> keeps v w"
  "unmarshalArray xs = Inr ss \<Longrightarrow> True"
  "handleKeyValues kvs v = Inr w \<Longrightarrow> keeps v w"
  "handleKeyValue ks x v = Inr w \<Longrightarrow> keeps v w"
proof (induction x v and xs and kvs v and ks x v arbitrary: w and ss and w and w
    rule: handleValue_unmarshalArray_handleKeyValues_handleKeyValue.induct)
  case (11 ks x kvs v)
  then obtain u where u: "handleKeyValue ks x v = Inr u" "handleKeyValues kvs u = Inr w" by (auto simp: go_bind_Inr_iff)
  with 11 show ?case using keeps_trans by blast
next
  case (13 k ks x v)
  from 13(2) show ?case by (auto intro: at_field_keeps 13(1))
qed (auto simp: keeps_simps unmarshalInteger_def go_bind_Inr_iff split: go_value.splits if_splits)

lemma handleTable_keeps: "handleTable ks kvs v = Inr w \<Longrightarrow> keeps v w"
  by (induction ks kvs v arbitrary: w rule: handleTable.induct)
    (auto split: if_splits dest: handleValue_keeps intro: at_field_keeps)

lemma handleArrayTable_keeps: "handleArrayTable first ks kvs v = Inr w \<Longrightarrow> keeps v w"
proof (induction first ks kvs v arbitrary: w rule: handleArrayTable.induct)
  case (2 first k ks kvs v)
  have "keeps x y"
    if "(if ks = [] then handleArrayTableCollectionLast first kvs x
      else case x of GStrings _ \<Rightarrow> Inl DecodePanic | _ \<Rightarrow> handleArrayTable first ks kvs x) = Inr y" for x y
  proof (cases "ks = []")
    case True
    with that show ?thesis
      by (auto simp: handleArrayTableCollectionLast_def keeps_simps split: if_splits go_value.splits)
  next
    case False
    with that show ?thesis by (cases x) (simp_all add: "2.IH")
  qed
  with "2.prems" show ?case by (auto intro: at_field_keeps)
qed (auto dest: handleValue_keeps)

lemma fromParser_keeps: "fromParser es v = Inr w \<Longrightarrow> keeps v w"
proof (induction es v rule: fromParser.induct)
  case (2 ks x es v)
  then show ?case by (auto simp: go_bind_Inr_iff dest: handleValue_keeps intro: keeps_trans)
next
  case (3 ks es v)
  then show ?case by (auto simp: go_bind_Inr_iff dest: handleTable_keeps intro: keeps_trans)
next
  case (4 first ks es v)
  then show ?case by (auto simp: go_bind_Inr_iff dest: handleArrayTable_keeps intro: keeps_trans)
qed simp

section \<open>Keys without a field\<close>

definition has_field :: "go_value \<Rightarrow> string \<Rightarrow> bool" where
  "has_field v k = (case v of GStruct fs \<Rightarrow> structFieldPath (map fst fs) k \<noteq> None | _ \<Rightarrow> True)"

lemma forEachField_dom:
  "forEachField fs i paths k = Some n \<Longrightarrow> paths k = None \<Longrightarrow> ToLower k \<in> set (map (ToLower \<circ> field_key) fs)"
proof (induction fs arbitrary: i paths)
  case (Cons f fs)
  then show ?case
    by (cases "exported (f_name f) \<and> f_tag f \<noteq> ''-'' \<and> (k = field_key f \<or> k = ToLower (field_key f))") (auto split: if_splits)
qed simp

lemma structFieldPath_key: "structFieldPath fs k = Some i \<Longrightarrow> ToLower k \<in> set (map (ToLower \<circ> field_key) fs)"
  using forEachField_dom [of fs 0 Map.empty k i] forEachField_dom [of fs 0 Map.empty "ToLower k" i]
  by (auto simp: structFieldPath_def Let_def split: option.splits)

text \<open>Which fields a structure has does not change.\<close>

lemma keeps_has_field: "keeps v w \<Longrightarrow> has_field w k = has_field v k"
proof (cases v)
  case (GStruct fs)
  assume "keeps v w"
  then obtain gs where w: "w = GStruct gs" and
    l: "list_all2 (\<lambda>a b. fst a = fst b \<and> keeps (snd a) (snd b) \<and> (\<not> exported (f_name (fst a)) \<longrightarrow> snd a = snd b)) fs gs"
    unfolding GStruct by (auto simp: keeps_simps)
  have "map fst gs = map fst fs" using l by (induction rule: list_all2_induct) auto
  then show ?thesis by (simp add: has_field_def GStruct w)
qed (auto simp: keeps_simps has_field_def)

lemma handleKeyValue_unknown: "\<not> has_field v k \<Longrightarrow> handleKeyValue (k # ks) x v = Inr v"
  by (auto simp: has_field_def at_field_def split: go_value.splits)

lemma fromParser_skips:
  assumes "\<not> has_field v k" and "list_all (\<lambda>e. \<exists>ks x. e = KeyValue ks x) pre"
  shows "fromParser (pre @ KeyValue (k # ks) x # es) v = fromParser (pre @ es) v"
  using assms
proof (induction pre arbitrary: v)
  case Nil
  then show ?case by (simp add: handleKeyValue_unknown del: handleKeyValue.simps)
next
  case (Cons e pre)
  then obtain ks' x' where e: "e = KeyValue ks' x'" by auto
  have "fromParser (pre @ KeyValue (k # ks) x # es) w = fromParser (pre @ es) w" if "handleKeyValue ks' x' v = Inr w" for w
    using Cons.IH [of w] Cons.prems keeps_has_field [OF handleValue_keeps(4) [OF that]] by simp
  then show ?case by (cases "handleKeyValue ks' x' v") (simp_all add: e del: handleKeyValue.simps)
qed

end
