(* ===== verification/Leng_Config.thy ===== *)
theory Leng_Config
  imports Tls_Config Toml_Decode
begin

text \<open>
  The configuration (src/config.go): its types, the built-in defaults and the loading of a
  file over them. The parser of the TOML library is the parameter \<open>parse\<close>: the expressions
  up to the first error of syntax (or a key defined twice), and whether there is none; what is stored where is
  \<open>fromParser\<close> of \<open>Toml_Decode\<close>, on the structures of this file with the names and tags of
  their fields.
\<close>

section \<open>Types\<close>

record Blocking =
  Sources :: "string list"
  SourcesStore :: string
  SourceDirs :: "string list"
  Blocklist :: "string list"
  Whitelist :: "string list"
  NXDomain :: bool
  Nullroute :: string
  Nullroutev6 :: string

record Upstream =
  UpstreamDoH :: string
  Nameservers :: "string list"
  TimeoutS :: int
  Expire :: u32
  Maxcount :: int

record Metrics_config =
  Metrics_Enabled :: bool
  Metrics_Path :: string
  HighCardinalityEnabled :: bool
  ResetPeriodMinutes :: int
  HistogramsEnabled :: bool

record TlsConfig =
  certPath :: string
  keyPath :: string
  caPath :: string
  tls_enabled :: bool

record DnsOverHttpServer =
  Doh_Enabled :: bool
  Doh_Bind :: string
  TimeoutMs :: int
  TLS :: TlsConfig
  parsedTls :: "tls_Config option"

record Config =
  Version :: string
  LogConfig :: string
  Bind :: string
  API :: string
  Interval :: int
  Timeout :: int
  QuestionCacheCap :: int
  TTL :: u32
  CustomDNSRecords_texts :: "string list"
  APIDebug :: bool
  Blocking_config :: Blocking
  Upstream_config :: Upstream
  Metrics_conf :: Metrics_config
  DohServer :: DnsOverHttpServer
  FollowCnameDepth :: u32

section \<open>Defaults\<close>

abbreviation (input) "ConfigVersion \<equiv> ''1.6.0''"

definition parseDefaultConfig :: Config where
  "parseDefaultConfig =
     \<lparr>Version = ConfigVersion, LogConfig = ''stderr@2'', Bind = ''0.0.0.0:53'',
      API = ''127.0.0.1:8080'', Interval = 200, Timeout = 5000, QuestionCacheCap = 5000, TTL = 0,
      CustomDNSRecords_texts = [], APIDebug = False,
      Blocking_config =
        \<lparr>Sources = [''https://raw.githubusercontent.com/StevenBlack/hosts/master/hosts'',
           ''https://sysctl.org/cameleon/hosts'',
           ''https://s3.amazonaws.com/lists.disconnect.me/simple_tracking.txt'',
           ''https://s3.amazonaws.com/lists.disconnect.me/simple_ad.txt'',
           ''https://gitlab.com/quidsup/notrack-blocklists/raw/master/notrack-blocklist.txt''],
         SourcesStore = ''./sources'', SourceDirs = [''./sources''], Blocklist = [],
         Whitelist = [], NXDomain = False, Nullroute = ''0.0.0.0'',
         Nullroutev6 = ''0:0:0:0:0:0:0:0''\<rparr>,
      Upstream_config =
        \<lparr>UpstreamDoH = ''https://cloudflare-dns.com/dns-query'',
         Nameservers = [''1.1.1.1:53'', ''1.0.0.1:53''], TimeoutS = 5, Expire = 600, Maxcount = 0\<rparr>,
      Metrics_conf =
        \<lparr>Metrics_Enabled = False, Metrics_Path = ''/metrics'', HighCardinalityEnabled = False,
         ResetPeriodMinutes = 60, HistogramsEnabled = False\<rparr>,
      DohServer =
        \<lparr>Doh_Enabled = False, Doh_Bind = ''0.0.0.0:80'', TimeoutMs = 5000,
         TLS = \<lparr>certPath = [], keyPath = [], caPath = [], tls_enabled = False\<rparr>, parsedTls = None\<rparr>,
      FollowCnameDepth = 12\<rparr>"

section \<open>The structures as the decoder sees them\<close>

abbreviation (input) fld :: "string \<Rightarrow> go_field" where
  "fld n \<equiv> \<lparr>f_name = n, f_tag = []\<rparr>"

definition Blocking_value :: "Blocking \<Rightarrow> go_value" where
  "Blocking_value b = GStruct
     [(fld ''Sources'', GStrings (Sources b)), (fld ''SourcesStore'', GString (SourcesStore b)),
      (fld ''SourceDirs'', GStrings (SourceDirs b)), (fld ''Blocklist'', GStrings (Blocklist b)),
      (fld ''Whitelist'', GStrings (Whitelist b)), (fld ''NXDomain'', GBool (NXDomain b)),
      (fld ''Nullroute'', GString (Nullroute b)), (fld ''Nullroutev6'', GString (Nullroutev6 b))]"

definition Upstream_value :: "Upstream \<Rightarrow> go_value" where
  "Upstream_value u = GStruct
     [(fld ''DoH'', GString (UpstreamDoH u)), (fld ''Nameservers'', GStrings (Nameservers u)),
      (\<lparr>f_name = ''TimeoutS'', f_tag = ''timeout_s''\<rparr>, GInt (TimeoutS u)), (fld ''Expire'', GUint32 (Expire u)),
      (fld ''Maxcount'', GInt (Maxcount u))]"

definition Metrics_value :: "Metrics_config \<Rightarrow> go_value" where
  "Metrics_value m = GStruct
     [(fld ''Enabled'', GBool (Metrics_Enabled m)), (fld ''Path'', GString (Metrics_Path m)),
      (fld ''HighCardinalityEnabled'', GBool (HighCardinalityEnabled m)),
      (fld ''ResetPeriodMinutes'', GInt (ResetPeriodMinutes m)), (fld ''HistogramsEnabled'', GBool (HistogramsEnabled m))]"

definition TlsConfig_value :: "TlsConfig \<Rightarrow> go_value" where
  "TlsConfig_value t = GStruct
     [(fld ''certPath'', GString (certPath t)), (fld ''keyPath'', GString (keyPath t)),
      (fld ''caPath'', GString (caPath t)), (fld ''enabled'', GBool (tls_enabled t))]"

definition DohServer_value :: "DnsOverHttpServer \<Rightarrow> go_value" where
  "DohServer_value d = GStruct
     [(fld ''Enabled'', GBool (Doh_Enabled d)), (fld ''Bind'', GString (Doh_Bind d)),
      (fld ''TimeoutMs'', GInt (TimeoutMs d)), (fld ''TLS'', TlsConfig_value (TLS d)), (fld ''parsedTls'', GPointer)]"

definition Config_value :: "Config \<Rightarrow> go_value" where
  "Config_value c = GStruct
     [(fld ''Version'', GString (Version c)), (fld ''LogConfig'', GString (LogConfig c)),
      (fld ''Bind'', GString (Bind c)), (fld ''API'', GString (API c)), (fld ''Interval'', GInt (Interval c)),
      (fld ''Timeout'', GInt (Timeout c)), (fld ''QuestionCacheCap'', GInt (QuestionCacheCap c)),
      (fld ''TTL'', GUint32 (TTL c)), (fld ''CustomDNSRecords'', GStrings (CustomDNSRecords_texts c)),
      (fld ''APIDebug'', GBool (APIDebug c)), (fld ''Blocking'', Blocking_value (Blocking_config c)),
      (fld ''Upstream'', Upstream_value (Upstream_config c)),
      (\<lparr>f_name = ''Metrics'', f_tag = ''metrics''\<rparr>, Metrics_value (Metrics_conf c)),
      (fld ''DnsOverHttpServer'', DohServer_value (DohServer c)), (fld ''FollowCnameDepth'', GUint32 (FollowCnameDepth c))]"

text \<open>
  And back, by position. The decoder keeps the kind of every field (\<open>fromParser_keeps\<close>), so
  the results for other kinds do not matter. A pointer stays what it was.
\<close>

definition at :: "go_value \<Rightarrow> nat \<Rightarrow> go_value" where
  "at v i = (case v of GStruct fs \<Rightarrow> snd (fs ! i) | _ \<Rightarrow> GPointer)"

definition text_of :: "go_value \<Rightarrow> string" where "text_of v = (case v of GString s \<Rightarrow> s | _ \<Rightarrow> [])"
definition int_of :: "go_value \<Rightarrow> int" where "int_of v = (case v of GInt i \<Rightarrow> i | _ \<Rightarrow> 0)"
definition u32_of :: "go_value \<Rightarrow> u32" where "u32_of v = (case v of GUint32 i \<Rightarrow> i | _ \<Rightarrow> 0)"
definition bool_of :: "go_value \<Rightarrow> bool" where "bool_of v = (case v of GBool b \<Rightarrow> b | _ \<Rightarrow> False)"
definition texts_of :: "go_value \<Rightarrow> string list" where "texts_of v = (case v of GStrings ss \<Rightarrow> ss | _ \<Rightarrow> [])"

lemmas of_value_defs = at_def text_of_def int_of_def u32_of_def bool_of_def texts_of_def

definition Blocking_of :: "go_value \<Rightarrow> Blocking" where
  "Blocking_of v = \<lparr>Sources = texts_of (at v 0), SourcesStore = text_of (at v 1), SourceDirs = texts_of (at v 2),
     Blocklist = texts_of (at v 3), Whitelist = texts_of (at v 4), NXDomain = bool_of (at v 5),
     Nullroute = text_of (at v 6), Nullroutev6 = text_of (at v 7)\<rparr>"

definition Upstream_of :: "go_value \<Rightarrow> Upstream" where
  "Upstream_of v = \<lparr>UpstreamDoH = text_of (at v 0), Nameservers = texts_of (at v 1), TimeoutS = int_of (at v 2),
     Expire = u32_of (at v 3), Maxcount = int_of (at v 4)\<rparr>"

definition Metrics_of :: "go_value \<Rightarrow> Metrics_config" where
  "Metrics_of v = \<lparr>Metrics_Enabled = bool_of (at v 0), Metrics_Path = text_of (at v 1),
     HighCardinalityEnabled = bool_of (at v 2), ResetPeriodMinutes = int_of (at v 3), HistogramsEnabled = bool_of (at v 4)\<rparr>"

definition TlsConfig_of :: "go_value \<Rightarrow> TlsConfig" where
  "TlsConfig_of v = \<lparr>certPath = text_of (at v 0), keyPath = text_of (at v 1), caPath = text_of (at v 2),
     tls_enabled = bool_of (at v 3)\<rparr>"

definition DohServer_of :: "go_value \<Rightarrow> DnsOverHttpServer \<Rightarrow> DnsOverHttpServer" where
  "DohServer_of v d = \<lparr>Doh_Enabled = bool_of (at v 0), Doh_Bind = text_of (at v 1), TimeoutMs = int_of (at v 2),
     TLS = TlsConfig_of (at v 3), parsedTls = parsedTls d\<rparr>"

definition Config_of :: "go_value \<Rightarrow> Config \<Rightarrow> Config" where
  "Config_of v c = \<lparr>Version = text_of (at v 0), LogConfig = text_of (at v 1), Bind = text_of (at v 2),
     API = text_of (at v 3), Interval = int_of (at v 4), Timeout = int_of (at v 5),
     QuestionCacheCap = int_of (at v 6), TTL = u32_of (at v 7), CustomDNSRecords_texts = texts_of (at v 8),
     APIDebug = bool_of (at v 9), Blocking_config = Blocking_of (at v 10), Upstream_config = Upstream_of (at v 11),
     Metrics_conf = Metrics_of (at v 12), DohServer = DohServer_of (at v 13) (DohServer c),
     FollowCnameDepth = u32_of (at v 14)\<rparr>"

lemma Config_of_value: "Config_of (Config_value c) c = c"
  by (simp add: Config_of_def Config_value_def Blocking_of_def Blocking_value_def Upstream_of_def Upstream_value_def
      Metrics_of_def Metrics_value_def DohServer_of_def DohServer_value_def TlsConfig_of_def TlsConfig_value_def of_value_defs)

section \<open>Loading\<close>

definition TlsConfig_parsedConfig :: "tls_files \<Rightarrow> TlsConfig \<Rightarrow> tls_error + tls_Config option" where
  "TlsConfig_parsedConfig fs c =
     (if \<not> tls_enabled c then Inr None
      else case NewTLSConfig fs (certPath c) (keyPath c) (caPath c) of
        Inl e \<Rightarrow> Inl e | Inr t \<Rightarrow> Inr (Some t))"

text \<open>What the file system has at a path.\<close>

datatype config_file = NotExist | CannotOpen | Contents "byte list"

datatype config_error = DecodeError | TLSError tls_error

definition decode_Config ::
  "(byte list \<Rightarrow> toml_expr list \<times> bool) \<Rightarrow> byte list \<Rightarrow> Config \<Rightarrow> go_panic + config_error + Config" where
  "decode_Config parse bs config =
     (let (es, ok) = parse bs in
      case fromParser es (Config_value config) of
        Inl DecodeErr \<Rightarrow> Inr (Inl DecodeError)
      | Inl DecodePanic \<Rightarrow> Inl (ExplicitPanic ''toml'')
      | Inr v \<Rightarrow> if ok then Inr (Inr (Config_of v config)) else Inr (Inl DecodeError))"

definition LoadConfig ::
  "(byte list \<Rightarrow> toml_expr list \<times> bool) \<Rightarrow> tls_files \<Rightarrow> (string \<Rightarrow> config_file) \<Rightarrow> string
    \<Rightarrow> go_panic + config_error + Config" where
  "LoadConfig parse fs file path =
     (let config = parseDefaultConfig in
      if file path = NotExist then Inr (Inr config)
      else case file (filepath_Clean path) of
        Contents bs \<Rightarrow>
          go_bind (decode_Config parse bs config) (\<lambda>r.
            case r of
              Inl err \<Rightarrow> Inr (Inl err)
            | Inr config \<Rightarrow>
               (case TlsConfig_parsedConfig fs (TLS (DohServer config)) of
                  Inl err \<Rightarrow> Inr (Inl (TLSError err))
                | Inr dohTls \<Rightarrow>
                    let config = config\<lparr>DohServer := (DohServer config)\<lparr>parsedTls := dohTls\<rparr>\<rparr>
                    in Inr (Inr (if Version config \<noteq> ConfigVersion \<and> Version config = []
                            then config\<lparr>Version := ''none''\<rparr> else config))))
      | _ \<Rightarrow> Inr (Inr config))"

lemma decode_keeps_TLS:
  assumes "fromParser es (Config_value c) = Inr v"
  shows "TLS (DohServer (Config_of v c)) = TLS (DohServer c)" and "parsedTls (DohServer (Config_of v c)) = parsedTls (DohServer c)"
proof -
  have "keeps (Config_value c) v" using fromParser_keeps [OF assms] .
  then show "TLS (DohServer (Config_of v c)) = TLS (DohServer c)"
    by (auto simp: Config_value_def DohServer_value_def TlsConfig_value_def Config_of_def DohServer_of_def TlsConfig_of_def
        keeps_simps list_all2_Cons1 exported_def of_value_defs)
qed (simp add: Config_of_def DohServer_of_def)

lemma decode_Config_tls:
  assumes "decode_Config parse bs parseDefaultConfig = Inr (Inr c)"
  shows "\<not> tls_enabled (TLS (DohServer c))"
proof -
  have "TLS (DohServer c) = TLS (DohServer parseDefaultConfig)"
    using assms decode_keeps_TLS(1) by (auto simp: decode_Config_def split: prod.splits sum.splits decode_error.splits if_splits)
  then show ?thesis by (simp add: parseDefaultConfig_def)
qed

text \<open>So the TLS set-up of a loaded configuration is always nil.\<close>

lemma LoadConfig_no_tls:
  "LoadConfig parse fs file path =
     (if file path = NotExist then Inr (Inr parseDefaultConfig)
      else case file (filepath_Clean path) of
        Contents bs \<Rightarrow>
          go_bind (decode_Config parse bs parseDefaultConfig) (\<lambda>r.
            case r of
              Inl err \<Rightarrow> Inr (Inl err)
            | Inr config \<Rightarrow>
                Inr (Inr (config\<lparr>DohServer := (DohServer config)\<lparr>parsedTls := None\<rparr>,
                  Version := if Version config = [] then ''none'' else Version config\<rparr>)))
      | _ \<Rightarrow> Inr (Inr parseDefaultConfig))"
proof -
  have v: "(let config = c in Inr (Inr (if Version config \<noteq> ConfigVersion \<and> Version config = []
      then config\<lparr>Version := ''none''\<rparr> else config))) =
    Inr (Inr (c\<lparr>Version := if Version c = [] then ''none'' else Version c\<rparr>))" for c :: Config
    by (simp add: Let_def)
  have "go_bind (decode_Config parse bs parseDefaultConfig) f = go_bind (decode_Config parse bs parseDefaultConfig) g"
    if "\<And>err. f (Inl err) = g (Inl err)" and "\<And>c. \<not> tls_enabled (TLS (DohServer c)) \<Longrightarrow> f (Inr c) = g (Inr c)"
    for bs and f g :: "config_error + Config \<Rightarrow> go_panic + config_error + Config"
  proof (cases "decode_Config parse bs parseDefaultConfig")
    case (Inr r)
    then show ?thesis using that decode_Config_tls [of parse bs] by (cases r) auto
  qed simp
  note decoded = this
  show ?thesis
    unfolding LoadConfig_def TlsConfig_parsedConfig_def Let_def
    by (auto split: config_file.split intro!: decoded)
qed

lemma LoadConfig_cases:
  assumes "LoadConfig parse fs file path = Inr (Inr c)"
  obtains "c = parseDefaultConfig"
  | bs c' where "decode_Config parse bs parseDefaultConfig = Inr (Inr c')"
    "c = c'\<lparr>DohServer := (DohServer c')\<lparr>parsedTls := None\<rparr>, Version := if Version c' = [] then ''none'' else Version c'\<rparr>"
proof (cases "file (filepath_Clean path)")
  case (Contents bs)
  show thesis
  proof (cases "file path = NotExist")
    case True
    with assms that(1) show thesis by (simp add: LoadConfig_no_tls)
  next
    case False
    with assms Contents obtain r where r: "decode_Config parse bs parseDefaultConfig = Inr r"
      and rest: "(case r of Inl err \<Rightarrow> Inr (Inl err) | Inr config \<Rightarrow> Inr (Inr (config\<lparr>DohServer := (DohServer config)\<lparr>parsedTls := None\<rparr>,
        Version := if Version config = [] then ''none'' else Version config\<rparr>))) = (Inr (Inr c) :: go_panic + config_error + Config)"
      by (auto simp: LoadConfig_no_tls go_bind_Inr_iff)
    from rest r that(2) show thesis by (cases r) auto
  qed
qed (use assms that(1) in \<open>auto simp: LoadConfig_no_tls split: if_splits\<close>)

section \<open>Properties\<close>

text \<open>
  C34. No configuration file can switch on TLS for the DNS-over-HTTPS server: the fields of
  \<open>TlsConfig\<close> are not exported, so whatever the document says in a table \<open>DnsOverHttpServer.TLS\<close>, every
  configuration that loads has no TLS set-up, and the key files are never read.
\<close>

theorem config_tls_never_enabled:
  assumes "LoadConfig parse fs file path = Inr (Inr c)"
  shows "\<not> tls_enabled (TLS (DohServer c)) \<and> parsedTls (DohServer c) = None \<and>
    (\<forall>fs'. LoadConfig parse fs' file path = Inr (Inr c))"
proof -
  have "\<not> tls_enabled (TLS (DohServer c)) \<and> parsedTls (DohServer c) = None"
    using assms
  proof (cases rule: LoadConfig_cases)
    case 1
    then show ?thesis by (simp add: parseDefaultConfig_def)
  next
    case (2 bs c')
    then show ?thesis using decode_Config_tls [OF 2(1)] by simp
  qed
  moreover have "LoadConfig parse fs' file path = Inr (Inr c)" for fs'
    using assms unfolding LoadConfig_no_tls .
  ultimately show ?thesis by blast
qed

text \<open>The document that the page on DNS over HTTPS gives for serving with TLS.\<close>

definition ex_tls_document :: "toml_expr list" where
  "ex_tls_document =
     [Table [''DnsOverHttpServer''], KeyValue [''enabled''] (VBool True), KeyValue [''bind''] (VString ''0.0.0.0:80''),
      KeyValue [''timeoutMs''] (VInteger 5000),
      Table [''DnsOverHttpServer'', ''TLS''], KeyValue [''enabled''] (VBool True), KeyValue [''certPath''] (VString ''''),
      KeyValue [''keyPath''] (VString ''''), KeyValue [''caPath''] (VString '''')]"

definition ex_no_files :: tls_files where
  "ex_no_files = \<lparr>LoadX509KeyPair = (\<lambda>_ _. None), ReadFile = (\<lambda>_. None), parse_certs = (\<lambda>_. [])\<rparr>"

lemma ex_tls_loads:
  "\<exists>c. LoadConfig (\<lambda>_. (ex_tls_document, True)) ex_no_files (\<lambda>_. Contents []) ''leng.toml'' = Inr (Inr c) \<and> Doh_Enabled (DohServer c)"
proof -
  have "case fromParser ex_tls_document (Config_value parseDefaultConfig) of Inl _ \<Rightarrow> False | Inr v \<Rightarrow> bool_of (at (at v 13) 0)"
    by code_simp
  then show ?thesis
    by (cases "fromParser ex_tls_document (Config_value parseDefaultConfig)")
      (auto simp: LoadConfig_no_tls decode_Config_def Config_of_def DohServer_of_def)
qed

theorem config_tls_never_enabled_witness:
  "\<exists>c. LoadConfig (\<lambda>_. (ex_tls_document, True)) ex_no_files (\<lambda>_. Contents []) ''leng.toml'' = Inr (Inr c) \<and>
     Doh_Enabled (DohServer c) \<and> parsedTls (DohServer c) = None"
proof -
  obtain c where c: "LoadConfig (\<lambda>_. (ex_tls_document, True)) ex_no_files (\<lambda>_. Contents []) ''leng.toml'' = Inr (Inr c)"
    "Doh_Enabled (DohServer c)"
    using ex_tls_loads by blast
  with config_tls_never_enabled [OF c(1)] show ?thesis by blast
qed

definition struct_fields :: "go_value \<Rightarrow> go_field list" where
  "struct_fields v = (case v of GStruct fs \<Rightarrow> map fst fs | _ \<Rightarrow> [])"

text \<open>
  C35. A whitelist at the top level of the file, where the built-in configuration has it, has
  no effect: whatever value it has and however it is spelt, the file loads, fails or panics
  as it does without this entry.
\<close>

theorem toplevel_whitelist_ignored:
  assumes "ToLower k = ''whitelist''" and "list_all (\<lambda>e. \<exists>ks x. e = KeyValue ks x) before"
    and "parse bs = (before @ KeyValue (k # ks) x # rest, ok)" and "parse bs' = (before @ rest, ok)"
  shows "LoadConfig parse fs (\<lambda>_. Contents bs) path = LoadConfig parse fs (\<lambda>_. Contents bs') path"
proof -
  have "\<not> has_field (Config_value parseDefaultConfig) k"
  proof -
    have "''whitelist'' \<notin> set (map (ToLower \<circ> field_key) (struct_fields (Config_value parseDefaultConfig)))"
      by code_simp
    moreover obtain fs where "Config_value parseDefaultConfig = GStruct fs" by (simp add: Config_value_def)
    ultimately show ?thesis
      using assms(1) structFieldPath_key [of "struct_fields (Config_value parseDefaultConfig)" k]
      by (auto simp: has_field_def struct_fields_def)
  qed
  from fromParser_skips [OF this assms(2)] assms(3,4) show ?thesis
    by (simp add: LoadConfig_def decode_Config_def)
qed

theorem toplevel_whitelist_ignored_witness:
  "\<exists>parse. parse [1] = ([KeyValue [''bind''] (VString ''0.0.0.0:53''), KeyValue [''Whitelist''] (VArray [VString ''example.com''])], True) \<and>
     LoadConfig parse ex_no_files (\<lambda>_. Contents [1]) ''leng.toml'' = LoadConfig parse ex_no_files (\<lambda>_. Contents []) ''leng.toml''"
proof -
  let ?bind = "KeyValue [''bind''] (VString ''0.0.0.0:53'')"
  let ?parse = "\<lambda>bs :: byte list. (if bs = [1] then [?bind, KeyValue [''Whitelist''] (VArray [VString ''example.com''])]
    else [?bind], True)"
  have "ToLower ''Whitelist'' = ''whitelist''" by code_simp
  from toplevel_whitelist_ignored [OF this, of "[?bind]" ?parse "[1]" "[]" "VArray [VString ''example.com'']" "[]" True "[]"
      ex_no_files "''leng.toml''"]
  show ?thesis by (intro exI [of _ ?parse]) simp
qed

section \<open>The built-in configuration\<close>

text \<open>The text \<open>defaultConfig\<close>, expression by expression, without its comments.\<close>

definition default_document :: "toml_expr list" where
  "default_document =
     [KeyValue [''version''] (VString ''%s''), KeyValue [''logconfig''] (VString ''stderr@2''),
      KeyValue [''apidebug''] (VBool False), KeyValue [''bind''] (VString ''0.0.0.0:53''),
      KeyValue [''api''] (VString ''127.0.0.1:8080''), KeyValue [''interval''] (VInteger 200),
      KeyValue [''questioncachecap''] (VInteger 5000), KeyValue [''timeout''] (VInteger 5000),
      KeyValue [''whitelist''] (VArray []), KeyValue [''customdnsrecords''] (VArray []),
      KeyValue [''followCnameDepth''] (VInteger 12),
      Table [''Blocking''],
      KeyValue [''nxdomain''] (VBool False), KeyValue [''nullroute''] (VString ''0.0.0.0''),
      KeyValue [''nullroutev6''] (VString ''0:0:0:0:0:0:0:0''), KeyValue [''blocklist''] (VArray []),
      KeyValue [''sources''] (VArray
        [VString ''https://raw.githubusercontent.com/StevenBlack/hosts/master/hosts'',
         VString ''https://sysctl.org/cameleon/hosts'',
         VString ''https://s3.amazonaws.com/lists.disconnect.me/simple_tracking.txt'',
         VString ''https://s3.amazonaws.com/lists.disconnect.me/simple_ad.txt'',
         VString ''https://gitlab.com/quidsup/notrack-blocklists/raw/master/notrack-blocklist.txt'']),
      KeyValue [''sourcedirs''] (VArray [VString ''./sources'']), KeyValue [''sourcesStore''] (VString ''./sources''),
      Table [''Upstream''],
      KeyValue [''DoH''] (VString ''https://cloudflare-dns.com/dns-query''),
      KeyValue [''nameservers''] (VArray [VString ''1.1.1.1:53'', VString ''1.0.0.1:53'']),
      KeyValue [''timeout_s''] (VInteger 5), KeyValue [''expire''] (VInteger 600), KeyValue [''maxcount''] (VInteger 0),
      Table [''Metrics''],
      KeyValue [''enabled''] (VBool False), KeyValue [''path''] (VString ''/metrics''),
      KeyValue [''highCardinalityEnabled''] (VBool False), KeyValue [''histogramsEnabled''] (VBool False),
      KeyValue [''resetPeriodMinutes''] (VInteger 60),
      Table [''DnsOverHttpServer''],
      KeyValue [''enabled''] (VBool False), KeyValue [''bind''] (VString ''0.0.0.0:80''), KeyValue [''timeoutMs''] (VInteger 5000),
      Table [''DnsOverHttpServer'', ''TLS''],
      KeyValue [''enabled''] (VBool False), KeyValue [''certPath''] (VString ''''), KeyValue [''keyPath''] (VString ''''),
      KeyValue [''caPath''] (VString '''')]"

text \<open>The zero value of \<open>Config\<close>.\<close>

definition zero_Config :: Config where
  "zero_Config =
     \<lparr>Version = [], LogConfig = [], Bind = [], API = [], Interval = 0, Timeout = 0, QuestionCacheCap = 0, TTL = 0,
      CustomDNSRecords_texts = [], APIDebug = False,
      Blocking_config =
        \<lparr>Sources = [], SourcesStore = [], SourceDirs = [], Blocklist = [], Whitelist = [], NXDomain = False,
         Nullroute = [], Nullroutev6 = []\<rparr>,
      Upstream_config = \<lparr>UpstreamDoH = [], Nameservers = [], TimeoutS = 0, Expire = 0, Maxcount = 0\<rparr>,
      Metrics_conf =
        \<lparr>Metrics_Enabled = False, Metrics_Path = [], HighCardinalityEnabled = False, ResetPeriodMinutes = 0,
         HistogramsEnabled = False\<rparr>,
      DohServer =
        \<lparr>Doh_Enabled = False, Doh_Bind = [], TimeoutMs = 0,
         TLS = \<lparr>certPath = [], keyPath = [], caPath = [], tls_enabled = False\<rparr>, parsedTls = None\<rparr>,
      FollowCnameDepth = 0\<rparr>"

text \<open>
  The text of the built-in configuration decodes without an error or a panic to the
  values of \<open>parseDefaultConfig\<close>, although it has keys without a field.
\<close>

theorem default_document_decodes:
  "(case fromParser default_document (Config_value zero_Config) of
      Inl e \<Rightarrow> False
    | Inr v \<Rightarrow> (Config_of v zero_Config)\<lparr>Version := ConfigVersion\<rparr> = parseDefaultConfig)"
  by code_simp

end
