(* ===== verification/Rr_Text.thy ===== *)
theory Rr_Text
  imports Dns_Msg Net_IP
begin

text \<open>
  The presentation of a record, \<open>rr.String()\<close> of the DNS library (under src/vendor), which
  the event loop compares to avoid duplicate answers. The payload text of a record type that
  leng never inspects is part of the record (\<open>RdOther\<close>).
\<close>

section \<open>Names\<close>

definition isDigit :: "char \<Rightarrow> bool" where
  "isDigit c = (dec_value c \<noteq> None)"

definition isDDD :: "string \<Rightarrow> bool" where
  "isDDD s \<longleftrightarrow> 3 \<le> length s \<and> isDigit (s ! 0) \<and> isDigit (s ! 1) \<and> isDigit (s ! 2)"

text \<open>Arithmetic on bytes, so the value is reduced modulo 256.\<close>

definition dddToByte :: "string \<Rightarrow> char" where
  "dddToByte s = char_of ((of_char (s ! 0) - 48) * 100 + (of_char (s ! 1) - 48) * 10
     + (of_char (s ! 2) - 48 :: nat))"

definition isDomainNameLabelSpecial :: "char \<Rightarrow> bool" where
  "isDomainNameLabelSpecial b \<longleftrightarrow>
     b \<in> {CHR ''.'', CHR '' '', CHR 0x27, CHR ''@'', CHR '';'', CHR ''('', CHR '')'', CHR 0x22, backslash}"

definition nextByte :: "string \<Rightarrow> nat \<Rightarrow> char \<times> nat" where
  "nextByte s offset =
     (if offset \<ge> length s then (CHR 0x00, 0)
      else if s ! offset \<noteq> backslash then (s ! offset, 1)
      else if length s - offset = 1 then (CHR 0x00, 0)
      else if 3 < length s - offset \<and> isDDD (drop (offset + 1) s)
        then (dddToByte (drop (offset + 1) s), 4)
      else (s ! (offset + 1), 2))"

definition escapeByte :: "char \<Rightarrow> string" where
  "escapeByte b = (let n = of_char b in
     [backslash, digit (n div 100), digit (n div 10 mod 10), digit (n mod 10)])"

text \<open>\<open>dst\<close> stays empty as long as the printed name is the name itself.\<close>

function sprintName_loop :: "string \<Rightarrow> nat \<Rightarrow> string \<Rightarrow> string" where
  "sprintName_loop s i dst =
     (if i < length s then
        (if s ! i = CHR ''.''
         then sprintName_loop s (i + 1) (if dst \<noteq> [] then dst @ ''.'' else dst)
         else let (b, n) = nextByte s i in
           if n = 0 then (if dst = [] then take i s else dst)
           else
             let seed = (if dst = [] then take i s else dst);
                 dst' = (if isDomainNameLabelSpecial b then seed @ [backslash, b]
                         else if of_char b < (32 :: nat) \<or> (126 :: nat) < of_char b then seed @ escapeByte b
                         else if dst \<noteq> [] then dst @ [b] else dst)
             in sprintName_loop s (i + n) dst')
      else if dst = [] then s else dst)"
  by pat_completeness auto
termination
  by (relation "measure (\<lambda>(s, i, dst). length s - i)") auto

declare sprintName_loop.simps [simp del]

definition sprintName :: "string \<Rightarrow> string" where
  "sprintName s = sprintName_loop s 0 []"

text \<open>A name without special characters prints as it is.\<close>

definition simple_name :: "string \<Rightarrow> bool" where
  "simple_name s = list_all (\<lambda>c. c = CHR ''.'' \<or> \<not> isDomainNameLabelSpecial c \<and> 32 \<le> (of_char c :: nat) \<and>
     of_char c \<le> (126 :: nat)) s"

lemma sprintName_loop_simple: "simple_name s \<Longrightarrow> sprintName_loop s i [] = s"
proof (induction "length s - i" arbitrary: i)
  case 0
  then show ?case by (simp add: sprintName_loop.simps)
next
  case (Suc n)
  then have i: "i < length s" by simp
  from Suc.hyps have step: "sprintName_loop s (i + 1) [] = s" using Suc.prems by simp
  have c: "s ! i = CHR ''.'' \<or> \<not> isDomainNameLabelSpecial (s ! i) \<and> 32 \<le> (of_char (s ! i) :: nat) \<and>
      of_char (s ! i) \<le> (126 :: nat)"
    using Suc.prems i by (simp add: simple_name_def list_all_length)
  show ?case
  proof (cases "s ! i = CHR ''.''")
    case True
    with i step show ?thesis by (subst sprintName_loop.simps) simp
  next
    case False
    with c have "s ! i \<noteq> backslash" by (auto simp: isDomainNameLabelSpecial_def)
    with i have "nextByte s i = (s ! i, 1)" by (simp add: nextByte_def)
    with False c i step show ?thesis by (subst sprintName_loop.simps) simp
  qed
qed

lemma sprintName_simple: "simple_name s \<Longrightarrow> sprintName s = s"
  by (simp add: sprintName_def sprintName_loop_simple)

section \<open>Records\<close>

text \<open>A class whose mnemonic is also a type's (\<open>ANY\<close>) prints as a number.\<close>

definition Class_String :: "u16 \<Rightarrow> string" where
  "Class_String c = (let s = ClassToString c in
     if s \<noteq> [] \<and> s \<noteq> ''ANY'' then s else ''CLASS'' @ Itoa (unat c))"

abbreviation (input) "TypeOPT \<equiv> (41 :: u16)"
abbreviation (input) "tab \<equiv> CHR 0x09"

definition RR_Header_String :: "rr_header \<Rightarrow> string" where
  "RR_Header_String h =
     (if Rrtype h = TypeOPT then '';'' else []) @
     sprintName (Hdr_Name h) @ [tab] @
     Itoa (unat (Ttl h)) @ [tab] @
     Class_String (Class h) @ [tab] @
     Type_String (Rrtype h) @ [tab]"

definition To4 :: "ip \<Rightarrow> ip option" where
  "To4 a = (if length a = 4 then Some a
     else if length a = 16 \<and> take 12 a = v4_prefix then Some (drop 12 a) else None)"

definition rr_String :: "rr \<Rightarrow> string" where
  "rr_String r = RR_Header_String (Hdr r) @
     (case Rdata r of
        RdA None \<Rightarrow> []
      | RdA (Some a) \<Rightarrow> IP_String a
      | RdAAAA None \<Rightarrow> []
      | RdAAAA (Some a) \<Rightarrow> if To4 a \<noteq> None then ''::ffff:'' @ IP_String a else IP_String a
      | RdCNAME target \<Rightarrow> sprintName target
      | RdOther txt \<Rightarrow> txt)"

end
