(* ===== verification/Md5.thy ===== *)
theory Md5
  imports Go_Prelude
begin

text \<open>
  \<open>crypto/md5\<close> of Go's standard library, as RFC 1321 defines it: \<open>KeyGen\<close> of src/cache.go
  hashes a question with it to make the key of the reply cache.
\<close>

unbundle bit_operations_syntax

definition md5_K :: "u32 list" where
  "md5_K =
     [0xd76aa478, 0xe8c7b756, 0x242070db, 0xc1bdceee, 0xf57c0faf, 0x4787c62a,
      0xa8304613, 0xfd469501, 0x698098d8, 0x8b44f7af, 0xffff5bb1, 0x895cd7be,
      0x6b901122, 0xfd987193, 0xa679438e, 0x49b40821, 0xf61e2562, 0xc040b340,
      0x265e5a51, 0xe9b6c7aa, 0xd62f105d, 0x2441453, 0xd8a1e681, 0xe7d3fbc8,
      0x21e1cde6, 0xc33707d6, 0xf4d50d87, 0x455a14ed, 0xa9e3e905, 0xfcefa3f8,
      0x676f02d9, 0x8d2a4c8a, 0xfffa3942, 0x8771f681, 0x6d9d6122, 0xfde5380c,
      0xa4beea44, 0x4bdecfa9, 0xf6bb4b60, 0xbebfbc70, 0x289b7ec6, 0xeaa127fa,
      0xd4ef3085, 0x4881d05, 0xd9d4d039, 0xe6db99e5, 0x1fa27cf8, 0xc4ac5665,
      0xf4292244, 0x432aff97, 0xab9423a7, 0xfc93a039, 0x655b59c3, 0x8f0ccc92,
      0xffeff47d, 0x85845dd1, 0x6fa87e4f, 0xfe2ce6e0, 0xa3014314, 0x4e0811a1,
      0xf7537e82, 0xbd3af235, 0x2ad7d2bb, 0xeb86d391]"

definition md5_shift :: "nat list" where
  "md5_shift = concat (replicate 4 [7, 12, 17, 22]) @ concat (replicate 4 [5, 9, 14, 20])
     @ concat (replicate 4 [4, 11, 16, 23]) @ concat (replicate 4 [6, 10, 15, 21])"

type_synonym md5_state = "u32 \<times> u32 \<times> u32 \<times> u32"

definition md5_init :: md5_state where
  "md5_init = (0x67452301, 0xefcdab89, 0x98badcfe, 0x10325476)"

text \<open>The function and the index of the message word of round \<open>i\<close>.\<close>

definition md5_round_fun :: "nat \<Rightarrow> u32 \<Rightarrow> u32 \<Rightarrow> u32 \<Rightarrow> u32 \<times> nat" where
  "md5_round_fun i b c d =
     (if i < 16 then ((b AND c) OR (NOT b AND d), i)
      else if i < 32 then ((d AND b) OR (NOT d AND c), (5 * i + 1) mod 16)
      else if i < 48 then (b XOR c XOR d, (3 * i + 5) mod 16)
      else (c XOR (b OR NOT d), 7 * i mod 16))"

fun md5_round :: "u32 list \<Rightarrow> nat \<Rightarrow> md5_state \<Rightarrow> md5_state" where
  "md5_round m i (a, b, c, d) =
     (case md5_round_fun i b c d of (f, g) \<Rightarrow>
        (d, b + word_rotl (md5_shift ! i) (f + a + md5_K ! i + m ! g), b, c))"

fun md5_add :: "md5_state \<Rightarrow> md5_state \<Rightarrow> md5_state" where
  "md5_add (a, b, c, d) (a', b', c', d') = (a + a', b + b', c + c', d + d')"

definition md5_block :: "u32 list \<Rightarrow> md5_state \<Rightarrow> md5_state" where
  "md5_block m s = md5_add s (fold (md5_round m) [0 ..< 64] s)"

text \<open>Words and bytes in little-endian order.\<close>

fun le_words :: "byte list \<Rightarrow> u32 list" where
  "le_words (w # x # y # z # bs) =
     (ucast w + 0x100 * ucast x + 0x10000 * ucast y + 0x1000000 * ucast z) # le_words bs"
| "le_words _ = []"

definition le_bytes :: "nat \<Rightarrow> nat \<Rightarrow> byte list" where
  "le_bytes k n = map (\<lambda>i. of_nat (n div 256 ^ i mod 256)) [0 ..< k]"

definition md5_pad :: "byte list \<Rightarrow> byte list" where
  "md5_pad bs = bs @ [0x80] @ replicate ((119 - length bs mod 64) mod 64) 0 @ le_bytes 8 (8 * length bs)"

function md5_blocks :: "u32 list \<Rightarrow> md5_state \<Rightarrow> md5_state" where
  "md5_blocks ws s = (if ws = [] then s else md5_blocks (drop 16 ws) (md5_block (take 16 ws) s))"
  by pat_completeness auto
termination
  by (relation "measure (length \<circ> fst)") auto

declare md5_blocks.simps [simp del]

fun md5_digest :: "md5_state \<Rightarrow> byte list" where
  "md5_digest (a, b, c, d) = concat (map (\<lambda>w. le_bytes 4 (unat w)) [a, b, c, d])"

definition md5_Sum :: "byte list \<Rightarrow> byte list" where
  "md5_Sum bs = md5_digest (md5_blocks (le_words (md5_pad bs)) md5_init)"

lemma length_md5_Sum: "length (md5_Sum bs) = 16"
  by (cases "md5_blocks (le_words (md5_pad bs)) md5_init") (simp add: md5_Sum_def le_bytes_def)

text \<open>The padded text is a whole number of blocks.\<close>

lemma length_md5_pad: "length (md5_pad bs) mod 64 = 0"
proof -
  define r where "r = length bs mod 64"
  have r: "r < 64" by (simp add: r_def)
  have "length (md5_pad bs) mod 64 = (r + 9 + (119 - r) mod 64) mod 64"
    unfolding r_def by (simp add: md5_pad_def le_bytes_def add.assoc mod_add_left_eq)
  also have "(119 - r) mod 64 = (if r \<le> 55 then 55 - r else 119 - r)"
    using r le_mod_geq [of 64 "119 - r"] by simp
  finally show ?thesis using r by (simp split: if_splits)
qed

end
