(* ===== verification/Event_Loop.thy ===== *)
theory Event_Loop
  imports LCache Block_Cache Custom_Records Resolver Leng_Config Rr_Text Md5
begin

text \<open>
  The event loop (src/handler.go, and \<open>KeyGen\<close> of src/cache.go): how a request becomes a
  reply. \<open>responseFor\<close> asks the custom records, the block list, the reply cache, the cache
  of failures and the upstream servers, in that order; \<open>doRequest\<close> follows CNAME records
  and writes the reply.

  The state of the process is the record \<open>world\<close>: the event loop's own fields, the record
  heap, the heap of messages (\<open>responseFor\<close> returns a pointer, through which the caller
  and the goroutine that fills the cache share one message), the clock, the metrics and the
  goroutines that have been started and have not run yet. Other goroutines run, and time
  passes, at the points marked \<open>yield\<close>: the field \<open>between\<close> lists, for each such point,
  which pending cache insertions run there and how much time passes, so a theorem for every
  \<open>world\<close> holds for every such interleaving. Theory
  \<open>Workers\<close> cuts the same code into steps, and \<open>Worker_Pool\<close> interleaves the requests that are
  served at the same time.

  \<open>leng_env\<close> holds what is outside the program: the wire codec, the network at each lookup,
  the regular expression matcher and the source of random message ids.
\<close>

section \<open>State\<close>

type_synonym mref = nat

record 're EventLoop =
  el_cache :: "DefaultEntry lengCache"
  el_negCache :: "DefaultEntry lengCache"
  el_active :: bool
  el_config :: Config
  el_blockCache :: "'re MemoryBlockCache"
  el_customDns :: CustomRecordsResolver

datatype env_event = Pass nat | RunSet nat

record 're world =
  evl :: "'re EventLoop"
  lengActive :: bool
  rrs :: rr_heap
  msgs :: "rref msg list"
  clock :: gotime
  mets :: metrics
  lookups :: nat
  ids :: nat
  pending :: "(string \<times> mref) list"
  between :: "env_event list list"

record 're leng_env =
  le_codec :: dns_codec
  le_ups :: "nat \<Rightarrow> upstream_env"
  le_matches :: "'re \<Rightarrow> string \<Rightarrow> bool"
  le_ids :: "nat \<Rightarrow> u16"

definition alloc_msg :: "rref msg \<Rightarrow> 're world \<Rightarrow> mref \<times> 're world" where
  "alloc_msg m w = (length (msgs w), w\<lparr>msgs := msgs w @ [m]\<rparr>)"

definition NewEventLoop ::
  "(string \<Rightarrow> newrr) \<Rightarrow> (record_groups \<Rightarrow> record_groups) \<Rightarrow> Config \<Rightarrow> 're MemoryBlockCache
    \<Rightarrow> rr_heap \<Rightarrow> metrics \<Rightarrow> go_panic + 're EventLoop \<times> rr_heap \<times> metrics" where
  "NewEventLoop NewRR ord config blockCache h met =
     go_bind (NewCustomDNSRecordsFromText NewRR ord (CustomDNSRecords_texts config) h met)
       (\<lambda>(records, h, met).
         go_bind (NewCustomRecordsResolver records) (\<lambda>mux.
           Inr (\<lparr>el_cache = NewDefault (Maxcount (Upstream_config config)),
                 el_negCache = NewDefault (Maxcount (Upstream_config config)),
                 el_active = True, el_config = config, el_blockCache = blockCache,
                 el_customDns = mux\<rparr>, h, met)))"

section \<open>Questions and keys\<close>

record Question_key =
  Qname :: string
  Qtype :: string
  Qclass :: string

definition Question_String :: "Question_key \<Rightarrow> string" where
  "Question_String q = Qname q @ '' '' @ Qclass q @ '' '' @ Qtype q"

definition string_bytes :: "string \<Rightarrow> byte list" where
  "string_bytes s = map (of_nat \<circ> of_char) s"

definition KeyGen :: "Question_key \<Rightarrow> string" where
  "KeyGen q = hex_string (md5_Sum (string_bytes (Question_String q)))"

definition UnFqdn :: "string \<Rightarrow> string" where
  "UnFqdn s = (if IsFqdn s then butlast s else s)"

definition question_key :: "dns_question \<Rightarrow> Question_key" where
  "question_key q = \<lparr>Qname = UnFqdn (q_Name q), Qtype = TypeToString (q_Qtype q),
     Qclass = ClassToString (q_Qclass q)\<rparr>"

abbreviation (input) "notIPQuery \<equiv> (0 :: nat)"
abbreviation (input) "IP4Query \<equiv> (4 :: nat)"
abbreviation (input) "IP6Query \<equiv> (6 :: nat)"

definition isIPQuery :: "dns_question \<Rightarrow> nat" where
  "isIPQuery q =
     (if q_Qclass q \<noteq> ClassINET then notIPQuery
      else if q_Qtype q = TypeA then IP4Query
      else if q_Qtype q = TypeAAAA then IP6Query
      else notIPQuery)"

section \<open>Goroutines in the background\<close>

text \<open>The goroutine that stores a reply: it reads the message when it runs.\<close>

definition cache_goroutine :: "string \<times> mref \<Rightarrow> 're world \<Rightarrow> 're world" where
  "cache_goroutine = (\<lambda>(key, resp) w.
     w\<lparr>evl := (evl w)\<lparr>el_cache := snd (lengCache_Set DefaultEntry_RRs key (Some (msgs w ! resp))
         (clock w) (rrs w) (el_cache (evl w)))\<rparr>\<rparr>)"

fun env_step :: "env_event \<Rightarrow> 're world \<Rightarrow> 're world" where
  "env_step (Pass d) w = w\<lparr>clock := clock w + int d\<rparr>"
| "env_step (RunSet i) w =
     (if i < length (pending w)
      then cache_goroutine (pending w ! i)
             (w\<lparr>pending := take i (pending w) @ drop (Suc i) (pending w)\<rparr>)
      else w)"

definition yield :: "'re world \<Rightarrow> 're world" where
  "yield w = (case between w of [] \<Rightarrow> w | evs # rest \<Rightarrow> fold env_step evs (w\<lparr>between := rest\<rparr>))"

section \<open>The reply to one question\<close>

definition null_rr :: "string \<Rightarrow> u16 \<Rightarrow> u32 \<Rightarrow> rdata \<Rightarrow> rr" where
  "null_rr name t ttl d = \<lparr>Hdr = \<lparr>Hdr_Name = name, Rrtype = t, Class = ClassINET, Ttl = ttl,
     Rdlength = 0\<rparr>, Rdata = d\<rparr>"

definition blockedResponseFor ::
  "Config \<Rightarrow> rref msg \<Rightarrow> nat \<Rightarrow> rr_heap \<Rightarrow> go_panic + rref msg \<times> rr_heap" where
  "blockedResponseFor config req IPQuery h =
     (case Question req of
        [] \<Rightarrow> Inl IndexOutOfRange
      | q # _ \<Rightarrow>
          let m = new_Msg; b = Blocking_config config in
          if NXDomain b then Inr (SetRcode req RcodeNameError m, h)
          else
            let nullroute = ParseIP (Nullroute b);
                nullroutev6 = ParseIP (Nullroutev6 b)
            in
            if IPQuery = IP4Query then
              Inr (m\<lparr>Answer := Answer m @ [length h]\<rparr>,
                   h @ [null_rr (q_Name q) TypeA (TTL config) (RdA nullroute)])
            else if IPQuery = IP6Query then
              Inr (m\<lparr>Answer := Answer m @ [length h]\<rparr>,
                   h @ [null_rr (q_Name q) TypeAAAA (TTL config) (RdAAAA nullroutev6)])
            else Inr (m, h))"

datatype cached_answer = Hit DefaultEntry | NegHit | Miss

definition ask_caches :: "string \<Rightarrow> 're world \<Rightarrow> cached_answer \<times> 're world" where
  "ask_caches key w =
     (case lengCache_Get DefaultEntry_RRs key (clock w) (rrs w) (el_cache (evl w)) of
        (Inr mesg, h, c) \<Rightarrow> (Hit mesg, w\<lparr>rrs := h, evl := (evl w)\<lparr>el_cache := c\<rparr>\<rparr>)
      | (Inl _, h, c) \<Rightarrow>
          let w = w\<lparr>rrs := h, evl := (evl w)\<lparr>el_cache := c\<rparr>\<rparr> in
          (case lengCache_Get DefaultEntry_RRs key (clock w) (rrs w) (el_negCache (evl w)) of
             (Inl _, h, c) \<Rightarrow> (Miss, w\<lparr>rrs := h, evl := (evl w)\<lparr>el_negCache := c\<rparr>\<rparr>)
           | (Inr _, h, c) \<Rightarrow> (NegHit, w\<lparr>rrs := h, evl := (evl w)\<lparr>el_negCache := c\<rparr>\<rparr>)))"

definition lookup_call ::
  "'re leng_env \<Rightarrow> string \<Rightarrow> rref msg \<Rightarrow> 're world \<Rightarrow> go_panic + (ResolvError + rref msg) \<times> 're world" where
  "lookup_call env Net req w =
     (let cfg = el_config (evl w) in
      go_bind (Lookup (le_codec env) (le_ups env (lookups w)) Net (wire (rrs w) req) (Timeout cfg)
          (Interval cfg) (Nameservers (Upstream_config cfg)) (UpstreamDoH (Upstream_config cfg)) (mets w))
        (\<lambda>(res, met).
          let w = w\<lparr>mets := met, lookups := Suc (lookups w)\<rparr> in
          case res of
            Inl err \<Rightarrow> Inr (Inl err, w)
          | Inr m \<Rightarrow> (case receive m (rrs w) of (resp, h) \<Rightarrow> Inr (Inr resp, w\<lparr>rrs := h\<rparr>))))"

definition do_Lookup ::
  "'re leng_env \<Rightarrow> string \<Rightarrow> rref msg \<Rightarrow> 're world \<Rightarrow> go_panic + (ResolvError + rref msg) \<times> 're world" where
  "do_Lookup env Net req w = go_bind (lookup_call env Net req w) (\<lambda>(res, w). Inr (res, yield w))"

definition cache_failure :: "string \<Rightarrow> 're world \<Rightarrow> 're world" where
  "cache_failure key w = w\<lparr>evl := (evl w)\<lparr>el_negCache := snd (lengCache_Set DefaultEntry_RRs key
     (Some new_Msg) (clock w) (rrs w) (el_negCache (evl w)))\<rparr>\<rparr>"

type_synonym answer = "mref option \<times> bool \<times> bool \<times> bool"

text \<open>
  From the first \<open>Lookup\<close> to the end. The loop that computes the smallest time to live only
  serves a log message.
\<close>

definition ask_upstream ::
  "'re leng_env \<Rightarrow> string \<Rightarrow> rref msg \<Rightarrow> string \<Rightarrow> nat \<Rightarrow> 're world \<Rightarrow> go_panic + answer \<times> 're world" where
  "ask_upstream env Net req key IPQuery w =
     go_bind (do_Lookup env Net req w) (\<lambda>(res, w).
       case res of
         Inl err \<Rightarrow> Inr ((None, False, False, False), cache_failure key w)
       | Inr resp \<Rightarrow>
           go_bind (if Truncated resp \<and> Net = ''udp'' then do_Lookup env ''tcp'' req w
                    else Inr (Inr resp, w))
             (\<lambda>(res, w).
               case res of
                 Inl err \<Rightarrow> Inr ((None, False, False, False), cache_failure key w)
               | Inr resp \<Rightarrow>
                   (case alloc_msg resp w of (r, w) \<Rightarrow>
                     let w = (if IPQuery > 0 \<and> length (Answer resp) > 0
                              then w\<lparr>pending := pending w @ [(key, r)]\<rparr> else w)
                     in Inr ((Some r, True, False, False), yield w))))"

definition answer_question ::
  "'re leng_env \<Rightarrow> string \<Rightarrow> rref msg \<Rightarrow> dns_question \<Rightarrow> 're world \<Rightarrow> go_panic + answer \<times> 're world" where
  "answer_question env Net req q w =
     (let Q = question_key q;
          IPQuery = isIPQuery q;
          w = yield w;
          blocked = (IPQuery > 0 \<and> lengActive w \<and>
            MemoryBlockCache_Exists (le_matches env) (Qname Q) (el_blockCache (evl w)))
      in
      if blocked then
        go_bind (blockedResponseFor (el_config (evl w)) req IPQuery (rrs w)) (\<lambda>(m, h).
          case alloc_msg m (w\<lparr>rrs := h\<rparr>) of (r, w) \<Rightarrow> Inr ((Some r, True, blocked, False), w))
      else
        let key = KeyGen Q in
        if IPQuery > 0 then
          (case ask_caches key w of
             (Hit mesg, w) \<Rightarrow>
               (case alloc_msg (mesg\<lparr>MsgId := MsgId req\<rparr>) w of
                  (r, w) \<Rightarrow> Inr ((Some r, True, blocked, True), w))
           | (NegHit, w) \<Rightarrow> Inr ((None, False, True, False), w)
           | (Miss, w) \<Rightarrow> ask_upstream env Net req key IPQuery w)
        else ask_upstream env Net req key IPQuery w)"

text \<open>The deferred function: it turns the message into a reply to \<open>req\<close> and counts it.\<close>

definition finish_reply ::
  "rref msg \<Rightarrow> ip option \<Rightarrow> answer \<Rightarrow> 're world \<Rightarrow> go_panic + answer \<times> 're world" where
  "finish_reply req remote = (\<lambda>(resp, success, blocked, cached) w.
     case resp of
       None \<Rightarrow> Inr ((resp, success, blocked, cached), w)
     | Some r \<Rightarrow>
         let w = w\<lparr>msgs := (msgs w)[r := SetReply req (msgs w ! r)]\<rparr> in
         (case remote of
            None \<Rightarrow> Inr ((resp, success, blocked, cached), w)
          | Some ip \<Rightarrow> go_bind (ReportDNSRespond ip (msgs w ! r) blocked cached (mets w))
              (\<lambda>met. Inr ((resp, success, blocked, cached), w\<lparr>mets := met\<rparr>))))"

text \<open>The type assertion on the remote address panics for a transport it does not fit.\<close>

fun remote_ip :: "string \<Rightarrow> net_addr \<Rightarrow> go_panic + ip option" where
  "remote_ip Net (TCPAddr i p) =
     (if Net = ''tcp'' \<or> Net = ''http'' then Inr i else Inl TypeAssertion)"
| "remote_ip Net (UDPAddr i p) =
     (if Net = ''tcp'' \<or> Net = ''http'' then Inl TypeAssertion else Inr i)"

definition responseFor ::
  "'re leng_env \<Rightarrow> string \<Rightarrow> rref msg \<Rightarrow> net_addr \<Rightarrow> net_addr \<Rightarrow> 're world \<Rightarrow> go_panic + answer \<times> 're world" where
  "responseFor env Net req local remote w =
     go_bind (remote_ip Net remote) (\<lambda>ip.
       go_bind (CustomRecordsResolver_Resolve (el_customDns (evl w)) req local remote (mets w))
         (\<lambda>(custom, met).
           let w = w\<lparr>mets := met\<rparr> in
           case custom of
             Some m \<Rightarrow> (case alloc_msg m w of (r, w) \<Rightarrow> Inr ((Some r, True, False, True), w))
           | None \<Rightarrow>
               (case Question req of
                  [] \<Rightarrow> Inr ((None, False, False, False), w)
                | q # _ \<Rightarrow> go_bind (answer_question env Net req q w)
                    (\<lambda>(ans, w). finish_reply req ip ans w))))"

section \<open>The request\<close>

definition isA :: "rr \<Rightarrow> bool" where
  "isA r \<longleftrightarrow> Rrtype (Hdr r) = TypeA \<or> Rrtype (Hdr r) = TypeAAAA"

definition isCname :: "rr \<Rightarrow> bool" where
  "isCname r \<longleftrightarrow> Rrtype (Hdr r) = TypeCNAME"

fun cname_target :: "rr \<Rightarrow> string option" where
  "cname_target r = (case Rdata r of RdCNAME t \<Rightarrow> Some t | _ \<Rightarrow> None)"

text \<open>A \<open>*dns.CNAME\<close> is represented by its target, the only field the caller reads.\<close>

definition canFollow :: "rr_heap \<Rightarrow> rref msg \<Rightarrow> rref msg \<Rightarrow> go_panic + string list \<times> bool" where
  "canFollow h req resp =
     (case Question req of
        [] \<Rightarrow> Inl IndexOutOfRange
      | q # _ \<Rightarrow>
          if q_Qtype q = TypeCNAME then Inr ([], False)
          else
            let answers = map ((!) h) (Answer resp);
                ok = (\<not> list_ex isA answers \<and> list_ex isCname answers);
                cnames = List.map_filter (\<lambda>r. if isCname r then cname_target r else None) answers
            in Inr (cnames, ok \<and> length cnames \<noteq> 0))"

text \<open>The inner loop: the new answers, those that print differently from all before.\<close>

fun append_answers :: "rr_heap \<Rightarrow> bool \<Rightarrow> rref list \<Rightarrow> rref list \<Rightarrow> rref list" where
  "append_answers h ok [] ans = ans"
| "append_answers h ok (f # fs) ans =
     append_answers h ok fs
       (if ok \<and> \<not> list_ex (\<lambda>r. rr_String (h ! r) = rr_String (h ! f)) ans then ans @ [f] else ans)"

fun follow_cnames ::
  "'re leng_env \<Rightarrow> string \<Rightarrow> rref msg \<Rightarrow> net_addr \<Rightarrow> net_addr \<Rightarrow> mref \<Rightarrow> string list \<Rightarrow> 're world
    \<Rightarrow> go_panic + 're world" where
  "follow_cnames env Net req local remote resp [] w = Inr w"
| "follow_cnames env Net req local remote resp (target # cnames) w =
     (case Question req of
        [] \<Rightarrow> Inl IndexOutOfRange
      | q # _ \<Rightarrow>
          let r = SetQuestion (le_ids env (ids w)) target (q_Qtype q) new_Msg;
              w = w\<lparr>ids := Suc (ids w)\<rparr>
          in
          go_bind (responseFor env Net r local remote w) (\<lambda>((followed, ok, _, _), w).
            case followed of
              None \<Rightarrow> Inl NilDereference
            | Some f \<Rightarrow>
                let w = yield w;
                    ans = append_answers (rrs w) ok (Answer (msgs w ! f)) (Answer (msgs w ! resp));
                    w = w\<lparr>msgs := (msgs w)[resp := (msgs w ! resp)\<lparr>Answer := ans\<rparr>]\<rparr>
                in follow_cnames env Net req local remote resp cnames w))"

text \<open>The outer loop runs at most \<open>FollowCnameDepth\<close> times.\<close>

fun follow_rounds ::
  "nat \<Rightarrow> 're leng_env \<Rightarrow> string \<Rightarrow> rref msg \<Rightarrow> net_addr \<Rightarrow> net_addr \<Rightarrow> mref \<Rightarrow> 're world
    \<Rightarrow> go_panic + 're world" where
  "follow_rounds 0 env Net req local remote resp w = Inr w"
| "follow_rounds (Suc n) env Net req local remote resp w =
     go_bind (canFollow (rrs w) req (msgs w ! resp)) (\<lambda>(cnames, ok).
       if \<not> ok then Inr w
       else go_bind (follow_cnames env Net req local remote resp cnames w)
              (follow_rounds n env Net req local remote resp))"

text \<open>
  A \<open>dns.ResponseWriter\<close> as the handler sees it: two addresses, the messages that were handed to
  its \<open>WriteMsg\<close>, whether it is closed. \<open>WriteMsg\<close> may fail or panic (a message that cannot be
  packed, a socket that is gone); \<open>WriteReplyMsg\<close> logs that and returns as if it had not, so
  the state of the handler does not depend on it. Whether a message gets through is the
  subject of \<open>Wire_Codec\<close> and, for DNS over HTTPS, of \<open>Doh_Server\<close>.
\<close>

record response_writer =
  w_local :: net_addr
  w_remote :: net_addr
  w_written :: "rr msg list"
  w_closed :: bool

definition WriteReplyMsg :: "rr_heap \<Rightarrow> rref msg \<Rightarrow> response_writer \<Rightarrow> response_writer" where
  "WriteReplyMsg h message w = w\<lparr>w_written := w_written w @ [wire h message]\<rparr>"

definition doRequest ::
  "'re leng_env \<Rightarrow> string \<Rightarrow> response_writer \<Rightarrow> rref msg \<Rightarrow> 're world
    \<Rightarrow> go_panic + response_writer \<times> 're world" where
  "doRequest env Net wr req w =
     go_bind (responseFor env Net req (w_local wr) (w_remote wr) w) (\<lambda>((resp, ok, _, _), w).
       case (ok, resp) of
         (True, Some r) \<Rightarrow>
           go_bind (follow_rounds (unat (FollowCnameDepth (el_config (evl w)))) env Net req
               (w_local wr) (w_remote wr) r w)
             (\<lambda>w. Inr ((WriteReplyMsg (rrs w) (msgs w ! r) wr)\<lparr>w_closed := True\<rparr>, w))
       | (True, None) \<Rightarrow> Inl NilDereference
       | (False, _) \<Rightarrow>
           let m = SetRcode req RcodeServerFailure (SetReply req new_Msg);
               wr = WriteReplyMsg (rrs w) m wr
           in go_bind (ReportDNSResponse (w_remote wr) m False (mets w))
                (\<lambda>met. Inr (wr\<lparr>w_closed := True\<rparr>, w\<lparr>mets := met\<rparr>)))"

section \<open>Well-formed states\<close>

text \<open>
  No reference dangles, both caches keep their invariant, and the cache of failures holds
  entries without records only.
\<close>

definition entries_ok :: "DefaultEntry lengCache \<Rightarrow> rr_heap \<Rightarrow> bool" where
  "entries_ok c h \<longleftrightarrow> lcache_inv c \<and> (\<forall>k e t. lcache_look c k = Some (e, t) \<longrightarrow> refs_ok (Answer e) h)"

definition failures_ok :: "DefaultEntry lengCache \<Rightarrow> bool" where
  "failures_ok c \<longleftrightarrow> lcache_inv c \<and> (\<forall>k e t. lcache_look c k = Some (e, t) \<longrightarrow> Answer e = [])"

definition world_ok :: "'re world \<Rightarrow> bool" where
  "world_ok w \<longleftrightarrow>
     entries_ok (el_cache (evl w)) (rrs w) \<and>
     failures_ok (el_negCache (evl w)) \<and>
     (\<forall>m\<in>set (msgs w). refs_ok (Answer m) (rrs w)) \<and>
     (\<forall>r\<in>custom_refs (el_customDns (evl w)). r < length (rrs w)) \<and>
     list_all (\<lambda>g. snd g < length (msgs w)) (pending w)"

text \<open>
  What no operation undoes: records are only added and only their time to live is rewritten,
  messages are only added, the clock does not run backwards, and the configuration, the block
  list and the custom records stay as they are.
\<close>

definition heap_ext :: "rr_heap \<Rightarrow> rr_heap \<Rightarrow> bool" where
  "heap_ext h h' \<longleftrightarrow> length h \<le> length h' \<and> (\<forall>i<length h. set_Ttl 0 (h' ! i) = set_Ttl 0 (h ! i))"

definition ext :: "'re world \<Rightarrow> 're world \<Rightarrow> bool" where
  "ext w w' \<longleftrightarrow>
     lengActive w' = lengActive w \<and> el_config (evl w') = el_config (evl w) \<and>
     el_blockCache (evl w') = el_blockCache (evl w) \<and> el_customDns (evl w') = el_customDns (evl w) \<and>
     el_active (evl w') = el_active (evl w) \<and> clock w \<le> clock w' \<and> lookups w \<le> lookups w' \<and>
     heap_ext (rrs w) (rrs w') \<and> prefix (msgs w) (msgs w')"

lemma heap_ext_refl [simp]: "heap_ext h h"
  by (simp add: heap_ext_def)

lemma heap_ext_trans: "heap_ext a b \<Longrightarrow> heap_ext b c \<Longrightarrow> heap_ext a c"
  by (simp add: heap_ext_def)

lemma heap_ext_append: "heap_ext h (h @ h')"
  by (simp add: heap_ext_def nth_append)

lemma set_Ttl_set_Ttl [simp]: "set_Ttl a (set_Ttl b r) = set_Ttl a r"
  by (simp add: set_Ttl_def)

lemma heap_ext_store_ttls: "heap_ext h (store_ttls t rs h)"
proof (induction rs arbitrary: h)
  case (Cons r rs)
  have "heap_ext h (h[r := set_Ttl t (h ! r)])"
    by (auto simp: heap_ext_def nth_list_update_eq nth_list_update_neq)
      (metis nth_list_update_eq nth_list_update_neq set_Ttl_set_Ttl)
  with Cons show ?case by (auto intro: heap_ext_trans)
qed simp

lemma heap_ext_length: "heap_ext h h' \<Longrightarrow> length h \<le> length h'"
  by (simp add: heap_ext_def)

lemma refs_ok_heap_ext: "refs_ok rs h \<Longrightarrow> heap_ext h h' \<Longrightarrow> refs_ok rs h'"
  by (auto simp: heap_ext_def intro: refs_ok_mono)

lemma entries_ok_heap_ext: "entries_ok c h \<Longrightarrow> heap_ext h h' \<Longrightarrow> entries_ok c h'"
  by (auto simp: entries_ok_def intro: refs_ok_heap_ext)

lemma ext_refl [simp]: "ext w w"
  by (simp add: ext_def)

lemma ext_trans: "ext a b \<Longrightarrow> ext b c \<Longrightarrow> ext a c"
  by (auto simp: ext_def intro: heap_ext_trans prefix_order.trans)

text \<open>An extension of the heap keeps a state well formed.\<close>

lemma world_ok_heap:
  assumes "world_ok w" and "heap_ext (rrs w) h"
  shows "world_ok (w\<lparr>rrs := h\<rparr>)"
  using assms heap_ext_length [OF assms(2)]
  by (fastforce simp: world_ok_def intro: entries_ok_heap_ext refs_ok_heap_ext)

lemma world_ok_fields [simp]:
  "world_ok (w\<lparr>mets := m\<rparr>) = world_ok w"
  "world_ok (w\<lparr>lookups := n\<rparr>) = world_ok w"
  "world_ok (w\<lparr>ids := n\<rparr>) = world_ok w"
  "world_ok (w\<lparr>clock := t\<rparr>) = world_ok w"
  "world_ok (w\<lparr>between := b\<rparr>) = world_ok w"
  by (simp_all add: world_ok_def)

lemma ext_fields [simp]:
  "ext w (w\<lparr>mets := m\<rparr>)"
  "ext w (w\<lparr>ids := n\<rparr>)"
  "ext w (w\<lparr>between := b\<rparr>)"
  "ext w (w\<lparr>pending := p\<rparr>)"
  "ext w (w\<lparr>rrs := h\<rparr>) = heap_ext (rrs w) h"
  by (simp_all add: ext_def)

subsection \<open>Caches\<close>

lemma Set_look:
  assumes inv: "lcache_inv c" and s: "c' = snd (lengCache_Set DefaultEntry_RRs k (Some e) now h c)"
  shows "lcache_inv c' \<and> (lcache_look c' k' = Some (x, t) \<longrightarrow> x = e \<or> lcache_look c k' = Some (x, t))"
proof -
  obtain err where s': "lengCache_Set DefaultEntry_RRs k (Some e) now h c = (err, c')"
    using s by (metis prod.collapse)
  have "lcache_look c' = lcache_look c \<or>
      lcache_look c' = (lcache_look c)(ToLower k \<mapsto> (e, now + minTtlFor DefaultEntry_RRs h e))"
    using lc.put_full [OF inv, of k e now h] lc.put_ok [OF inv, of k e now h] s' by auto
  with lc.put_inv [OF inv s'] show ?thesis by (auto split: if_splits)
qed

lemma Set_entries_ok:
  "entries_ok c h \<Longrightarrow> refs_ok (Answer e) h \<Longrightarrow>
     entries_ok (snd (lengCache_Set DefaultEntry_RRs k (Some e) now h c)) h"
  using Set_look [of c, OF _ refl] unfolding entries_ok_def by blast

text \<open>\<open>Get\<close> shrinks the cache at most, and rewrites times to live only.\<close>

lemma Get_effect:
  assumes "lcache_inv c" and "lengCache_Get DefaultEntry_RRs k now h c = (r, h', c')"
  shows "lcache_inv c' \<and> heap_ext h h' \<and>
    (\<forall>k' x. lcache_look c' k' = Some x \<longrightarrow> lcache_look c k' = Some x)"
  using lc.get_cases [OF assms(1), of k now h] assms
  by (auto simp: lc.inv_rem lc.look_rem heap_ext_store_ttls split: if_splits)

lemma Get_hit:
  assumes "lcache_inv c" and "lengCache_Get DefaultEntry_RRs k now h c = (Inr e, h', c')"
  shows "\<exists>t. lcache_look c (ToLower k) = Some (e, t) \<and> now \<le> t"
  using lc.get_cases [OF assms(1), of k now h] assms(2) by auto

subsection \<open>Steps of the background\<close>

lemma cache_goroutine_ok:
  assumes ok: "world_ok w" and m: "snd g < length (msgs w)"
  shows "world_ok (cache_goroutine g w) \<and> ext w (cache_goroutine g w)"
proof -
  obtain k r where g: "g = (k, r)" by (cases g)
  have "refs_ok (Answer (msgs w ! r)) (rrs w)"
    using ok m g by (simp add: world_ok_def)
  with ok have "entries_ok (snd (lengCache_Set DefaultEntry_RRs k (Some (msgs w ! r)) (clock w) (rrs w)
      (el_cache (evl w)))) (rrs w)"
    by (simp add: world_ok_def Set_entries_ok)
  with ok g show ?thesis by (simp add: world_ok_def cache_goroutine_def ext_def)
qed

lemma env_step_ok:
  assumes ok: "world_ok w"
  shows "world_ok (env_step e w) \<and> ext w (env_step e w)"
proof (cases e)
  case (Pass d)
  with ok show ?thesis by (simp add: ext_def)
next
  case (RunSet i)
  show ?thesis
  proof (cases "i < length (pending w)")
    case True
    let ?w = "w\<lparr>pending := take i (pending w) @ drop (Suc i) (pending w)\<rparr>"
    have "world_ok ?w"
      using ok by (auto simp: world_ok_def list_all_iff dest: in_set_takeD in_set_dropD)
    moreover have "snd (pending w ! i) < length (msgs ?w)"
      using ok nth_mem [OF True] by (simp add: world_ok_def list_all_iff)
    ultimately show ?thesis
      using True RunSet cache_goroutine_ok [of ?w "pending w ! i"] ext_trans [OF ext_fields(4)]
      by auto
  qed (use RunSet ok in simp)
qed

lemma yield_ok:
  assumes "world_ok w"
  shows "world_ok (yield w) \<and> ext w (yield w)"
proof -
  have "world_ok (fold env_step evs v) \<and> ext v (fold env_step evs v)" if "world_ok v" for evs and v :: "'a world"
    using that
  proof (induction evs arbitrary: v)
    case (Cons e evs)
    with env_step_ok [of v e] show ?case by (auto intro: ext_trans)
  qed simp
  then have "world_ok (fold env_step evs (w\<lparr>between := b\<rparr>)) \<and> ext w (fold env_step evs (w\<lparr>between := b\<rparr>))"
    for evs b
    using assms ext_trans [OF ext_fields(3) [of w b]] by simp
  then show ?thesis using assms by (simp add: yield_def split: list.split)
qed

subsection \<open>Steps of a request\<close>

lemma alloc_msg_ok:
  assumes "world_ok w" "refs_ok (Answer m) (rrs w)" "alloc_msg m w = (r, w')"
  shows "world_ok w' \<and> ext w w' \<and> r = length (msgs w) \<and> msgs w' = msgs w @ [m] \<and> rrs w' = rrs w \<and>
    mets w' = mets w \<and> pending w' = pending w"
  using assms by (fastforce simp: alloc_msg_def world_ok_def ext_def list_all_iff)

lemma cache_Get_ok:
  assumes ok: "world_ok w"
    and g: "lengCache_Get DefaultEntry_RRs key (clock w) (rrs w) (el_cache (evl w)) = (r, h, c)"
  shows "world_ok (w\<lparr>rrs := h, evl := (evl w)\<lparr>el_cache := c\<rparr>\<rparr>) \<and> ext w (w\<lparr>rrs := h, evl := (evl w)\<lparr>el_cache := c\<rparr>\<rparr>) \<and>
    (\<forall>e. r = Inr e \<longrightarrow> refs_ok (Answer e) h)"
proof -
  have ent: "entries_ok (el_cache (evl w)) (rrs w)" using ok by (simp add: world_ok_def)
  then have inv: "lcache_inv (el_cache (evl w))" by (simp add: entries_ok_def)
  have G: "lcache_inv c" "heap_ext (rrs w) h"
    "\<forall>k' x. lcache_look c k' = Some x \<longrightarrow> lcache_look (el_cache (evl w)) k' = Some x"
    using Get_effect [OF inv g] by blast+
  have "refs_ok (Answer e) h" if "r = Inr e" for e
    using Get_hit [OF inv] g that ent refs_ok_heap_ext [OF _ G(2)] unfolding entries_ok_def by blast
  moreover have "entries_ok c h"
    using entries_ok_heap_ext [OF ent G(2)] G(1,3) unfolding entries_ok_def by blast
  with world_ok_heap [OF ok G(2)] have "world_ok (w\<lparr>rrs := h, evl := (evl w)\<lparr>el_cache := c\<rparr>\<rparr>)"
    by (simp add: world_ok_def)
  ultimately show ?thesis using G(2) by (simp add: ext_def)
qed

lemma negCache_Get_ok:
  assumes ok: "world_ok w"
    and g: "lengCache_Get DefaultEntry_RRs key (clock w) (rrs w) (el_negCache (evl w)) = (r, h, c)"
  shows "world_ok (w\<lparr>rrs := h, evl := (evl w)\<lparr>el_negCache := c\<rparr>\<rparr>) \<and> ext w (w\<lparr>rrs := h, evl := (evl w)\<lparr>el_negCache := c\<rparr>\<rparr>)"
proof -
  have neg: "failures_ok (el_negCache (evl w))" using ok by (simp add: world_ok_def)
  then have inv: "lcache_inv (el_negCache (evl w))" by (simp add: failures_ok_def)
  have G: "lcache_inv c" "heap_ext (rrs w) h"
    "\<forall>k' x. lcache_look c k' = Some x \<longrightarrow> lcache_look (el_negCache (evl w)) k' = Some x"
    using Get_effect [OF inv g] by blast+
  then have "failures_ok c" using neg unfolding failures_ok_def by blast
  with world_ok_heap [OF ok G(2)] G(2) show ?thesis by (simp add: world_ok_def ext_def)
qed

lemma ask_caches_ok:
  assumes ok: "world_ok w" and res: "ask_caches key w = (r, w')"
  shows "world_ok w' \<and> ext w w' \<and> mets w' = mets w \<and> msgs w' = msgs w \<and>
    (\<forall>e. r = Hit e \<longrightarrow> refs_ok (Answer e) (rrs w'))"
proof -
  obtain r1 h1 c1 where g: "lengCache_Get DefaultEntry_RRs key (clock w) (rrs w) (el_cache (evl w)) = (r1, h1, c1)"
    using prod_cases3 by blast
  let ?w1 = "w\<lparr>rrs := h1, evl := (evl w)\<lparr>el_cache := c1\<rparr>\<rparr>"
  note G = cache_Get_ok [OF ok g]
  show ?thesis
  proof (cases r1)
    case (Inr e)
    then have "r = Hit e" "w' = ?w1" using res g by (auto simp: ask_caches_def)
    then show ?thesis using G Inr by simp
  next
    case (Inl err)
    obtain r2 h2 c2 where g2: "lengCache_Get DefaultEntry_RRs key (clock ?w1) (rrs ?w1) (el_negCache (evl ?w1)) = (r2, h2, c2)"
      using prod_cases3 by blast
    have w': "w' = ?w1\<lparr>rrs := h2, evl := (evl ?w1)\<lparr>el_negCache := c2\<rparr>\<rparr>" "r = NegHit \<or> r = Miss"
      using res g Inl g2 by (auto simp: ask_caches_def Let_def split: sum.splits)
    have "ext w w'" using negCache_Get_ok [OF _ g2] G ext_trans unfolding w'(1) by blast
    then show ?thesis using negCache_Get_ok [OF _ g2] G w' by auto
  qed
qed

text \<open>What the background leaves alone.\<close>

lemma fold_invariant: "(\<And>x s. f (g x s) = f s) \<Longrightarrow> f (fold g xs s) = f s"
  by (induction xs arbitrary: s) simp_all

lemma yield_frame [simp]:
  "mets (yield w) = mets w" "msgs (yield w) = msgs w" "rrs (yield w) = rrs w"
  "lookups (yield w) = lookups w" "ids (yield w) = ids w" "lengActive (yield w) = lengActive w"
  "el_negCache (evl (yield w)) = el_negCache (evl w)" "el_config (evl (yield w)) = el_config (evl w)"
  "el_blockCache (evl (yield w)) = el_blockCache (evl w)" "el_customDns (evl (yield w)) = el_customDns (evl w)"
proof -
  have step: "mets (env_step e v) = mets v" "msgs (env_step e v) = msgs v" "rrs (env_step e v) = rrs v"
    "lookups (env_step e v) = lookups v" "ids (env_step e v) = ids v" "lengActive (env_step e v) = lengActive v"
    "el_negCache (evl (env_step e v)) = el_negCache (evl v)" "el_config (evl (env_step e v)) = el_config (evl v)"
    "el_blockCache (evl (env_step e v)) = el_blockCache (evl v)" "el_customDns (evl (env_step e v)) = el_customDns (evl v)"
    for e and v :: "'a world"
    by (cases e; simp add: cache_goroutine_def split: prod.split)+
  note fr = fold_invariant [of _ env_step]
  show "mets (yield w) = mets w" "msgs (yield w) = msgs w" "rrs (yield w) = rrs w"
    "lookups (yield w) = lookups w" "ids (yield w) = ids w" "lengActive (yield w) = lengActive w"
    "el_negCache (evl (yield w)) = el_negCache (evl w)" "el_config (evl (yield w)) = el_config (evl w)"
    "el_blockCache (evl (yield w)) = el_blockCache (evl w)" "el_customDns (evl (yield w)) = el_customDns (evl w)"
    by (simp_all add: yield_def fr [of mets, OF step(1)] fr [of msgs, OF step(2)] fr [of rrs, OF step(3)]
        fr [of lookups, OF step(4)] fr [of ids, OF step(5)] fr [of lengActive, OF step(6)]
        fr [of "\<lambda>v. el_negCache (evl v)", OF step(7)] fr [of "\<lambda>v. el_config (evl v)", OF step(8)]
        fr [of "\<lambda>v. el_blockCache (evl v)", OF step(9)] fr [of "\<lambda>v. el_customDns (evl v)", OF step(10)]
        split: list.split)
qed

lemma lookup_call_ok:
  assumes ok: "world_ok w" and res: "lookup_call env Net req w = Inr (r, w')"
  shows "world_ok w' \<and> ext w w' \<and> msgs w' = msgs w \<and> lookups w' = Suc (lookups w) \<and>
    (low_cardinality (mets w) \<longrightarrow> low_cardinality (mets w')) \<and>
    (\<forall>m. r = Inr m \<longrightarrow> refs_ok (Answer m) (rrs w'))"
proof -
  let ?cfg = "el_config (evl w)"
  obtain r0 met where L: "Lookup (le_codec env) (le_ups env (lookups w)) Net (wire (rrs w) req) (Timeout ?cfg)
      (Interval ?cfg) (Nameservers (Upstream_config ?cfg)) (UpstreamDoH (Upstream_config ?cfg)) (mets w) = Inr (r0, met)"
    using res by (auto simp: lookup_call_def Let_def go_bind_Inr_iff)
  let ?w = "w\<lparr>mets := met, lookups := Suc (lookups w)\<rparr>"
  have low: "low_cardinality (mets w) \<longrightarrow> low_cardinality met"
    using low_cardinality_Lookup [OF _ L] by blast
  show ?thesis
  proof (cases r0)
    case (Inl err)
    with res L have "w' = ?w" "r = Inl err" by (auto simp: lookup_call_def Let_def)
    with ok low show ?thesis by (simp add: ext_def)
  next
    case (Inr m)
    obtain resp h where rc: "receive m (rrs w) = (resp, h)" by fastforce
    have h: "heap_ext (rrs w) h" "refs_ok (Answer resp) h"
      using receive_fresh [OF rc] by (auto simp: heap_ext_append)
    from Inr res L rc have w': "w' = ?w\<lparr>rrs := h\<rparr>" "r = Inr resp"
      by (auto simp: lookup_call_def Let_def)
    have "world_ok (?w\<lparr>rrs := h\<rparr>)" using world_ok_heap [of ?w h] ok h by simp
    then show ?thesis using low w' h by (simp add: ext_def)
  qed
qed

lemma do_Lookup_ok:
  assumes ok: "world_ok w" and res: "do_Lookup env Net req w = Inr (r, w')"
  shows "world_ok w' \<and> ext w w' \<and> msgs w' = msgs w \<and> lookups w < lookups w' \<and>
    (low_cardinality (mets w) \<longrightarrow> low_cardinality (mets w')) \<and>
    (\<forall>m. r = Inr m \<longrightarrow> refs_ok (Answer m) (rrs w'))"
proof -
  obtain v where l: "lookup_call env Net req w = Inr (r, v)" and w': "w' = yield v"
    using res by (auto simp: do_Lookup_def go_bind_Inr_iff)
  from lookup_call_ok [OF ok l] yield_ok [of v] show ?thesis by (auto simp: w' intro: ext_trans)
qed

lemma cache_failure_ok:
  assumes "world_ok w"
  shows "world_ok (cache_failure key w) \<and> ext w (cache_failure key w) \<and>
    mets (cache_failure key w) = mets w \<and> msgs (cache_failure key w) = msgs w"
proof -
  let ?c = "snd (lengCache_Set DefaultEntry_RRs key (Some new_Msg) (clock w) (rrs w) (el_negCache (evl w)))"
  have "failures_ok (el_negCache (evl w))" using assms by (simp add: world_ok_def)
  then have "failures_ok ?c"
    using Set_look [OF _ refl, of "el_negCache (evl w)" key new_Msg "clock w" "rrs w"]
    unfolding failures_ok_def by (metis new_Msg_fields(1))
  with assms show ?thesis by (simp add: cache_failure_def world_ok_def ext_def)
qed

text \<open>
  What every stage of a request guarantees: the state stays well formed and is extended
  only, private metrics stay private, and a successful answer is a message that did not
  exist before.
\<close>

definition stage_ok :: "'re world \<Rightarrow> answer \<Rightarrow> 're world \<Rightarrow> bool" where
  "stage_ok w ans w' \<longleftrightarrow> world_ok w' \<and> ext w w' \<and>
     (low_cardinality (mets w) \<longrightarrow> low_cardinality (mets w')) \<and>
     (case ans of (resp, success, _, _) \<Rightarrow>
        (case resp of None \<Rightarrow> \<not> success
         | Some r \<Rightarrow> success \<and> length (msgs w) \<le> r \<and> r < length (msgs w')))"

lemma ext_length: "ext w w' \<Longrightarrow> length (msgs w) \<le> length (msgs w')"
  by (auto simp: ext_def prefix_def)

lemma stage_ok_before:
  "ext w v \<Longrightarrow> (low_cardinality (mets w) \<Longrightarrow> low_cardinality (mets v)) \<Longrightarrow> stage_ok v ans w' \<Longrightarrow>
     stage_ok w ans w'"
  using ext_length [of w v]
  by (auto simp: stage_ok_def intro: ext_trans split: prod.splits option.splits)

lemma stage_ok_None:
  "world_ok w' \<Longrightarrow> ext w w' \<Longrightarrow> (low_cardinality (mets w) \<Longrightarrow> low_cardinality (mets w')) \<Longrightarrow>
     stage_ok w (None, False, b, c) w'"
  by (simp add: stage_ok_def)

lemma stage_ok_alloc:
  assumes "world_ok w" "refs_ok (Answer m) (rrs w)" "alloc_msg m w = (r, w')"
  shows "stage_ok w (Some r, True, b, c) w'"
  using alloc_msg_ok [OF assms] by (simp add: stage_ok_def)

lemma reply_goroutine_ok:
  assumes "world_ok w" "r < length (msgs w)"
  shows "world_ok (w\<lparr>pending := pending w @ [(key, r)]\<rparr>)"
  using assms by (simp add: world_ok_def)

lemma store_reply_ok:
  assumes ok: "world_ok w" and m: "refs_ok (Answer m) (rrs w)" and a: "alloc_msg m w = (r, w1)"
  shows "stage_ok w (Some r, True, b, c) (yield (if p then w1\<lparr>pending := pending w1 @ [(key, r)]\<rparr> else w1))"
proof -
  let ?w2 = "if p then w1\<lparr>pending := pending w1 @ [(key, r)]\<rparr> else w1"
  note A = alloc_msg_ok [OF ok m a]
  have "world_ok ?w2" using A reply_goroutine_ok [of w1 r key] by simp
  from yield_ok [OF this] have "world_ok (yield ?w2)" "ext ?w2 (yield ?w2)" by blast+
  moreover have "ext w ?w2" using A ext_trans [OF _ ext_fields(4), of w w1] by simp
  ultimately show ?thesis using A by (auto simp: stage_ok_def intro: ext_trans)
qed

lemma ask_upstream_ok:
  assumes ok: "world_ok w" and res: "ask_upstream env Net req key IPQuery w = Inr (ans, w')"
  shows "stage_ok w ans w'"
proof -
  obtain r1 w1 where l1: "do_Lookup env Net req w = Inr (r1, w1)"
    using res by (auto simp: ask_upstream_def go_bind_Inr_iff)
  note L1 = do_Lookup_ok [OF ok l1]
  show ?thesis
  proof (cases r1)
    case (Inl err)
    with res l1 have "ans = (None, False, False, False)" "w' = cache_failure key w1"
      by (simp_all add: ask_upstream_def)
    then show ?thesis
      using L1 cache_failure_ok [of w1 key] by (auto intro!: stage_ok_None intro: ext_trans)
  next
    case (Inr m1)
    obtain r2 w2 where l2: "(if Truncated m1 \<and> Net = ''udp'' then do_Lookup env ''tcp'' req w1
        else Inr (Inr m1, w1)) = Inr (r2, w2)"
      using res l1 Inr by (auto simp: ask_upstream_def go_bind_Inr_iff)
    have L2: "world_ok w2" "ext w w2" "low_cardinality (mets w) \<Longrightarrow> low_cardinality (mets w2)"
      "\<And>m. r2 = Inr m \<Longrightarrow> refs_ok (Answer m) (rrs w2)"
      using l2 L1 Inr do_Lookup_ok [of w1 env "''tcp''" req r2 w2]
      by (auto split: if_splits intro: ext_trans)
    show ?thesis
    proof (cases r2)
      case (Inl err)
      with res l1 Inr l2 have "ans = (None, False, False, False)" "w' = cache_failure key w2"
        by (simp_all add: ask_upstream_def)
      then show ?thesis
        using L2 cache_failure_ok [of w2 key] by (auto intro!: stage_ok_None intro: ext_trans)
    next
      case (Inr m2)
      obtain r w3 where a: "alloc_msg m2 w2 = (r, w3)" by fastforce
      have "ans = (Some r, True, False, False)" "w' = yield (if IPQuery > 0 \<and> length (Answer m2) > 0
          then w3\<lparr>pending := pending w3 @ [(key, r)]\<rparr> else w3)"
        using res l1 \<open>r1 = Inr m1\<close> l2 Inr a by (auto simp: ask_upstream_def Let_def)
      then show ?thesis
        using store_reply_ok [OF L2(1) L2(4) [OF Inr] a] stage_ok_before [OF L2(2,3)] by blast
    qed
  qed
qed

lemma blockedResponseFor_ok:
  "blockedResponseFor cfg req n h = Inr (m, h') \<Longrightarrow> heap_ext h h' \<and> refs_ok (Answer m) h'"
  by (auto simp: blockedResponseFor_def Let_def refs_ok_def heap_ext_append split: list.splits if_splits)

lemma answer_question_ok:
  assumes ok: "world_ok w" and res: "answer_question env Net req q w = Inr (ans, w')"
  shows "stage_ok w ans w'"
proof -
  let ?w = "yield w"
  let ?key = "KeyGen (question_key q)"
  have Y: "world_ok ?w" "ext w ?w" using yield_ok [OF ok] by auto
  have "stage_ok ?w ans w'"
  proof (cases "isIPQuery q > 0 \<and> lengActive ?w \<and>
      MemoryBlockCache_Exists (le_matches env) (Qname (question_key q)) (el_blockCache (evl ?w))")
    case True
    then obtain m h where b: "blockedResponseFor (el_config (evl ?w)) req (isIPQuery q) (rrs ?w) = Inr (m, h)"
      using res by (auto simp: answer_question_def Let_def go_bind_Inr_iff)
    obtain r w1 where a: "alloc_msg m (?w\<lparr>rrs := h\<rparr>) = (r, w1)" by fastforce
    have h: "heap_ext (rrs ?w) h" "refs_ok (Answer m) h" using blockedResponseFor_ok [OF b] by auto
    have "ans = (Some r, True, True, False)" "w' = w1"
      using res True b a by (auto simp: answer_question_def Let_def)
    moreover have "stage_ok (?w\<lparr>rrs := h\<rparr>) (Some r, True, True, False) w1"
      using stage_ok_alloc [OF world_ok_heap [OF Y(1) h(1)] _ a] h(2) by simp
    ultimately show ?thesis
      using stage_ok_before [of ?w "?w\<lparr>rrs := h\<rparr>"] h(1) by simp
  next
    case nb: False
    show ?thesis
    proof (cases "isIPQuery q > 0")
      case False
      with nb res have "ask_upstream env Net req ?key (isIPQuery q) ?w = Inr (ans, w')"
        by (auto simp: answer_question_def Let_def)
      then show ?thesis by (rule ask_upstream_ok [OF Y(1)])
    next
      case True
      obtain c w1 where c: "ask_caches ?key ?w = (c, w1)" by fastforce
      note C = ask_caches_ok [OF Y(1) c]
      show ?thesis
      proof (cases c)
        case (Hit e)
        obtain r w2 where a: "alloc_msg (e\<lparr>MsgId := MsgId req\<rparr>) w1 = (r, w2)" by fastforce
        have "ans = (Some r, True, False, True)" "w' = w2"
          using res True nb c Hit a by (auto simp: answer_question_def Let_def)
        then show ?thesis
          using stage_ok_alloc [OF _ _ a, of False True] C Hit
            stage_ok_before [of ?w w1 "(Some r, True, False, True)" w2] by simp
      next
        case NegHit
        with res True nb c have "ans = (None, False, True, False)" "w' = w1"
          by (auto simp: answer_question_def Let_def)
        then show ?thesis using C by (auto intro: stage_ok_None)
      next
        case Miss
        with res True nb c have "ask_upstream env Net req ?key (isIPQuery q) w1 = Inr (ans, w')"
          by (auto simp: answer_question_def Let_def)
        with C ask_upstream_ok stage_ok_before [of ?w w1] show ?thesis by metis
      qed
    qed
  qed
  then show ?thesis using stage_ok_before [OF Y(2)] by simp
qed

subsection \<open>The reply of responseFor\<close>

definition replies_to :: "rref msg \<Rightarrow> 'r msg \<Rightarrow> bool" where
  "replies_to req m \<longleftrightarrow> MsgId m = MsgId req \<and> Response m \<and> Question req \<noteq> [] \<and>
     Question m = [hd (Question req)]"

lemma replies_to_SetReply: "Question req \<noteq> [] \<Longrightarrow> replies_to req (SetReply req m)"
  by (cases "Question req") (simp_all add: replies_to_def SetReply_Question)

lemma prefix_update_beyond: "prefix xs ys \<Longrightarrow> length xs \<le> i \<Longrightarrow> prefix xs (ys[i := y])"
  by (auto simp: prefix_def list_update_append)

lemma finish_reply_ok:
  assumes st: "stage_ok w ans w1" and q: "Question req \<noteq> []"
    and fin: "finish_reply req ip ans w1 = Inr (ans', w')"
  shows "ans' = ans \<and> stage_ok w ans w' \<and> lookups w' = lookups w1 \<and> rrs w' = rrs w1 \<and> evl w' = evl w1 \<and>
    pending w' = pending w1 \<and> between w' = between w1 \<and> clock w' = clock w1 \<and>
    (\<forall>r. fst ans = Some r \<longrightarrow> msgs w' ! r = SetReply req (msgs w1 ! r))"
proof -
  obtain resp s b c where ans: "ans = (resp, s, b, c)" by (cases ans)
  show ?thesis
  proof (cases resp)
    case None
    with assms ans show ?thesis by (auto simp: finish_reply_def)
  next
    case (Some r)
    let ?w2 = "w1\<lparr>msgs := (msgs w1)[r := SetReply req (msgs w1 ! r)]\<rparr>"
    have r: "length (msgs w) \<le> r" "r < length (msgs w1)" and s: "s" and "world_ok w1" "ext w w1"
      using st ans Some by (auto simp: stage_ok_def)
    have refs: "refs_ok (Answer m) (rrs w1)" if "m \<in> set ((msgs w1)[r := SetReply req (msgs w1 ! r)])" for m
      using that set_update_subset_insert [of "msgs w1" r "SetReply req (msgs w1 ! r)"] \<open>world_ok w1\<close> r(2)
      by (auto simp: world_ok_def)
    have "world_ok ?w2" using \<open>world_ok w1\<close> refs by (simp add: world_ok_def)
    moreover have "ext w ?w2"
      using \<open>ext w w1\<close> prefix_update_beyond [OF _ r(1)] by (simp add: ext_def)
    ultimately have "stage_ok w ans (?w2\<lparr>mets := met\<rparr>)"
      if "low_cardinality (mets w1) \<longrightarrow> low_cardinality met" for met
      using st that r s ans Some by (simp add: stage_ok_def) (simp add: ext_def)
    moreover have "ans' = ans \<and> (\<exists>met. w' = ?w2\<lparr>mets := met\<rparr> \<and>
        (low_cardinality (mets w1) \<longrightarrow> low_cardinality met))"
    proof (cases ip)
      case None
      with fin ans Some have "ans' = ans" "w' = ?w2\<lparr>mets := mets w1\<rparr>" by (auto simp: finish_reply_def)
      then show ?thesis by blast
    next
      case (Some a)
      with fin ans \<open>resp = Some r\<close> obtain met where "ans' = ans" "w' = ?w2\<lparr>mets := met\<rparr>"
        "ReportDNSRespond a (msgs ?w2 ! r) b c (mets w1) = Inr met"
        by (auto simp: finish_reply_def Let_def go_bind_Inr_iff)
      then show ?thesis using low_cardinality_ReportDNSRespond by blast
    qed
    ultimately show ?thesis using r(2) ans Some by auto
  qed
qed

lemma finish_reply_total:
  assumes q: "Question req \<noteq> []" and r: "\<And>r. fst ans = Some r \<Longrightarrow> r < length (msgs w)"
  shows "\<exists>w'. finish_reply req ip ans w = Inr (ans, w')"
proof (cases ans)
  case (fields resp s b c)
  show ?thesis
  proof (cases "resp = None \<or> ip = None")
    case True
    with fields show ?thesis by (auto simp: finish_reply_def Let_def split: option.splits)
  next
    case False
    then obtain a x where "resp = Some a" "ip = Some x" by auto
    moreover have "Question (SetReply req (msgs w ! a)) \<noteq> []"
      using q by (simp add: SetReply_Question split: list.splits)
    ultimately show ?thesis
      using ReportDNSRespond_ok [of "SetReply req (msgs w ! a)" x b c "mets w"] fields r [of a]
      by (auto simp: finish_reply_def Let_def)
  qed
qed

lemma responseFor_ok:
  assumes ok: "world_ok w" and res: "responseFor env Net req local remote w = Inr (ans, w')"
  shows "stage_ok w ans w' \<and> (\<forall>r. fst ans = Some r \<longrightarrow> replies_to req (msgs w' ! r) \<and> Rcode (msgs w' ! r) = RcodeSuccess)"
proof -
  obtain ip custom met where ip: "remote_ip Net remote = Inr ip"
    and cu: "CustomRecordsResolver_Resolve (el_customDns (evl w)) req local remote (mets w) = Inr (custom, met)"
    using res by (auto simp: responseFor_def go_bind_Inr_iff Let_def)
  let ?w = "w\<lparr>mets := met\<rparr>"
  have low: "low_cardinality (mets w) \<Longrightarrow> low_cardinality (mets ?w)"
    using cr.resolve_low [OF cu] by simp
  have okw: "world_ok ?w" "ext w ?w" using ok by simp_all
  show ?thesis
  proof (cases custom)
    case (Some m)
    obtain r w1 where a: "alloc_msg m ?w = (r, w1)" by fastforce
    have M: "MsgId m = MsgId req \<and> Response m \<and> Rcode m = RcodeSuccess \<and> Question req \<noteq> [] \<and>
        Question m = [hd (Question req)] \<and> set (Answer m) \<subseteq> custom_refs (el_customDns (evl w))"
      using cr.resolve_reply cu Some by blast
    have "refs_ok (Answer m) (rrs ?w)"
      using ok M by (auto simp: world_ok_def refs_ok_def list_all_iff)
    with stage_ok_alloc [OF okw(1) this a] alloc_msg_ok [OF okw(1) this a] stage_ok_before [OF okw(2) low]
    have "stage_ok w (Some r, True, False, True) w1" "msgs w1 ! r = m" by simp_all
    moreover have "ans = (Some r, True, False, True)" "w' = w1"
      using res ip cu Some a by (simp_all add: responseFor_def Let_def)
    ultimately show ?thesis using M by (simp add: replies_to_def)
  next
    case None
    show ?thesis
    proof (cases "Question req")
      case Nil
      with None res ip cu have "ans = (None, False, False, False)" "w' = ?w"
        by (simp_all add: responseFor_def Let_def)
      then show ?thesis using okw low by (simp add: stage_ok_def)
    next
      case (Cons q qs)
      obtain ans1 w1 where aq: "answer_question env Net req q ?w = Inr (ans1, w1)"
        and fin: "finish_reply req ip ans1 w1 = Inr (ans, w')"
        using res ip cu None Cons by (auto simp: responseFor_def Let_def go_bind_Inr_iff)
      have st: "stage_ok w ans1 w1"
        using answer_question_ok [OF okw(1) aq] stage_ok_before [OF okw(2) low] by blast
      have "Question req \<noteq> []" using Cons by simp
      from finish_reply_ok [OF st this fin] replies_to_SetReply [OF this] show ?thesis by auto
    qed
  qed
qed

subsection \<open>Following CNAME records\<close>

definition grown :: "rref msg \<Rightarrow> rref msg \<Rightarrow> bool" where
  "grown m m' \<longleftrightarrow> (\<exists>xs. m' = m\<lparr>Answer := Answer m @ xs\<rparr>)"

definition follow_ok :: "mref \<Rightarrow> 're world \<Rightarrow> 're world \<Rightarrow> bool" where
  "follow_ok resp w w' \<longleftrightarrow> world_ok w' \<and> heap_ext (rrs w) (rrs w') \<and> length (msgs w) \<le> length (msgs w') \<and>
     (low_cardinality (mets w) \<longrightarrow> low_cardinality (mets w')) \<and>
     grown (msgs w ! resp) (msgs w' ! resp) \<and> el_config (evl w') = el_config (evl w) \<and>
     el_customDns (evl w') = el_customDns (evl w) \<and> el_blockCache (evl w') = el_blockCache (evl w) \<and>
     el_active (evl w') = el_active (evl w) \<and> lengActive w' = lengActive w"

lemma grown_refl [simp]: "grown m m"
  by (auto simp: grown_def intro!: exI [of _ "[]"])

lemma grown_trans: "grown a b \<Longrightarrow> grown b c \<Longrightarrow> grown a c"
  by (auto simp: grown_def)

lemma grown_fields:
  "grown m m' \<Longrightarrow> MsgId m' = MsgId m \<and> Response m' = Response m \<and> Rcode m' = Rcode m \<and>
     Question m' = Question m \<and> prefix (Answer m) (Answer m')"
  by (auto simp: grown_def)

lemma follow_ok_refl: "world_ok w \<Longrightarrow> follow_ok resp w w"
  by (simp add: follow_ok_def)

lemma follow_ok_trans: "follow_ok resp a b \<Longrightarrow> follow_ok resp b c \<Longrightarrow> follow_ok resp a c"
  by (auto simp: follow_ok_def intro: heap_ext_trans grown_trans)

lemma follow_ok_ext:
  "world_ok w' \<Longrightarrow> ext w w' \<Longrightarrow> (low_cardinality (mets w) \<Longrightarrow> low_cardinality (mets w')) \<Longrightarrow>
     resp < length (msgs w) \<Longrightarrow> follow_ok resp w w'"
  using ext_length [of w w'] by (auto simp: follow_ok_def ext_def prefix_def nth_append)

text \<open>Answers are only appended, each printed form once.\<close>

lemma append_answers_spec:
  "\<exists>xs. append_answers h ok fs ans = ans @ xs \<and> set xs \<subseteq> set fs \<and>
     distinct (map (\<lambda>r. rr_String (h ! r)) xs) \<and>
     (\<forall>x\<in>set xs. \<forall>r\<in>set ans. rr_String (h ! r) \<noteq> rr_String (h ! x)) \<and>
     (ok \<longrightarrow> (\<forall>f\<in>set fs. \<exists>r\<in>set (ans @ xs). rr_String (h ! r) = rr_String (h ! f))) \<and>
     (\<not> ok \<longrightarrow> xs = [])"
proof (induction fs arbitrary: ans)
  case (Cons f fs)
  show ?case
  proof (cases "ok \<and> \<not> list_ex (\<lambda>r. rr_String (h ! r) = rr_String (h ! f)) ans")
    case True
    obtain xs where xs: "append_answers h ok fs (ans @ [f]) = (ans @ [f]) @ xs" "set xs \<subseteq> set fs"
      "distinct (map (\<lambda>r. rr_String (h ! r)) xs)"
      "\<forall>x\<in>set xs. \<forall>r\<in>set (ans @ [f]). rr_String (h ! r) \<noteq> rr_String (h ! x)"
      "\<forall>f'\<in>set fs. \<exists>r\<in>set ((ans @ [f]) @ xs). rr_String (h ! r) = rr_String (h ! f')"
      using Cons.IH [of "ans @ [f]"] True by blast
    then show ?thesis using True
      by (intro exI [of _ "f # xs"]) (auto simp: list_ex_iff)
  next
    case False
    obtain xs where xs: "append_answers h ok fs ans = ans @ xs" "set xs \<subseteq> set fs"
      "distinct (map (\<lambda>r. rr_String (h ! r)) xs)"
      "\<forall>x\<in>set xs. \<forall>r\<in>set ans. rr_String (h ! r) \<noteq> rr_String (h ! x)"
      "ok \<longrightarrow> (\<forall>f\<in>set fs. \<exists>r\<in>set (ans @ xs). rr_String (h ! r) = rr_String (h ! f))" "\<not> ok \<longrightarrow> xs = []"
      using Cons.IH [of ans] by blast
    then show ?thesis using False by (intro exI [of _ xs]) (auto simp: list_ex_iff)
  qed
qed simp

lemma append_step_ok:
  assumes ok: "world_ok w" and r: "resp < length (msgs w)" "f < length (msgs w)"
    and ans: "ans = append_answers (rrs w) b (Answer (msgs w ! f)) (Answer (msgs w ! resp))"
  shows "follow_ok resp w (w\<lparr>msgs := (msgs w)[resp := (msgs w ! resp)\<lparr>Answer := ans\<rparr>]\<rparr>)"
proof -
  let ?m = "(msgs w ! resp)\<lparr>Answer := ans\<rparr>"
  obtain xs where xs: "ans = Answer (msgs w ! resp) @ xs" "set xs \<subseteq> set (Answer (msgs w ! f))"
    using append_answers_spec [of "rrs w" b "Answer (msgs w ! f)" "Answer (msgs w ! resp)"] ans by auto
  have "refs_ok (Answer (msgs w ! resp)) (rrs w)" "refs_ok (Answer (msgs w ! f)) (rrs w)"
    using ok r by (simp_all add: world_ok_def)
  with xs have "refs_ok ans (rrs w)" by (auto simp: refs_ok_def list_all_iff)
  then have "refs_ok (Answer m) (rrs w)" if "m \<in> set ((msgs w)[resp := ?m])" for m
    using that set_update_subset_insert [of "msgs w" resp ?m] ok by (auto simp: world_ok_def)
  then have "world_ok (w\<lparr>msgs := (msgs w)[resp := ?m]\<rparr>)" using ok by (simp add: world_ok_def)
  then show ?thesis using r xs by (auto simp: follow_ok_def grown_def)
qed

lemma follow_cnames_ok:
  "world_ok w \<Longrightarrow> resp < length (msgs w) \<Longrightarrow>
     follow_cnames env Net req local remote resp cnames w = Inr w' \<Longrightarrow> follow_ok resp w w'"
proof (induction cnames arbitrary: w)
  case Nil
  then show ?case by (simp add: follow_ok_refl)
next
  case (Cons target cnames)
  from Cons.prems(3) obtain q qs where q: "Question req = q # qs" by (cases "Question req") auto
  let ?r = "SetQuestion (le_ids env (ids w)) target (q_Qtype q) new_Msg"
  let ?w = "w\<lparr>ids := Suc (ids w)\<rparr>"
  obtain f b1 b2 b3 w1 where rf: "responseFor env Net ?r local remote ?w = Inr ((Some f, b1, b2, b3), w1)"
    using Cons.prems(3) q by (auto simp: Let_def go_bind_Inr_iff split: option.splits)
  have st: "stage_ok ?w (Some f, b1, b2, b3) w1"
    using responseFor_ok [OF _ rf] Cons.prems(1) by auto
  let ?w2 = "yield w1"
  let ?ans = "append_answers (rrs ?w2) b1 (Answer (msgs ?w2 ! f)) (Answer (msgs ?w2 ! resp))"
  let ?w3 = "?w2\<lparr>msgs := (msgs ?w2)[resp := (msgs ?w2 ! resp)\<lparr>Answer := ?ans\<rparr>]\<rparr>"
  have run: "follow_cnames env Net req local remote resp cnames ?w3 = Inr w'"
    using Cons.prems(3) q rf by (simp add: Let_def)
  have w1: "world_ok w1" "ext ?w w1" "low_cardinality (mets w) \<Longrightarrow> low_cardinality (mets w1)"
    "f < length (msgs w1)" "resp < length (msgs w1)"
    using st Cons.prems(2) ext_length [of ?w w1] by (auto simp: stage_ok_def)
  have "ext w ?w2" using yield_ok [OF w1(1)] w1(2) ext_trans [OF ext_fields(2)] ext_trans by blast
  then have "follow_ok resp w ?w2"
    using follow_ok_ext [of ?w2 w resp] yield_ok [OF w1(1)] w1(3) Cons.prems(2) by simp
  moreover have f3: "follow_ok resp ?w2 ?w3"
    by (rule append_step_ok) (use yield_ok [OF w1(1)] w1(4,5) in auto)
  moreover have "follow_ok resp ?w3 w'"
    using Cons.IH [OF _ _ run] f3 w1(5) by (simp add: follow_ok_def)
  ultimately show ?case by (blast intro: follow_ok_trans)
qed

lemma follow_rounds_ok:
  "world_ok w \<Longrightarrow> resp < length (msgs w) \<Longrightarrow>
     follow_rounds n env Net req local remote resp w = Inr w' \<Longrightarrow> follow_ok resp w w'"
proof (induction n arbitrary: w)
  case 0
  then show ?case by (simp add: follow_ok_refl)
next
  case (Suc n)
  from Suc.prems(3) consider "w' = w" | cnames w1 where
    "follow_cnames env Net req local remote resp cnames w = Inr w1"
    "follow_rounds n env Net req local remote resp w1 = Inr w'"
    by (auto simp: go_bind_Inr_iff split: if_splits)
  then show ?case
  proof cases
    case 1
    with Suc.prems show ?thesis by (simp add: follow_ok_refl)
  next
    case 2
    from follow_cnames_ok [OF Suc.prems(1,2) 2(1)] have f: "follow_ok resp w w1" .
    with Suc.prems(2) have "world_ok w1" "resp < length (msgs w1)" by (auto simp: follow_ok_def)
    from Suc.IH [OF this 2(2)] f show ?thesis by (blast intro: follow_ok_trans)
  qed
qed

end
