(* ===== verification/Request_Properties.thy ===== *)
theory Request_Properties
  imports Event_Loop
begin

text \<open>
  What clients of leng see (src/handler.go): every reply belongs to its request, custom
  records come first, blocked names get the null route without any upstream traffic, cached
  replies are served with the remaining time to live, failures are remembered, CNAME
  records are followed. The defects that modelling the handler showed are theorems too.
\<close>

section \<open>When a request cannot crash the process\<close>

lemma do_Lookup_total:
  assumes "Question req \<noteq> []" "Duration (Interval (el_config (evl w))) Millisecond > 0"
  shows "\<exists>r w'. do_Lookup env Net req w = Inr (r, w')"
proof -
  have "Question (wire (rrs w) req) \<noteq> []" using assms by simp
  from Lookup_total [OF this assms(2)] obtain r met where
    "Lookup (le_codec env) (le_ups env (lookups w)) Net (wire (rrs w) req) (Timeout (el_config (evl w)))
      (Interval (el_config (evl w))) (Nameservers (Upstream_config (el_config (evl w))))
      (UpstreamDoH (Upstream_config (el_config (evl w)))) (mets w) = Inr (r, met)"
    by blast
  then show ?thesis
    by (auto simp: do_Lookup_def lookup_call_def Let_def split: sum.splits prod.splits)
qed

lemma ask_upstream_total:
  assumes ok: "world_ok w" and q: "Question req \<noteq> []" and i: "Duration (Interval (el_config (evl w))) Millisecond > 0"
  shows "\<exists>ans w'. ask_upstream env Net req key n w = Inr (ans, w')"
proof -
  obtain r1 w1 where l1: "do_Lookup env Net req w = Inr (r1, w1)"
    using do_Lookup_total [OF q i] by blast
  show ?thesis
  proof (cases r1)
    case (Inl e)
    with l1 show ?thesis by (auto simp: ask_upstream_def)
  next
    case (Inr m1)
    have "Duration (Interval (el_config (evl w1))) Millisecond > 0"
      using do_Lookup_ok [OF ok l1] i by (simp add: ext_def)
    from do_Lookup_total [OF q this] obtain r2 w2 where
      "(if Truncated m1 \<and> Net = ''udp'' then do_Lookup env ''tcp'' req w1 else Inr (Inr m1, w1)) = Inr (r2, w2)"
      by (metis (full_types))
    with l1 Inr show ?thesis
      by (cases r2) (auto simp: ask_upstream_def Let_def split: prod.splits)
  qed
qed

lemma blockedResponseFor_total: "Question req \<noteq> [] \<Longrightarrow> \<exists>x. blockedResponseFor cfg req n h = Inr x"
  by (cases "Question req") (auto simp: blockedResponseFor_def Let_def)

lemma answer_question_total:
  assumes ok: "world_ok w" and q: "Question req \<noteq> []" and i: "Duration (Interval (el_config (evl w))) Millisecond > 0"
  shows "\<exists>ans w'. answer_question env Net req q0 w = Inr (ans, w')"
proof -
  let ?w = "yield w"
  have Y: "world_ok ?w" "Duration (Interval (el_config (evl ?w))) Millisecond > 0"
    using yield_ok [OF ok] i by auto
  obtain m h where b: "blockedResponseFor (el_config (evl ?w)) req (isIPQuery q0) (rrs ?w) = Inr (m, h)"
    using blockedResponseFor_total [OF q] by (metis surj_pair)
  obtain c w1 where c: "ask_caches (KeyGen (question_key q0)) ?w = (c, w1)" by fastforce
  have C: "world_ok w1" "Duration (Interval (el_config (evl w1))) Millisecond > 0"
    using ask_caches_ok [OF Y(1) c] Y(2) by (auto simp: ext_def)
  show ?thesis
    using b c ask_upstream_total [OF Y(1) q Y(2), of env Net "KeyGen (question_key q0)" "isIPQuery q0"]
      ask_upstream_total [OF C(1) q C(2), of env Net "KeyGen (question_key q0)" "isIPQuery q0"]
    by (cases c) (auto simp: answer_question_def Let_def alloc_msg_def)
qed

lemma responseFor_total:
  assumes ok: "world_ok w" and ip: "remote_ip Net remote = Inr ip" and i: "Duration (Interval (el_config (evl w))) Millisecond > 0"
  shows "\<exists>ans w'. responseFor env Net req local remote w = Inr (ans, w')"
proof -
  obtain custom met where cu:
    "CustomRecordsResolver_Resolve (el_customDns (evl w)) req local remote (mets w) = Inr (custom, met)"
    using cr.resolve_total by blast
  show ?thesis
  proof (cases "custom \<noteq> None \<or> Question req = []")
    case True
    with ip cu show ?thesis
      by (auto simp: responseFor_def Let_def alloc_msg_def split: option.splits list.splits)
  next
    case False
    then obtain q qs where q: "custom = None" "Question req = q # qs" by (cases "Question req") auto
    let ?w = "w\<lparr>mets := met\<rparr>"
    have "world_ok ?w" "Duration (Interval (el_config (evl ?w))) Millisecond > 0" using ok i by simp_all
    moreover have "Question req \<noteq> []" using q by simp
    ultimately obtain ans w1 where aq: "answer_question env Net req q ?w = Inr (ans, w1)"
      using answer_question_total by blast
    have "stage_ok ?w ans w1" using answer_question_ok [OF _ aq] ok by simp
    then have "\<And>r. fst ans = Some r \<Longrightarrow> r < length (msgs w1)" by (auto simp: stage_ok_def)
    from finish_reply_total [OF \<open>Question req \<noteq> []\<close> this] obtain w2 where
      "finish_reply req ip ans w1 = Inr (ans, w2)" by blast
    with ip cu q aq have "responseFor env Net req local remote w = Inr (ans, w2)"
      by (simp add: responseFor_def)
    then show ?thesis by blast
  qed
qed

text \<open>The two ways a request ends, once its own question is answered.\<close>

lemma doRequest_failure:
  assumes "responseFor env Net req (w_local wr) (w_remote wr) w = Inr ((None, False, b, c), w1)"
    and "Question req \<noteq> []"
  shows "\<exists>met. doRequest env Net wr req w =
      Inr (wr\<lparr>w_written := w_written wr @ [wire (rrs w1) (SetRcode req RcodeServerFailure (SetReply req new_Msg))],
              w_closed := True\<rparr>, w1\<lparr>mets := met\<rparr>) \<and>
    ReportDNSResponse (w_remote wr) (SetRcode req RcodeServerFailure (SetReply req new_Msg) :: rref msg) False
      (mets w1) = Inr met"
proof -
  have "Question (SetRcode req RcodeServerFailure (SetReply req new_Msg) :: rref msg) \<noteq> []"
    using assms(2) by (simp add: SetReply_Question split: list.splits)
  from ReportDNSResponse_ok [OF this, of "w_remote wr" False "mets w1"] assms(1) show ?thesis
    by (auto simp: doRequest_def Let_def WriteReplyMsg_def)
qed

lemma doRequest_success:
  assumes "responseFor env Net req (w_local wr) (w_remote wr) w = Inr ((Some r, True, b, c), w1)"
  shows "doRequest env Net wr req w = go_bind (follow_rounds (unat (FollowCnameDepth (el_config (evl w1)))) env Net req
      (w_local wr) (w_remote wr) r w1)
    (\<lambda>w. Inr (wr\<lparr>w_written := w_written wr @ [wire (rrs w) (msgs w ! r)], w_closed := True\<rparr>, w))"
  using assms by (simp add: doRequest_def WriteReplyMsg_def)

lemma doRequest_reply:
  assumes ok: "world_ok w" and q: "Question req = q # qs"
    and run: "doRequest env Net wr req w = Inr (wr', w')"
  shows "\<exists>m. wr' = wr\<lparr>w_written := w_written wr @ [m], w_closed := True\<rparr> \<and> MsgId m = MsgId req \<and> Response m \<and>
    Question m = [q] \<and> (Rcode m = RcodeSuccess \<or> Rcode m = RcodeServerFailure \<and> Answer m = []) \<and> world_ok w' \<and>
    (low_cardinality (mets w) \<longrightarrow> low_cardinality (mets w'))"
proof -
  obtain resp s b c w1 where rf: "responseFor env Net req (w_local wr) (w_remote wr) w = Inr ((resp, s, b, c), w1)"
    using run by (auto simp: doRequest_def go_bind_Inr_iff)
  note R = responseFor_ok [OF ok rf]
  show ?thesis
  proof (cases resp)
    case None
    then have "\<not> s" using R by (simp add: stage_ok_def)
    with doRequest_failure [of env Net req wr w b c w1] rf None run q obtain met where
      met: "ReportDNSResponse (w_remote wr) (SetRcode req RcodeServerFailure (SetReply req new_Msg) :: rref msg)
        False (mets w1) = Inr met" "w' = w1\<lparr>mets := met\<rparr>"
      "wr' = wr\<lparr>w_written := w_written wr @ [wire (rrs w1) (SetRcode req RcodeServerFailure (SetReply req new_Msg))],
              w_closed := True\<rparr>"
      by auto
    then show ?thesis using R q low_cardinality_ReportDNSResponse [OF _ met(1)]
      by (intro exI [of _ "wire (rrs w1) (SetRcode req RcodeServerFailure (SetReply req new_Msg))"])
        (auto simp: SetReply_Question stage_ok_def)
  next
    case (Some r)
    then have s: "s" and r: "r < length (msgs w1)" and ok1: "world_ok w1"
      using R by (simp_all add: stage_ok_def)
    from rf Some s doRequest_success [of env Net req wr w r b c w1] run obtain w2 where
      fr: "follow_rounds (unat (FollowCnameDepth (el_config (evl w1)))) env Net req
        (w_local wr) (w_remote wr) r w1 = Inr w2"
      and out: "w' = w2" "wr' = wr\<lparr>w_written := w_written wr @ [wire (rrs w2) (msgs w2 ! r)], w_closed := True\<rparr>"
      by (cases "follow_rounds (unat (FollowCnameDepth (el_config (evl w1)))) env Net req
        (w_local wr) (w_remote wr) r w1") auto
    have F: "follow_ok r w1 w2" by (rule follow_rounds_ok [OF ok1 r fr])
    then have "grown (msgs w1 ! r) (msgs w2 ! r)" by (simp add: follow_ok_def)
    from grown_fields [OF this] R Some q out F show ?thesis
      by (intro exI [of _ "wire (rrs w2) (msgs w2 ! r)"])
        (auto simp: replies_to_def follow_ok_def stage_ok_def)
  qed
qed

section \<open>The branches of responseFor\<close>

text \<open>Without a custom record, \<open>responseFor\<close> is its last part, on the state as it is.\<close>

lemma responseFor_no_custom:
  assumes "remote_ip Net remote = Inr ip" "ServeMux_handler (el_customDns (evl w)) req = None"
    and "Question req = q # qs"
  shows "responseFor env Net req local remote w =
    go_bind (answer_question env Net req q w) (\<lambda>(ans, w). finish_reply req ip ans w)"
  using assms by (simp add: responseFor_def Resolve_None)

lemma responseFor_custom:
  assumes "remote_ip Net remote = Inr ip"
    and "ServeMux_handler (el_customDns (evl w)) req = Some records"
  shows "\<exists>w'. responseFor env Net req local remote w = Inr ((Some (length (msgs w)), True, False, True), w') \<and>
    msgs w' = msgs w @ [(SetReply req new_Msg)\<lparr>Answer := rec_answer records\<rparr>] \<and>
    evl w' = evl w \<and> rrs w' = rrs w \<and> lookups w' = lookups w \<and> clock w' = clock w \<and> pending w' = pending w"
  using assms Resolve_Some [OF assms(2), of local remote "mets w"]
  by (auto simp: responseFor_def alloc_msg_def)

definition is_blocked :: "'re leng_env \<Rightarrow> dns_question \<Rightarrow> 're world \<Rightarrow> bool" where
  "is_blocked env q w \<longleftrightarrow> isIPQuery q > 0 \<and> lengActive w \<and>
     MemoryBlockCache_Exists (le_matches env) (UnFqdn (q_Name q)) (el_blockCache (evl w))"

lemma answer_question_blocked:
  assumes "is_blocked env q w" "blockedResponseFor (el_config (evl w)) req (isIPQuery q) (rrs w) = Inr (m, h)"
  shows "answer_question env Net req q w =
    Inr ((Some (length (msgs w)), True, True, False), (yield w)\<lparr>rrs := h, msgs := msgs w @ [m]\<rparr>)"
  using assms by (simp add: answer_question_def Let_def is_blocked_def question_key_def alloc_msg_def)

lemma answer_question_not_blocked:
  assumes "\<not> is_blocked env q w"
  shows "answer_question env Net req q w =
    (if isIPQuery q > 0 then
       (case ask_caches (KeyGen (question_key q)) (yield w) of
          (Hit mesg, w) \<Rightarrow> Inr ((Some (length (msgs w)), True, False, True),
             w\<lparr>msgs := msgs w @ [mesg\<lparr>MsgId := MsgId req\<rparr>]\<rparr>)
        | (NegHit, w) \<Rightarrow> Inr ((None, False, True, False), w)
        | (Miss, w) \<Rightarrow> ask_upstream env Net req (KeyGen (question_key q)) (isIPQuery q) w)
     else ask_upstream env Net req (KeyGen (question_key q)) (isIPQuery q) (yield w))"
proof -
  let ?w = "yield w"
  have "\<not> (isIPQuery q > 0 \<and> lengActive ?w \<and>
      MemoryBlockCache_Exists (le_matches env) (Qname (question_key q)) (el_blockCache (evl ?w)))"
    using assms by (simp add: is_blocked_def question_key_def)
  then show ?thesis
    unfolding answer_question_def Let_def alloc_msg_def by (simp only: if_False prod.case)
qed

text \<open>Finishing a reply touches one message and the metrics.\<close>

lemma finish_reply_eq:
  assumes q: "Question req \<noteq> []" and r: "r < length (msgs w)"
  shows "\<exists>met. finish_reply req ip (Some r, s, b, c) w =
    Inr ((Some r, s, b, c), w\<lparr>msgs := (msgs w)[r := SetReply req (msgs w ! r)], mets := met\<rparr>)"
proof (cases ip)
  case None
  then show ?thesis by (auto simp: finish_reply_def Let_def intro!: exI [of _ "mets w"])
next
  case (Some a)
  have "Question (SetReply req (msgs w ! r)) \<noteq> []"
    using q by (simp add: SetReply_Question split: list.splits)
  from ReportDNSRespond_ok [OF this, of a b c "mets w"] Some r show ?thesis
    by (auto simp: finish_reply_def Let_def)
qed

text \<open>Following stops at once when there is an address among the answers, or nothing to follow.\<close>

lemma follow_rounds_stop:
  assumes "Question req \<noteq> []"
    and "list_ex isA (map ((!) (rrs w)) (Answer (msgs w ! r))) \<or>
      \<not> list_ex isCname (map ((!) (rrs w)) (Answer (msgs w ! r)))"
  shows "follow_rounds n env Net req local remote r w = Inr w"
  using assms by (cases n; cases "Question req") (auto simp: canFollow_def Let_def)

section \<open>Properties of every request\<close>

text \<open>A server with the default configuration, for the witnesses.\<close>

definition ex_world :: "Config \<Rightarrow> unit MemoryBlockCache \<Rightarrow> CustomRecordsResolver \<Rightarrow> rr_heap \<Rightarrow> unit world" where
  "ex_world cfg bc mux h = \<lparr>evl = \<lparr>el_cache = NewDefault 0, el_negCache = NewDefault 0, el_active = True,
       el_config = cfg, el_blockCache = bc, el_customDns = mux\<rparr>,
     lengActive = True, rrs = h, msgs = [], clock = 0, mets = init_metrics, lookups = 0, ids = 0,
     pending = [], between = []\<rparr>"

definition ex_leng :: "(nat \<Rightarrow> upstream_env) \<Rightarrow> unit leng_env" where
  "ex_leng ups = \<lparr>le_codec = ex_codec, le_ups = ups, le_matches = (\<lambda>_ _. False), le_ids = of_nat\<rparr>"

definition ex_writer :: response_writer where
  "ex_writer = \<lparr>w_local = UDPAddr None 53, w_remote = UDPAddr (Some [10, 0, 0, 9]) 999, w_written = [],
     w_closed = False\<rparr>"

definition ex_request :: "rref msg" where
  "ex_request = SetQuestion 7 ''example.com.'' TypeA new_Msg"

definition ex_blocklist :: "unit MemoryBlockCache" where
  "ex_blocklist = \<lparr>Backend = [(''example.com'', True)], Special = Some []\<rparr>"

lemma ex_world_ok: "world_ok (ex_world cfg bc Map.empty h)"
  by (simp add: world_ok_def ex_world_def entries_ok_def failures_ok_def NewDefault_def lcache_inv_NewGeneric
      custom_refs_def) (simp add: lcache_look_def NewGeneric_def)

lemma ex_request_Question:
  "Question ex_request = [\<lparr>q_Name = ''example.com.'', q_Qtype = TypeA, q_Qclass = ClassINET\<rparr>]"
  by (simp add: ex_request_def)

lemma ex_writer_fits: "remote_ip ''udp'' (w_remote ex_writer) = Inr (Some [10, 0, 0, 9])"
  by (simp add: ex_writer_def)

lemma ex_world_fields [simp]:
  "el_config (evl (ex_world cfg bc mux h)) = cfg" "el_blockCache (evl (ex_world cfg bc mux h)) = bc"
  "el_customDns (evl (ex_world cfg bc mux h)) = mux" "lengActive (ex_world cfg bc mux h)"
  "mets (ex_world cfg bc mux h) = init_metrics" "rrs (ex_world cfg bc mux h) = h"
  "lookups (ex_world cfg bc mux h) = 0" "msgs (ex_world cfg bc mux h) = []"
  by (simp_all add: ex_world_def)

lemma low_cardinality_init: "low_cardinality init_metrics"
  by (simp add: low_cardinality_def init_metrics_def)

text \<open>
  A request with a question gets exactly one reply and its writer is closed. The reply
  carries the request's id and its first question and is marked as a response; its code is
  NOERROR, or SERVFAIL with an empty answer section. The state stays well formed, so this
  holds for any sequence of requests. It holds for every way in which the background
  goroutines interleave with the request.
\<close>

theorem reply_matches_request:
  assumes "world_ok w" and "Question req = q # qs" and "doRequest env Net wr req w = Inr (wr', w')"
  shows "world_ok w' \<and> (\<exists>m. wr' = wr\<lparr>w_written := w_written wr @ [m], w_closed := True\<rparr> \<and>
    MsgId m = MsgId req \<and> Response m \<and> Question m = [q] \<and>
    (Rcode m = RcodeSuccess \<or> Rcode m = RcodeServerFailure \<and> Answer m = []))"
  using doRequest_reply [OF assms] by blast

lemma doRequest_total_depth0:
  assumes ok: "world_ok w" and q: "Question req \<noteq> []" and ip: "remote_ip Net (w_remote wr) = Inr ip"
    and cfg: "Duration (Interval (el_config (evl w))) Millisecond > 0" "FollowCnameDepth (el_config (evl w)) = 0"
  shows "\<exists>wr' w'. doRequest env Net wr req w = Inr (wr', w') \<and> length (w_written wr') = Suc (length (w_written wr))"
proof -
  obtain resp s b c w1 where rf: "responseFor env Net req (w_local wr) (w_remote wr) w = Inr ((resp, s, b, c), w1)"
    using responseFor_total [OF ok ip cfg(1)] by (metis prod_cases4)
  have st: "stage_ok w (resp, s, b, c) w1" using responseFor_ok [OF ok rf] by simp
  show ?thesis
  proof (cases resp)
    case None
    with st have "\<not> s" by (simp add: stage_ok_def)
    with None rf doRequest_failure [of env Net req wr w b c w1] q show ?thesis by auto
  next
    case (Some r)
    with st have "s" "el_config (evl w1) = el_config (evl w)" by (simp_all add: stage_ok_def ext_def)
    with Some rf cfg(2) doRequest_success [of env Net req wr w r b c w1] show ?thesis by simp
  qed
qed

text \<open>
  Without CNAME following (depth 0), with a positive lookup interval and a remote
  address of the kind the transport has, a request with a question never crashes the
  process: a reply is always written.
\<close>

theorem request_total_without_following:
  assumes "world_ok w" and "Question req \<noteq> []" and "remote_ip Net (w_remote wr) = Inr ip"
    and "Duration (Interval (el_config (evl w))) Millisecond > 0" and "FollowCnameDepth (el_config (evl w)) = 0"
  shows "\<exists>wr' w'. doRequest env Net wr req w = Inr (wr', w') \<and> length (w_written wr') = Suc (length (w_written wr))"
  by (rule doRequest_total_depth0 [OF assms])

definition ex_config :: Config where
  "ex_config = parseDefaultConfig\<lparr>FollowCnameDepth := 0, TTL := 30\<rparr>"

lemma ex_config_fields [simp]:
  "Interval ex_config = 200" "FollowCnameDepth ex_config = 0" "TTL ex_config = 30"
  "NXDomain (Blocking_config ex_config) = False" "Nullroute (Blocking_config ex_config) = ''0.0.0.0''"
  by (simp_all add: ex_config_def parseDefaultConfig_def)

lemma ex_request_runs:
  "\<exists>wr' w'. doRequest (ex_leng ups) ''udp'' ex_writer ex_request (ex_world ex_config bc Map.empty h) = Inr (wr', w')"
  using doRequest_total_depth0 [OF ex_world_ok _ ex_writer_fits, of ex_request ex_config bc h "ex_leng ups"]
  by (auto simp: ex_request_Question)

theorem request_total_without_following_witness:
  "\<exists>wr' w'. doRequest (ex_leng (\<lambda>_. ex_env None (\<lambda>_. ExErr) [])) ''udp'' ex_writer ex_request
     (ex_world ex_config empty_block_cache Map.empty []) = Inr (wr', w') \<and> length (w_written wr') = 1"
  using request_total_without_following [OF ex_world_ok _ ex_writer_fits, of ex_request ex_config empty_block_cache "[]"
      "ex_leng (\<lambda>_. ex_env None (\<lambda>_. ExErr) [])"]
  by (auto simp: ex_request_Question) (simp add: ex_writer_def)

theorem reply_matches_request_witness:
  "\<exists>wr' w' m. doRequest (ex_leng (\<lambda>_. ex_env None (\<lambda>_. ExErr) [])) ''udp'' ex_writer ex_request
     (ex_world ex_config empty_block_cache Map.empty []) = Inr (wr', w') \<and> w_written wr' = [m] \<and> MsgId m = 7"
proof -
  let ?env = "ex_leng (\<lambda>_. ex_env None (\<lambda>_. ExErr) [])"
  obtain wr' w' where run: "doRequest ?env ''udp'' ex_writer ex_request
     (ex_world ex_config empty_block_cache Map.empty []) = Inr (wr', w')"
    using ex_request_runs by blast
  from reply_matches_request [OF ex_world_ok ex_request_Question run] run show ?thesis
    by (auto simp: ex_writer_def ex_request_def SetQuestion_def)
qed

text \<open>
  C30. With high-cardinality metrics off, no request ever makes the response counter name a
  client address or a queried domain.
\<close>

theorem responses_stay_anonymous:
  assumes "world_ok w" and "Question req \<noteq> []" and "low_cardinality (mets w)"
    and "doRequest env Net wr req w = Inr (wr', w')"
  shows "low_cardinality (mets w')"
proof -
  from assms(2) obtain q qs where "Question req = q # qs" by (cases "Question req") auto
  from doRequest_reply [OF assms(1) this assms(4)] assms(3) show ?thesis by blast
qed

theorem responses_stay_anonymous_witness:
  "\<exists>wr' w'. doRequest (ex_leng (\<lambda>_. ex_env None (\<lambda>_. ExErr) [])) ''udp'' ex_writer ex_request
     (ex_world ex_config empty_block_cache Map.empty []) = Inr (wr', w') \<and> low_cardinality (mets w')"
proof -
  let ?env = "ex_leng (\<lambda>_. ex_env None (\<lambda>_. ExErr) [])"
  obtain wr' w' where run: "doRequest ?env ''udp'' ex_writer ex_request
     (ex_world ex_config empty_block_cache Map.empty []) = Inr (wr', w')"
    using ex_request_runs by blast
  from responses_stay_anonymous [OF ex_world_ok _ _ run] run show ?thesis
    by (auto simp: ex_request_Question low_cardinality_init)
qed

section \<open>Custom records, blocking and caching\<close>

text \<open>
  C20. Custom records come first: when the custom records have an entry for the question, the
  reply holds exactly that entry's records, whether or not the name is blocked, cached or
  remembered as a failure, and no upstream server is asked, neither cache is touched and no
  record is changed.
\<close>

theorem custom_records_first:
  assumes "remote_ip Net remote = Inr ip"
    and "ServeMux_handler (el_customDns (evl w)) req = Some records"
  shows "\<exists>r w'. responseFor env Net req local remote w = Inr ((Some r, True, False, True), w') \<and>
    Answer (msgs w' ! r) = rec_answer records \<and> MsgId (msgs w' ! r) = MsgId req \<and>
    Rcode (msgs w' ! r) = RcodeSuccess \<and>
    evl w' = evl w \<and> rrs w' = rrs w \<and> lookups w' = lookups w \<and> pending w' = pending w"
  using responseFor_custom [OF assms, of env local] by force

definition ex_mux :: CustomRecordsResolver where
  "ex_mux = [''example.com.'' \<mapsto> \<lparr>rec_name = ''example.com.'', rec_answer = [0]\<rparr>]"

lemma ex_mux_hit: "ServeMux_handler ex_mux ex_request = Some \<lparr>rec_name = ''example.com.'', rec_answer = [0]\<rparr>"
proof -
  have "CanonicalName ''example.com.'' = ''example.com.''" by code_simp
  then show ?thesis
    by (simp add: ServeMux_handler_def ex_request_Question ServeMux_match_exact ex_mux_def)
qed

theorem custom_records_first_witness:
  "\<exists>r w'. responseFor (ex_leng (\<lambda>_. ex_env None (\<lambda>_. ExErr) [])) ''udp'' ex_request (w_local ex_writer)
     (w_remote ex_writer) (ex_world ex_config ex_blocklist ex_mux [ex_rr]) = Inr ((Some r, True, False, True), w') \<and>
   Answer (msgs w' ! r) = [0] \<and> lookups w' = 0"
  using custom_records_first [OF ex_writer_fits, of "ex_world ex_config ex_blocklist ex_mux [ex_rr]" ex_request
      _ "ex_leng (\<lambda>_. ex_env None (\<lambda>_. ExErr) [])" "w_local ex_writer"]
  by (fastforce simp: ex_mux_hit)

text \<open>The whole handling of a blocked name, for both kinds of blocking.\<close>

lemma doRequest_blocked:
  assumes q: "Question req = q # qs" and ip: "remote_ip Net (w_remote wr) = Inr ip"
    and nc: "ServeMux_handler (el_customDns (evl w)) req = None" and b: "is_blocked env q w"
    and m: "blockedResponseFor (el_config (evl w)) req (isIPQuery q) (rrs w) = Inr (m, h)"
    and stop: "list_ex isA (map ((!) h) (Answer m)) \<or> \<not> list_ex isCname (map ((!) h) (Answer m))"
  shows "\<exists>w'. doRequest env Net wr req w =
      Inr (wr\<lparr>w_written := w_written wr @ [wire h (SetReply req m)], w_closed := True\<rparr>, w') \<and> lookups w' = lookups w"
proof -
  let ?w1 = "(yield w)\<lparr>rrs := h, msgs := msgs w @ [m]\<rparr>"
  obtain met where "finish_reply req ip (Some (length (msgs w)), True, True, False) ?w1 =
    Inr ((Some (length (msgs w)), True, True, False),
      ?w1\<lparr>msgs := (msgs ?w1)[length (msgs w) := SetReply req (msgs ?w1 ! length (msgs w))], mets := met\<rparr>)"
    using finish_reply_eq [of req "length (msgs w)" ?w1 ip True True False] q by auto
  then have rf: "responseFor env Net req (w_local wr) (w_remote wr) w =
      Inr ((Some (length (msgs w)), True, True, False), ?w1\<lparr>msgs := msgs w @ [SetReply req m], mets := met\<rparr>)"
    using responseFor_no_custom [OF ip nc q] answer_question_blocked [OF b m] by simp
  have "Question req \<noteq> []" using q by simp
  from follow_rounds_stop [OF this, of "?w1\<lparr>msgs := msgs w @ [SetReply req m], mets := met\<rparr>" "length (msgs w)"]
    stop doRequest_success [OF rf] show ?thesis by simp
qed

lemma ip_query_cases:
  assumes "isIPQuery q > 0"
  shows "isIPQuery q = IP4Query \<and> q_Qtype q = TypeA \<or> isIPQuery q = IP6Query \<and> q_Qtype q = TypeAAAA"
  using assms by (auto simp: isIPQuery_def split: if_splits)

lemma doRequest_null_route:
  assumes "Question req = q # qs" and "remote_ip Net (w_remote wr) = Inr ip"
    and "ServeMux_handler (el_customDns (evl w)) req = None"
    and "isIPQuery q > 0" and "lengActive w"
    and "MemoryBlockCache_Exists (le_matches env) (UnFqdn (q_Name q)) (el_blockCache (evl w))"
    and "\<not> NXDomain (Blocking_config (el_config (evl w)))"
  shows "\<exists>m w'. doRequest env Net wr req w = Inr (wr\<lparr>w_written := w_written wr @ [m], w_closed := True\<rparr>, w') \<and>
    lookups w' = lookups w \<and> MsgId m = MsgId req \<and> Question m = [q] \<and> Rcode m = RcodeSuccess \<and>
    Answer m = [null_rr (q_Name q) (q_Qtype q) (TTL (el_config (evl w)))
      (if q_Qtype q = TypeA then RdA (ParseIP (Nullroute (Blocking_config (el_config (evl w)))))
       else RdAAAA (ParseIP (Nullroutev6 (Blocking_config (el_config (evl w))))))]"
proof -
  let ?h = "rrs w" and ?b = "Blocking_config (el_config (evl w))"
  let ?rr = "null_rr (q_Name q) (q_Qtype q) (TTL (el_config (evl w)))
      (if q_Qtype q = TypeA then RdA (ParseIP (Nullroute ?b)) else RdAAAA (ParseIP (Nullroutev6 ?b)))"
  let ?m = "new_Msg\<lparr>Answer := [length ?h]\<rparr>"
  have m: "blockedResponseFor (el_config (evl w)) req (isIPQuery q) ?h = Inr (?m, ?h @ [?rr])"
    using assms(1,7) ip_query_cases [OF assms(4)] by (auto simp: blockedResponseFor_def Let_def)
  have "isA ?rr" using ip_query_cases [OF assms(4)] by (auto simp: isA_def null_rr_def)
  with doRequest_blocked [OF assms(1,2,3) _ m] assms(4,5,6) obtain w' where
    "doRequest env Net wr req w = Inr (wr\<lparr>w_written := w_written wr @ [wire (?h @ [?rr]) (SetReply req ?m)],
       w_closed := True\<rparr>, w')" "lookups w' = lookups w"
    by (auto simp: is_blocked_def)
  then show ?thesis
    using assms(1) by (intro exI [of _ "wire (?h @ [?rr]) (SetReply req ?m)"]) (simp add: SetReply_Question)
qed

text \<open>
  C3. A blocked name is answered with the null route: for an address question on a name the
  block list matches, while blocking is active and no custom record applies, the reply has
  one record, for the asked name and type, with the configured null address and time to
  live, and no upstream server is asked.
\<close>

theorem blocked_name_null_routed:
  assumes "Question req = q # qs" and "remote_ip Net (w_remote wr) = Inr ip"
    and "ServeMux_handler (el_customDns (evl w)) req = None"
    and "isIPQuery q > 0" and "lengActive w"
    and "MemoryBlockCache_Exists (le_matches env) (UnFqdn (q_Name q)) (el_blockCache (evl w))"
    and "\<not> NXDomain (Blocking_config (el_config (evl w)))"
  shows "\<exists>m w'. doRequest env Net wr req w = Inr (wr\<lparr>w_written := w_written wr @ [m], w_closed := True\<rparr>, w') \<and>
    lookups w' = lookups w \<and> MsgId m = MsgId req \<and> Question m = [q] \<and> Rcode m = RcodeSuccess \<and>
    Answer m = [null_rr (q_Name q) (q_Qtype q) (TTL (el_config (evl w)))
      (if q_Qtype q = TypeA then RdA (ParseIP (Nullroute (Blocking_config (el_config (evl w)))))
       else RdAAAA (ParseIP (Nullroutev6 (Blocking_config (el_config (evl w))))))]"
  by (rule doRequest_null_route [OF assms])

lemma ex_blocked: "MemoryBlockCache_Exists mt (UnFqdn ''example.com.'') ex_blocklist"
proof -
  have "UnFqdn ''example.com.'' = ''example.com''" "ToLower ''example.com'' = ''example.com''"
    by code_simp+
  then show ?thesis by (auto simp: MemoryBlockCache_Exists_def ex_blocklist_def Let_def)
qed

lemma no_custom: "ServeMux_handler (Map.empty :: CustomRecordsResolver) req = None"
proof (cases "ServeMux_handler (Map.empty :: CustomRecordsResolver) req")
  case (Some r)
  from handler_ran [OF this] show ?thesis by simp
qed

lemma ex_isIPQuery: "isIPQuery \<lparr>q_Name = n, q_Qtype = TypeA, q_Qclass = ClassINET\<rparr> = IP4Query"
  by (simp add: isIPQuery_def)

theorem blocked_name_null_routed_witness:
  "\<exists>m w'. doRequest (ex_leng (\<lambda>_. ex_env None (\<lambda>_. ExErr) [])) ''udp'' ex_writer ex_request
     (ex_world ex_config ex_blocklist Map.empty []) = Inr (ex_writer\<lparr>w_written := [m], w_closed := True\<rparr>, w') \<and>
   Answer m = [null_rr ''example.com.'' TypeA 30 (RdA (Some (v4_prefix @ [0, 0, 0, 0])))]"
  using blocked_name_null_routed [OF ex_request_Question ex_writer_fits,
      of "ex_world ex_config ex_blocklist Map.empty []" "ex_leng (\<lambda>_. ex_env None (\<lambda>_. ExErr) [])"]
  by (fastforce simp: no_custom ex_isIPQuery ex_blocked ParseIP_null_routes ex_writer_def)

text \<open>
  The option to answer blocked names with NXDOMAIN has no such effect: the deferred
  \<open>SetReply\<close> resets the code, and the client receives NOERROR with no answer.
\<close>

theorem nxdomain_blocking_sends_noerror:
  assumes "Question req = q # qs" and "remote_ip Net (w_remote wr) = Inr ip"
    and "ServeMux_handler (el_customDns (evl w)) req = None"
    and "isIPQuery q > 0" and "lengActive w"
    and "MemoryBlockCache_Exists (le_matches env) (UnFqdn (q_Name q)) (el_blockCache (evl w))"
    and "NXDomain (Blocking_config (el_config (evl w)))"
  shows "\<exists>m w'. doRequest env Net wr req w = Inr (wr\<lparr>w_written := w_written wr @ [m], w_closed := True\<rparr>, w') \<and>
    Rcode m = RcodeSuccess \<and> Answer m = []"
proof -
  let ?m = "SetRcode req RcodeNameError new_Msg :: rref msg"
  have "blockedResponseFor (el_config (evl w)) req (isIPQuery q) (rrs w) = Inr (?m, rrs w)"
    using assms(1,7) by (simp add: blockedResponseFor_def Let_def)
  from doRequest_blocked [OF assms(1,2,3) _ this] assms(4,5,6) obtain w' where
    "doRequest env Net wr req w = Inr (wr\<lparr>w_written := w_written wr @ [wire (rrs w) (SetReply req ?m)],
       w_closed := True\<rparr>, w')"
    by (auto simp: is_blocked_def)
  then show ?thesis by (intro exI [of _ "wire (rrs w) (SetReply req ?m)"]) simp
qed

theorem nxdomain_blocking_sends_noerror_witness:
  "\<exists>m w'. doRequest (ex_leng (\<lambda>_. ex_env None (\<lambda>_. ExErr) [])) ''udp'' ex_writer ex_request
     (ex_world (ex_config\<lparr>Blocking_config := (Blocking_config ex_config)\<lparr>NXDomain := True\<rparr>\<rparr>) ex_blocklist Map.empty [])
     = Inr (ex_writer\<lparr>w_written := [m], w_closed := True\<rparr>, w') \<and> Rcode m = RcodeSuccess"
  using nxdomain_blocking_sends_noerror [OF ex_request_Question ex_writer_fits,
      of "ex_world (ex_config\<lparr>Blocking_config := (Blocking_config ex_config)\<lparr>NXDomain := True\<rparr>\<rparr>) ex_blocklist Map.empty []"
        "ex_leng (\<lambda>_. ex_env None (\<lambda>_. ExErr) [])"]
  by (fastforce simp: no_custom ex_isIPQuery ex_blocked ex_writer_def)

text \<open>The caches seen from a request.\<close>

lemma ask_caches_hit:
  assumes "lcache_inv (el_cache (evl w))" "lcache_look (el_cache (evl w)) (ToLower key) = Some (e, t)" "clock w \<le> t"
  shows "ask_caches key w =
    (Hit e, w\<lparr>rrs := store_ttls (uint32_Seconds (duration_Truncate (t - clock w) Second)) (Answer e) (rrs w)\<rparr>)"
  using lc.get_hit [OF assms, of "rrs w"] by (simp add: ask_caches_def DefaultEntry_RRs_def)

lemma ask_caches_failure:
  assumes ok: "world_ok w" and c: "lcache_look (el_cache (evl w)) (ToLower key) = None"
    and n: "lcache_look (el_negCache (evl w)) (ToLower key) = Some (e, t)" "clock w \<le> t"
  shows "ask_caches key w = (NegHit, w)"
proof -
  have inv: "lcache_inv (el_cache (evl w))" "lcache_inv (el_negCache (evl w))" and "Answer e = []"
    using ok n(1) unfolding world_ok_def entries_ok_def failures_ok_def by blast+
  with lc.get_miss [OF inv(1) c, of "clock w" "rrs w"] lc.get_hit [OF inv(2) n, of "rrs w"] show ?thesis
    by (simp add: ask_caches_def DefaultEntry_RRs_def)
qed

lemma ask_caches_miss:
  assumes ok: "world_ok w" and c: "lcache_look (el_cache (evl w)) (ToLower key) = None"
    and n: "lcache_look (el_negCache (evl w)) (ToLower key) = None"
  shows "ask_caches key w = (Miss, w)"
proof -
  have inv: "lcache_inv (el_cache (evl w))" "lcache_inv (el_negCache (evl w))"
    using ok by (auto simp: world_ok_def entries_ok_def failures_ok_def)
  with lc.get_miss [OF inv(1) c, of "clock w" "rrs w"] lc.get_miss [OF inv(2) n, of "clock w" "rrs w"] show ?thesis
    by (simp add: ask_caches_def)
qed

lemma ToLower_KeyGen [simp]: "ToLower (KeyGen q) = KeyGen q"
  by (simp add: KeyGen_def)

text \<open>
  C27. A cached reply is served without asking upstream: for an address question that no
  custom record answers and that is not blocked, if the cache holds an entry for its key that
  has not expired when the cache is read, the reply has the entry's records, the request's
  id and question, and every one of these records carries the whole seconds left.
\<close>

theorem cached_reply_served:
  assumes ok: "world_ok w" and q: "Question req = q # qs" and ip: "remote_ip Net remote = Inr ip"
    and nc: "ServeMux_handler (el_customDns (evl w)) req = None"
    and nb: "isIPQuery q > 0" "\<not> is_blocked env q w"
    and hit: "lcache_look (el_cache (evl (yield w))) (KeyGen (question_key q)) = Some (e, t)"
    and live: "clock (yield w) \<le> t" "t < clock (yield w) + 2 ^ 32 * Second"
  shows "\<exists>r w'. responseFor env Net req local remote w = Inr ((Some r, True, False, True), w') \<and>
    lookups w' = lookups w \<and> Answer (msgs w' ! r) = Answer e \<and> MsgId (msgs w' ! r) = MsgId req \<and>
    Question (msgs w' ! r) = [q] \<and>
    (\<forall>a\<in>set (Answer e). int (unat (ttl_of (rrs w') a)) = (t - clock (yield w)) div Second)"
proof -
  let ?w = "yield w"
  let ?ttl = "uint32_Seconds (duration_Truncate (t - clock ?w) Second)"
  let ?h = "store_ttls ?ttl (Answer e) (rrs w)"
  let ?r = "length (msgs w)"
  have Y: "world_ok ?w" using yield_ok [OF ok] by simp
  then have inv: "lcache_inv (el_cache (evl ?w))" and refs: "refs_ok (Answer e) (rrs w)"
    using hit by (auto simp: world_ok_def entries_ok_def)
  have hit': "lcache_look (el_cache (evl ?w)) (ToLower (KeyGen (question_key q))) = Some (e, t)"
    using hit by simp
  let ?w1 = "?w\<lparr>rrs := ?h, msgs := msgs w @ [e\<lparr>MsgId := MsgId req\<rparr>]\<rparr>"
  have aq: "answer_question env Net req q w = Inr ((Some ?r, True, False, True), ?w1)"
    using answer_question_not_blocked [OF nb(2)] ask_caches_hit [OF inv hit' live(1)] nb(1) by simp
  obtain met where fin: "finish_reply req ip (Some ?r, True, False, True) ?w1 = Inr ((Some ?r, True, False, True),
      ?w1\<lparr>msgs := msgs w @ [SetReply req (e\<lparr>MsgId := MsgId req\<rparr>)], mets := met\<rparr>)"
    using finish_reply_eq [of req ?r ?w1 ip True False True] q by auto
  have d: "0 \<le> t - clock ?w" "t - clock ?w < 2 ^ 32 * Second" using live by simp_all
  have "int (unat (ttl_of ?h a)) = (t - clock ?w) div Second" if "a \<in> set (Answer e)" for a
    using that refs unat_seconds_left [OF d] d(1)
    by (simp add: heap_simps uint32_Seconds_Truncate pos_imp_zdiv_nonneg_iff)
  then show ?thesis
    using responseFor_no_custom [OF ip nc q] aq fin q by (auto simp: SetReply_Question)
qed

definition ex_key :: string where
  "ex_key = KeyGen (question_key \<lparr>q_Name = ''example.com.'', q_Qtype = TypeA, q_Qclass = ClassINET\<rparr>)"

definition one_entry :: "DefaultEntry \<Rightarrow> gotime \<Rightarrow> DefaultEntry lengCache" where
  "one_entry e t = \<lparr>backend = [ex_key \<mapsto> \<lparr>underlying = Some e, expiresAt = t\<rparr>], cache_size = 1, maxSize = 0\<rparr>"

lemma one_entry_look: "lcache_inv (one_entry e t)" "lcache_look (one_entry e t) = [ex_key \<mapsto> (e, t)]"
  by (auto simp: one_entry_def lcache_inv_def lcache_look_def ex_key_def)

definition ex_caches :: "DefaultEntry lengCache \<Rightarrow> DefaultEntry lengCache \<Rightarrow> unit world" where
  "ex_caches c n = (let w = ex_world ex_config empty_block_cache Map.empty [ex_rr] in
     w\<lparr>evl := (evl w)\<lparr>el_cache := c, el_negCache := n\<rparr>, clock := 3 * Second\<rparr>)"

lemma ex_caches_ok:
  "entries_ok c [ex_rr] \<Longrightarrow> failures_ok n \<Longrightarrow> world_ok (ex_caches c n)"
  using ex_world_ok [of ex_config empty_block_cache "[ex_rr]"] by (simp add: ex_caches_def world_ok_def Let_def)

lemma ex_caches_fields [simp]:
  "el_customDns (evl (ex_caches c n)) = Map.empty" "el_cache (evl (ex_caches c n)) = c"
  "el_negCache (evl (ex_caches c n)) = n" "el_config (evl (ex_caches c n)) = ex_config"
  "el_blockCache (evl (ex_caches c n)) = empty_block_cache" "rrs (ex_caches c n) = [ex_rr]"
  "yield (ex_caches c n) = ex_caches c n" "lookups (ex_caches c n) = 0" "clock (ex_caches c n) = 3 * Second"
  by (simp_all add: ex_caches_def Let_def yield_def) (simp_all add: ex_world_def)

lemma not_blocked_empty:
  "el_blockCache (evl w) = empty_block_cache \<Longrightarrow> \<not> is_blocked env q w"
  by (simp add: is_blocked_def MemoryBlockCache_Exists_def empty_block_cache_def Special_entries_def)

lemma new_cache_ok: "entries_ok (NewDefault k) h" "failures_ok (NewDefault k)"
  by (simp_all add: entries_ok_def failures_ok_def NewDefault_def lcache_inv_NewGeneric)
    (simp_all add: lcache_look_def NewGeneric_def)

theorem cached_reply_served_witness:
  "\<exists>r w'. responseFor (ex_leng (\<lambda>_. ex_env None (\<lambda>_. ExErr) [])) ''udp'' ex_request (w_local ex_writer)
     (w_remote ex_writer) (ex_caches (one_entry ex_reply (10 * Second)) (NewDefault 0)) =
       Inr ((Some r, True, False, True), w') \<and>
     lookups w' = 0 \<and> Answer (msgs w' ! r) = [0] \<and> ttl_of (rrs w') 0 = 7"
proof -
  let ?w = "ex_caches (one_entry ex_reply (10 * Second)) (NewDefault 0)"
  have e: "Answer ex_reply = [0]" by (simp add: ex_reply_def)
  have ok: "world_ok ?w"
    by (rule ex_caches_ok) (auto simp: entries_ok_def one_entry_look e refs_ok_def new_cache_ok split: if_splits)
  have "\<exists>r w'. responseFor (ex_leng (\<lambda>_. ex_env None (\<lambda>_. ExErr) [])) ''udp'' ex_request (w_local ex_writer)
      (w_remote ex_writer) ?w = Inr ((Some r, True, False, True), w') \<and>
    lookups w' = lookups ?w \<and> Answer (msgs w' ! r) = Answer ex_reply \<and> MsgId (msgs w' ! r) = MsgId ex_request \<and>
    Question (msgs w' ! r) = [\<lparr>q_Name = ''example.com.'', q_Qtype = TypeA, q_Qclass = ClassINET\<rparr>] \<and>
    (\<forall>a\<in>set (Answer ex_reply). int (unat (ttl_of (rrs w') a)) = (10 * Second - clock (yield ?w)) div Second)"
    by (rule cached_reply_served [OF ok ex_request_Question ex_writer_fits])
      (auto simp: no_custom ex_isIPQuery not_blocked_empty one_entry_look ex_key_def Second_def)
  moreover have "v = 7" if "uint (v :: u32) = 7" for v
    using that by (metis word_of_int_numeral word_of_int_uint)
  ultimately show ?thesis by (fastforce simp: e Second_def)
qed

text \<open>
  A remembered failure is answered with SERVFAIL and without asking upstream, as long as
  the entry in the cache of failures has not expired.
\<close>

theorem remembered_failure_answered:
  assumes ok: "world_ok w" and q: "Question req = q # qs" and ip: "remote_ip Net (w_remote wr) = Inr ip"
    and nc: "ServeMux_handler (el_customDns (evl w)) req = None"
    and nb: "isIPQuery q > 0" "\<not> is_blocked env q w"
    and miss: "lcache_look (el_cache (evl (yield w))) (KeyGen (question_key q)) = None"
    and neg: "lcache_look (el_negCache (evl w)) (KeyGen (question_key q)) = Some (e, t)" "clock (yield w) \<le> t"
  shows "\<exists>m w'. doRequest env Net wr req w = Inr (wr\<lparr>w_written := w_written wr @ [m], w_closed := True\<rparr>, w') \<and>
    Rcode m = RcodeServerFailure \<and> Answer m = [] \<and> lookups w' = lookups w"
proof -
  let ?w = "yield w"
  have Y: "world_ok ?w" using yield_ok [OF ok] by simp
  have "ask_caches (KeyGen (question_key q)) ?w = (NegHit, ?w)"
    using ask_caches_failure [OF Y, of "KeyGen (question_key q)" e t] miss neg by simp
  then have "responseFor env Net req (w_local wr) (w_remote wr) w = Inr ((None, False, True, False), ?w)"
    using responseFor_no_custom [OF ip nc q] answer_question_not_blocked [OF nb(2)] nb(1)
    by (simp add: finish_reply_def)
  from doRequest_failure [OF this] q obtain met where
    "doRequest env Net wr req w = Inr (wr\<lparr>w_written := w_written wr @
       [wire (rrs ?w) (SetRcode req RcodeServerFailure (SetReply req new_Msg))], w_closed := True\<rparr>, ?w\<lparr>mets := met\<rparr>)"
    by auto
  then show ?thesis
    by (intro exI [of _ "wire (rrs ?w) (SetRcode req RcodeServerFailure (SetReply req new_Msg))"]) simp
qed

theorem remembered_failure_answered_witness:
  "\<exists>m w'. doRequest (ex_leng (\<lambda>_. ex_env None (\<lambda>_. ExErr) [])) ''udp'' ex_writer ex_request
     (ex_caches (NewDefault 0) (one_entry new_Msg (4294967295 * Second))) =
     Inr (ex_writer\<lparr>w_written := [m], w_closed := True\<rparr>, w') \<and> Rcode m = RcodeServerFailure \<and> lookups w' = 0"
proof -
  let ?w = "ex_caches (NewDefault 0) (one_entry new_Msg (4294967295 * Second))"
  have ok: "world_ok ?w"
    by (rule ex_caches_ok) (auto simp: failures_ok_def one_entry_look new_cache_ok split: if_splits)
  have "\<exists>m w'. doRequest (ex_leng (\<lambda>_. ex_env None (\<lambda>_. ExErr) [])) ''udp'' ex_writer ex_request ?w =
      Inr (ex_writer\<lparr>w_written := w_written ex_writer @ [m], w_closed := True\<rparr>, w') \<and>
    Rcode m = RcodeServerFailure \<and> Answer m = [] \<and> lookups w' = lookups ?w"
    by (rule remembered_failure_answered [OF ok ex_request_Question ex_writer_fits])
      (auto simp: no_custom ex_isIPQuery not_blocked_empty one_entry_look ex_key_def Second_def NewDefault_def
        lcache_look_def NewGeneric_def)
  then show ?thesis by (auto simp: ex_writer_def)
qed

section \<open>Upstream answers and failures\<close>

lemma do_Lookup_fails:
  assumes "do_Lookup env Net req w = Inr (Inl err, w')"
  shows "el_negCache (evl w') = el_negCache (evl w) \<and> rrs w' = rrs w"
proof -
  obtain v where "lookup_call env Net req w = Inr (Inl err, v)" and "w' = yield v"
    using assms by (auto simp: do_Lookup_def go_bind_Inr_iff)
  moreover from this(1) have "\<exists>met. v = w\<lparr>mets := met, lookups := Suc (lookups w)\<rparr>"
    by (clarsimp simp: lookup_call_def Let_def go_bind_Inr_iff) (auto split: sum.split_asm prod.split_asm)
  ultimately show ?thesis by auto
qed

lemma cache_failure_look:
  assumes "lcache_inv (el_negCache (evl w))" "\<not> lengCache_Full (el_negCache (evl w))"
  shows "lcache_look (el_negCache (evl (cache_failure key w))) (ToLower key) =
    Some (new_Msg, clock w + 4294967295 * Second)"
proof -
  have "minTtlFor DefaultEntry_RRs (rrs w) new_Msg = 4294967295 * Second"
    by (rule minTtlFor_no_records) (simp add: DefaultEntry_RRs_def)
  with lc.put_ok [OF assms(1), of key new_Msg "clock w" "rrs w"] assms(2) show ?thesis
    by (auto simp: cache_failure_def)
qed

text \<open>
  C38. When no upstream server answers an address question, the client gets SERVFAIL and the
  failure is stored, unless the cache of failures is full, with an expiry that is
  4294967295 seconds away, more than 136 years: entries without records take the largest
  time to live. Until then the name cannot be resolved, even when upstream recovers.
\<close>

theorem failure_remembered_for_136_years:
  assumes ok: "world_ok w" and q: "Question req = q # qs" and ip: "remote_ip Net (w_remote wr) = Inr ip"
    and nc: "ServeMux_handler (el_customDns (evl w)) req = None"
    and nb: "isIPQuery q > 0" "\<not> is_blocked env q w"
    and miss: "lcache_look (el_cache (evl (yield w))) (KeyGen (question_key q)) = None"
      "lcache_look (el_negCache (evl w)) (KeyGen (question_key q)) = None"
    and room: "\<not> lengCache_Full (el_negCache (evl w))"
    and fail: "do_Lookup env Net req (yield w) = Inr (Inl err, w1)"
  shows "\<exists>m w'. doRequest env Net wr req w = Inr (wr\<lparr>w_written := w_written wr @ [m], w_closed := True\<rparr>, w') \<and>
    Rcode m = RcodeServerFailure \<and>
    lcache_look (el_negCache (evl w')) (KeyGen (question_key q)) = Some (new_Msg, clock w' + 4294967295 * Second)"
proof -
  let ?w = "yield w" and ?key = "KeyGen (question_key q)"
  have Y: "world_ok ?w" using yield_ok [OF ok] by simp
  have "ask_caches ?key ?w = (Miss, ?w)" using ask_caches_miss [OF Y, of ?key] miss by simp
  moreover have "ask_upstream env Net req ?key n ?w = Inr ((None, False, False, False), cache_failure ?key w1)" for n
    using fail by (simp add: ask_upstream_def)
  ultimately have rf: "responseFor env Net req (w_local wr) (w_remote wr) w =
      Inr ((None, False, False, False), cache_failure ?key w1)"
    using responseFor_no_custom [OF ip nc q] answer_question_not_blocked [OF nb(2)] nb(1)
    by (simp add: finish_reply_def)
  have "lcache_inv (el_negCache (evl w1))" "\<not> lengCache_Full (el_negCache (evl w1))"
    using ok room do_Lookup_fails [OF fail] by (simp_all add: world_ok_def failures_ok_def)
  from cache_failure_look [OF this, of ?key] doRequest_failure [OF rf] q obtain met where
    "doRequest env Net wr req w = Inr (wr\<lparr>w_written := w_written wr @
       [wire (rrs (cache_failure ?key w1)) (SetRcode req RcodeServerFailure (SetReply req new_Msg))],
       w_closed := True\<rparr>, (cache_failure ?key w1)\<lparr>mets := met\<rparr>)"
    and "lcache_look (el_negCache (evl (cache_failure ?key w1))) ?key = Some (new_Msg, clock w1 + 4294967295 * Second)"
    by auto
  moreover have "clock (cache_failure ?key w1) = clock w1" by (simp add: cache_failure_def)
  ultimately show ?thesis
    by (intro exI [of _ "wire (rrs (cache_failure ?key w1)) (SetRcode req RcodeServerFailure (SetReply req new_Msg))"])
      simp
qed

text \<open>A server whose only upstream is a DoH server; \<open>None\<close> means that the HTTP request fails.\<close>

definition ex_doh_config :: Config where
  "ex_doh_config = parseDefaultConfig\<lparr>Upstream_config := \<lparr>UpstreamDoH = ''https://dns.example'', Nameservers = [],
     TimeoutS = 5, Expire = 600, Maxcount = 0\<rparr>\<rparr>"

lemma ex_doh_config_fields [simp]:
  "Interval ex_doh_config = 200" "FollowCnameDepth ex_doh_config = 12" "Timeout ex_doh_config = 5000"
  "Upstream_config ex_doh_config = \<lparr>UpstreamDoH = ''https://dns.example'', Nameservers = [],
     TimeoutS = 5, Expire = 600, Maxcount = 0\<rparr>"
  by (simp_all add: ex_doh_config_def parseDefaultConfig_def)

definition ex_doh_leng :: "(nat \<Rightarrow> rr msg option) \<Rightarrow> unit leng_env" where
  "ex_doh_leng answers = \<lparr>le_codec = \<lparr>Pack = (\<lambda>_. Some []), Unpack = (\<lambda>bs. answers (length bs))\<rparr>,
     le_ups = (\<lambda>k. ex_env (Some \<lparr>StatusCode = 200, ContentType = ''application/dns-message'',
        Body = Some (replicate k 0)\<rparr>) (\<lambda>_. ExErr) []),
     le_matches = (\<lambda>_ _. False), le_ids = of_nat\<rparr>"

lemma ask_no_nameservers: "ask_nameservers 0 ex sched = LkFailed"
  using ask_nameservers_failed [of 0 ex sched] by simp

lemma yield_no_events [simp]: "between w = [] \<Longrightarrow> yield w = w"
  by (simp add: yield_def)

text \<open>In such a server the \<open>k\<close>-th lookup returns the \<open>k\<close>-th answer.\<close>

lemma ex_do_Lookup:
  assumes "el_config (evl w) = ex_doh_config" "Question req = q # qs" "between w = []"
  shows "\<exists>met. do_Lookup (ex_doh_leng answers) Net req w =
    (case answers (lookups w) of
       None \<Rightarrow> Inr (Inl \<lparr>re_qname = q_Name q, re_net = Net, re_nameservers = []\<rparr>, w\<lparr>mets := met, lookups := Suc (lookups w)\<rparr>)
     | Some m \<Rightarrow> Inr (Inr (fst (receive m (rrs w))),
         w\<lparr>mets := met, lookups := Suc (lookups w), rrs := rrs w @ Answer m\<rparr>))"
  using assms
  by (cases "answers (lookups w)")
    (auto simp: do_Lookup_def lookup_call_def Lookup_def DoHLookup_def Let_def ex_doh_leng_def ex_env_def Lookup_nameservers_def
      ask_no_nameservers receive_def alloc_rrs_def)

theorem failure_remembered_for_136_years_witness:
  "\<exists>m w'. doRequest (ex_doh_leng (\<lambda>_. None)) ''udp'' ex_writer ex_request
      (ex_world ex_doh_config empty_block_cache Map.empty []) =
      Inr (ex_writer\<lparr>w_written := [m], w_closed := True\<rparr>, w') \<and> Rcode m = RcodeServerFailure \<and>
    lcache_look (el_negCache (evl w')) ex_key = Some (new_Msg, clock w' + 4294967295 * Second)"
proof -
  let ?w = "ex_world ex_doh_config empty_block_cache Map.empty []"
  have y: "between ?w = []" by (simp add: ex_world_def)
  obtain met where l: "do_Lookup (ex_doh_leng (\<lambda>_. None)) ''udp'' ex_request (yield ?w) =
      Inr (Inl \<lparr>re_qname = ''example.com.'', re_net = ''udp'', re_nameservers = []\<rparr>, ?w\<lparr>mets := met, lookups := 1\<rparr>)"
    using ex_do_Lookup [of ?w ex_request _ _ "\<lambda>_. None" "''udp''"] y by (auto simp: ex_request_Question)
  have "\<exists>m w'. doRequest (ex_doh_leng (\<lambda>_. None)) ''udp'' ex_writer ex_request ?w =
      Inr (ex_writer\<lparr>w_written := w_written ex_writer @ [m], w_closed := True\<rparr>, w') \<and> Rcode m = RcodeServerFailure \<and>
    lcache_look (el_negCache (evl w')) (KeyGen (question_key
        \<lparr>q_Name = ''example.com.'', q_Qtype = TypeA, q_Qclass = ClassINET\<rparr>)) =
      Some (new_Msg, clock w' + 4294967295 * Second)"
    by (rule failure_remembered_for_136_years [OF ex_world_ok ex_request_Question ex_writer_fits _ _ _ _ _ _ l])
      (simp_all add: no_custom ex_isIPQuery not_blocked_empty y,
       simp_all add: ex_world_def NewDefault_def NewGeneric_def lcache_look_def lengCache_Full_def)
  then show ?thesis by (auto simp: ex_writer_def ex_key_def)
qed

text \<open>An address question misses both caches, or the question is of another kind.\<close>

definition goes_upstream :: "'re leng_env \<Rightarrow> rref msg \<Rightarrow> dns_question \<Rightarrow> 're world \<Rightarrow> bool" where
  "goes_upstream env req q w \<longleftrightarrow> ServeMux_handler (el_customDns (evl w)) req = None \<and> \<not> is_blocked env q w \<and>
     (isIPQuery q = notIPQuery \<or>
      lcache_look (el_cache (evl (yield w))) (KeyGen (question_key q)) = None \<and>
      lcache_look (el_negCache (evl w)) (KeyGen (question_key q)) = None)"

lemma responseFor_upstream:
  assumes ok: "world_ok w" and q: "Question req = q # qs" and ip: "remote_ip Net remote = Inr ip"
    and up: "goes_upstream env req q w"
  shows "responseFor env Net req local remote w =
    go_bind (ask_upstream env Net req (KeyGen (question_key q)) (isIPQuery q) (yield w))
      (\<lambda>(ans, w). finish_reply req ip ans w)"
proof -
  have "world_ok (yield w)" using yield_ok [OF ok] by simp
  then have "isIPQuery q = 0 \<or> ask_caches (KeyGen (question_key q)) (yield w) = (Miss, yield w)"
    using up ask_caches_miss [of "yield w" "KeyGen (question_key q)"] by (auto simp: goes_upstream_def)
  then have "answer_question env Net req q w = ask_upstream env Net req (KeyGen (question_key q)) (isIPQuery q) (yield w)"
    using answer_question_not_blocked [of env q w Net req] up by (auto simp: goes_upstream_def)
  moreover have "ServeMux_handler (el_customDns (evl w)) req = None" using up by (simp add: goes_upstream_def)
  ultimately show ?thesis using responseFor_no_custom [OF ip _ q, of w env local] by simp
qed

lemma upstream_reply:
  assumes ok: "world_ok w" and q: "Question req = q # qs" and ip: "remote_ip Net remote = Inr ip"
    and up: "goes_upstream env req q w"
    and ans: "do_Lookup env Net req (yield w) = Inr (Inr m, w1)" and full: "\<not> (Truncated m \<and> Net = ''udp'')"
  shows "\<exists>w'. responseFor env Net req local remote w = Inr ((Some (length (msgs w)), True, False, False), w') \<and>
    rrs w' = rrs w1 \<and> lookups w' = lookups w1 \<and> msgs w' = msgs w @ [SetReply req m] \<and>
    el_config (evl w') = el_config (evl w) \<and> world_ok w' \<and> (between w1 = [] \<longrightarrow> evl w' = evl w1 \<and> between w' = [])"
proof -
  let ?key = "KeyGen (question_key q)" and ?n = "isIPQuery q" and ?r = "length (msgs w)"
  let ?w2 = "w1\<lparr>msgs := msgs w1 @ [m]\<rparr>"
  let ?w3 = "yield (if ?n > 0 \<and> length (Answer m) > 0 then ?w2\<lparr>pending := pending ?w2 @ [(?key, length (msgs w1))]\<rparr> else ?w2)"
  have Y: "world_ok (yield w)" using yield_ok [OF ok] by simp
  have D: "msgs w1 = msgs w" "el_config (evl w1) = el_config (evl w)"
    using do_Lookup_ok [OF Y ans] by (auto simp: ext_def)
  have au: "ask_upstream env Net req ?key ?n (yield w) = Inr ((Some ?r, True, False, False), ?w3)"
    using ans full D by (auto simp: ask_upstream_def alloc_msg_def Let_def)
  have w3: "msgs ?w3 = msgs w @ [m]" "rrs ?w3 = rrs w1" "lookups ?w3 = lookups w1" "el_config (evl ?w3) = el_config (evl w)"
    using D by simp_all
  obtain met where fin: "finish_reply req ip (Some ?r, True, False, False) ?w3 = Inr ((Some ?r, True, False, False),
      ?w3\<lparr>msgs := (msgs ?w3)[?r := SetReply req (msgs ?w3 ! ?r)], mets := met\<rparr>)"
    using finish_reply_eq [of req ?r ?w3 ip True False False] q w3(1) by auto
  have rf: "responseFor env Net req local remote w = Inr ((Some ?r, True, False, False),
      ?w3\<lparr>msgs := msgs w @ [SetReply req m], mets := met\<rparr>)"
    unfolding responseFor_upstream [OF ok q ip up] au using fin w3(1) by simp
  then have "world_ok (?w3\<lparr>msgs := msgs w @ [SetReply req m], mets := met\<rparr>)"
    using responseFor_ok [OF ok rf] by (simp add: stage_ok_def)
  with rf w3 show ?thesis by (intro exI [of _ "?w3\<lparr>msgs := msgs w @ [SetReply req m], mets := met\<rparr>"]) auto
qed

text \<open>
  C37. The response code of an upstream answer never reaches the client: whatever the code of
  a complete upstream answer, NXDOMAIN for instance, the reply made from it has the same
  records, the request's id and question, and the code NOERROR.
\<close>

theorem upstream_code_replaced:
  assumes "world_ok w" and "Question req = q # qs" and "remote_ip Net remote = Inr ip"
    and "goes_upstream env req q w"
    and "do_Lookup env Net req (yield w) = Inr (Inr m, w1)" and "\<not> (Truncated m \<and> Net = ''udp'')"
  shows "\<exists>r w'. responseFor env Net req local remote w = Inr ((Some r, True, False, False), w') \<and>
    Answer (msgs w' ! r) = Answer m \<and> rrs w' = rrs w1 \<and> MsgId (msgs w' ! r) = MsgId req \<and>
    Question (msgs w' ! r) = [q] \<and> Rcode (msgs w' ! r) = RcodeSuccess"
  using upstream_reply [OF assms, of local] assms(2) by (force simp: SetReply_Question)

definition ex_nxdomain :: "rr msg" where
  "ex_nxdomain = new_Msg\<lparr>Rcode := RcodeNameError\<rparr>"

lemma ex_goes_upstream:
  "goes_upstream env ex_request \<lparr>q_Name = ''example.com.'', q_Qtype = TypeA, q_Qclass = ClassINET\<rparr>
     (ex_world cfg empty_block_cache Map.empty h)"
proof -
  let ?w = "ex_world cfg empty_block_cache Map.empty h"
  have y: "yield ?w = ?w" by (rule yield_no_events) (simp add: ex_world_def)
  show ?thesis unfolding goes_upstream_def y
    by (simp add: no_custom not_blocked_empty) (simp add: ex_world_def NewDefault_def NewGeneric_def lcache_look_def)
qed

lemma ex_yield: "yield (ex_world cfg bc mux h) = ex_world cfg bc mux h"
  by (rule yield_no_events) (simp add: ex_world_def)

lemma ex_first_Lookup:
  assumes "answers 0 = Some m"
  shows "\<exists>met. do_Lookup (ex_doh_leng answers) Net ex_request (ex_world ex_doh_config bc mux h) =
    Inr (Inr (fst (receive m h)), (ex_world ex_doh_config bc mux h)\<lparr>mets := met, lookups := 1, rrs := h @ Answer m\<rparr>)"
  using ex_do_Lookup [of "ex_world ex_doh_config bc mux h" ex_request _ _ answers Net] assms
  by (simp add: ex_request_Question) (simp add: ex_world_def)

theorem upstream_code_replaced_witness:
  "\<exists>r w'. responseFor (ex_doh_leng (\<lambda>_. Some ex_nxdomain)) ''udp'' ex_request (w_local ex_writer) (w_remote ex_writer)
      (ex_world ex_doh_config empty_block_cache Map.empty []) = Inr ((Some r, True, False, False), w') \<and>
    Rcode (msgs w' ! r) = RcodeSuccess \<and> Rcode ex_nxdomain = RcodeNameError"
proof -
  let ?env = "ex_doh_leng (\<lambda>_. Some ex_nxdomain)" and ?w = "ex_world ex_doh_config empty_block_cache Map.empty []"
  obtain w1 where l: "do_Lookup ?env ''udp'' ex_request (yield ?w) = Inr (Inr (fst (receive ex_nxdomain [])), w1)"
    using ex_first_Lookup [of "\<lambda>_. Some ex_nxdomain" ex_nxdomain] by (fastforce simp: ex_yield)
  have "\<not> (Truncated (fst (receive ex_nxdomain [])) \<and> ''udp'' = ''udp'')"
    by (simp add: ex_nxdomain_def receive_def alloc_rrs_def)
  from upstream_code_replaced [OF ex_world_ok ex_request_Question ex_writer_fits ex_goes_upstream l this]
  show ?thesis by (fastforce simp: ex_nxdomain_def)
qed

text \<open>
  A truncated answer to a query that came over UDP is fetched again over TCP, and the reply
  is made from the second answer, even a truncated one; when the second lookup fails, the
  request fails and the failure is remembered.
\<close>

theorem truncated_answer_retried:
  assumes "do_Lookup env ''udp'' req w = Inr (Inr m1, w1)" and "Truncated m1"
    and "do_Lookup env ''tcp'' req w1 = Inr (res, w2)"
  shows "ask_upstream env ''udp'' req key n w =
    (case res of
       Inl err \<Rightarrow> Inr ((None, False, False, False), cache_failure key w2)
     | Inr m2 \<Rightarrow> Inr ((Some (length (msgs w2)), True, False, False),
         yield (w2\<lparr>msgs := msgs w2 @ [m2],
           pending := (if n > 0 \<and> Answer m2 \<noteq> [] then pending w2 @ [(key, length (msgs w2))] else pending w2)\<rparr>)))"
  using assms by (cases res) (auto simp: ask_upstream_def alloc_msg_def Let_def)

theorem truncated_answer_retried_witness:
  "\<exists>w2. ask_upstream (ex_doh_leng (\<lambda>k. if k = 0 then Some (ex_nxdomain\<lparr>Truncated := True\<rparr>) else None)) ''udp''
     ex_request ex_key 4 (ex_world ex_doh_config empty_block_cache Map.empty []) = Inr ((None, False, False, False), w2)"
proof -
  let ?a = "\<lambda>k. if k = (0 :: nat) then Some (ex_nxdomain\<lparr>Truncated := True\<rparr>) else None"
  let ?w = "ex_world ex_doh_config empty_block_cache Map.empty []"
  let ?m = "fst (receive (ex_nxdomain\<lparr>Truncated := True\<rparr>) [])"
  obtain met where l: "do_Lookup (ex_doh_leng ?a) ''udp'' ex_request ?w = Inr (Inr ?m, ?w\<lparr>mets := met, lookups := 1, rrs := []\<rparr>)"
    using ex_first_Lookup [of ?a "ex_nxdomain\<lparr>Truncated := True\<rparr>" "''udp''" empty_block_cache Map.empty "[]"]
    by (auto simp: ex_nxdomain_def)
  have t: "Truncated ?m" by (simp add: receive_def alloc_rrs_def)
  obtain err w2 where "do_Lookup (ex_doh_leng ?a) ''tcp'' ex_request (?w\<lparr>mets := met, lookups := 1, rrs := []\<rparr>) = Inr (Inl err, w2)"
    using ex_do_Lookup [of "?w\<lparr>mets := met, lookups := 1, rrs := []\<rparr>" ex_request _ _ ?a "''tcp''"]
    by (fastforce simp: ex_request_Question ex_world_def)
  from truncated_answer_retried [OF l t this] show ?thesis by auto
qed

section \<open>Following CNAME records\<close>

text \<open>
  Following CNAME records keeps what the reply had: its header and question are unchanged,
  its own answers stay in front and in order, every record in memory keeps all but its time
  to live, and the configuration, the block list and the custom records are untouched, for
  every depth and every interleaving with the background.
\<close>

theorem following_keeps_reply:
  assumes "world_ok w" and "resp < length (msgs w)"
    and "follow_rounds n env Net req local remote resp w = Inr w'"
  shows "world_ok w' \<and> (\<exists>xs. msgs w' ! resp = (msgs w ! resp)\<lparr>Answer := Answer (msgs w ! resp) @ xs\<rparr>) \<and>
    (\<forall>i<length (rrs w). set_Ttl 0 (rrs w' ! i) = set_Ttl 0 (rrs w ! i)) \<and>
    el_config (evl w') = el_config (evl w) \<and> el_customDns (evl w') = el_customDns (evl w) \<and>
    el_blockCache (evl w') = el_blockCache (evl w)"
  using follow_rounds_ok [OF assms] by (simp add: follow_ok_def heap_ext_def grown_def)

theorem following_keeps_reply_witness:
  "\<exists>w' xs. follow_rounds 3 (ex_leng (\<lambda>_. ex_env None (\<lambda>_. ExErr) [])) ''udp'' ex_request (w_local ex_writer)
      (w_remote ex_writer) 0 ((ex_world ex_config empty_block_cache Map.empty [ex_rr])\<lparr>msgs := [ex_reply]\<rparr>) = Inr w' \<and>
    msgs w' ! 0 = ex_reply\<lparr>Answer := [0] @ xs\<rparr> \<and> world_ok w'"
proof -
  let ?w = "(ex_world ex_config empty_block_cache Map.empty [ex_rr])\<lparr>msgs := [ex_reply]\<rparr>"
  have ok: "world_ok ?w"
    using ex_world_ok [of ex_config empty_block_cache "[ex_rr]"]
    by (simp add: world_ok_def ex_world_def refs_ok_def ex_reply_def)
  have run: "follow_rounds 3 (ex_leng (\<lambda>_. ex_env None (\<lambda>_. ExErr) [])) ''udp'' ex_request (w_local ex_writer)
      (w_remote ex_writer) 0 ?w = Inr ?w"
    by (rule follow_rounds_stop) (simp_all add: ex_request_Question ex_reply_def isA_def ex_rr_def)
  from following_keeps_reply [OF ok _ run] run show ?thesis
    by (intro exI [of _ ?w]) (auto simp: ex_reply_def)
qed

text \<open>
  The records of a followed answer are appended once: what is added is taken from the
  followed answer, no two added records print alike and none prints like one that was there,
  and afterwards every record of a successful followed answer is present in print.
\<close>

theorem followed_answers_added_once:
  "\<exists>xs. append_answers h ok fs ans = ans @ xs \<and> set xs \<subseteq> set fs \<and>
     distinct (map (\<lambda>r. rr_String (h ! r)) xs) \<and>
     (\<forall>x\<in>set xs. \<forall>r\<in>set ans. rr_String (h ! r) \<noteq> rr_String (h ! x)) \<and>
     (if ok then \<forall>f\<in>set fs. \<exists>r\<in>set (ans @ xs). rr_String (h ! r) = rr_String (h ! f) else xs = [])"
  using append_answers_spec [of h ok fs ans] by (cases ok) simp_all

theorem followed_answers_added_once_witness:
  "append_answers [ex_rr, ex_rr] True [1] [0] = [0]"
proof -
  obtain xs where xs: "append_answers [ex_rr, ex_rr] True [1] [0] = [0] @ xs" "set xs \<subseteq> {1}"
    "\<forall>x\<in>set xs. rr_String ex_rr \<noteq> rr_String ([ex_rr, ex_rr] ! x)"
    using followed_answers_added_once [of "[ex_rr, ex_rr]" True "[1]" "[0]"] by auto
  then have "xs = []" by (cases xs) auto
  with xs show ?thesis by simp
qed

text \<open>
  C36. A CNAME record whose target cannot be resolved crashes the process: when the reply has a
  CNAME record and no address, following is on, and the lookup of the target fails, the
  handler dereferences the missing answer.
\<close>

theorem unresolvable_cname_crashes:
  assumes "responseFor env Net req (w_local wr) (w_remote wr) w = Inr ((Some r, True, b, c), w1)"
    and "Question req = q # qs" and "FollowCnameDepth (el_config (evl w1)) > 0"
    and "canFollow (rrs w1) req (msgs w1 ! r) = Inr (target # cnames, True)"
    and "responseFor env Net (SetQuestion (le_ids env (ids w1)) target (q_Qtype q) new_Msg) (w_local wr) (w_remote wr)
           (w1\<lparr>ids := Suc (ids w1)\<rparr>) = Inr ((None, s', b', c'), w2)"
  shows "doRequest env Net wr req w = Inl NilDereference"
proof -
  have "unat (FollowCnameDepth (el_config (evl w1))) \<noteq> 0"
    using assms(3) by (simp add: unat_eq_0 word_neq_0_conv)
  then obtain n where "unat (FollowCnameDepth (el_config (evl w1))) = Suc n" using not0_implies_Suc by blast
  then show ?thesis using assms(2,4,5) doRequest_success [OF assms(1)] by (simp add: Let_def)
qed

definition ex_cname :: "rr msg" where
  "ex_cname = new_Msg\<lparr>Answer := [\<lparr>Hdr = \<lparr>Hdr_Name = ''example.com.'', Rrtype = TypeCNAME, Class = ClassINET,
     Ttl = 10, Rdlength = 0\<rparr>, Rdata = RdCNAME ''gone.example.''\<rparr>]\<rparr>"

lemma ex_cname_reply:
  "\<exists>w1. responseFor (ex_doh_leng (\<lambda>k. if k = 0 then Some ex_cname else None)) ''udp'' ex_request (w_local ex_writer)
      (w_remote ex_writer) (ex_world ex_doh_config empty_block_cache Map.empty []) =
      Inr ((Some 0, True, False, False), w1) \<and> rrs w1 = Answer ex_cname \<and> lookups w1 = 1 \<and>
    Answer (msgs w1 ! 0) = [0] \<and> evl w1 = evl (ex_world ex_doh_config empty_block_cache Map.empty []) \<and>
    between w1 = [] \<and> world_ok w1"
proof -
  let ?a = "\<lambda>k. if k = (0 :: nat) then Some ex_cname else None"
  let ?w = "ex_world ex_doh_config empty_block_cache Map.empty []"
  let ?m = "fst (receive ex_cname [])"
  obtain met where l: "do_Lookup (ex_doh_leng ?a) ''udp'' ex_request (yield ?w) =
      Inr (Inr ?m, ?w\<lparr>mets := met, lookups := 1, rrs := Answer ex_cname\<rparr>)"
    using ex_first_Lookup [of ?a ex_cname "''udp''" empty_block_cache Map.empty "[]"] by (auto simp: ex_yield)
  have m: "\<not> (Truncated ?m \<and> ''udp'' = ''udp'')" "Answer ?m = [0]"
    by (simp_all add: receive_def alloc_rrs_def ex_cname_def)
  from upstream_reply [OF ex_world_ok ex_request_Question ex_writer_fits ex_goes_upstream l m(1), of "w_local ex_writer"] m(2)
  show ?thesis by (auto simp: ex_world_def)
qed

theorem unresolvable_cname_crashes_witness:
  "doRequest (ex_doh_leng (\<lambda>k. if k = 0 then Some ex_cname else None)) ''udp'' ex_writer ex_request
     (ex_world ex_doh_config empty_block_cache Map.empty []) = Inl NilDereference"
proof -
  let ?a = "\<lambda>k. if k = (0 :: nat) then Some ex_cname else None"
  let ?env = "ex_doh_leng ?a" and ?w = "ex_world ex_doh_config empty_block_cache Map.empty []"
  obtain w1 where rf: "responseFor ?env ''udp'' ex_request (w_local ex_writer) (w_remote ex_writer) ?w =
      Inr ((Some 0, True, False, False), w1)"
    and w1: "rrs w1 = Answer ex_cname" "lookups w1 = 1" "Answer (msgs w1 ! 0) = [0]" "evl w1 = evl ?w"
      "between w1 = []" "world_ok w1"
    using ex_cname_reply by blast
  have cf: "canFollow (rrs w1) ex_request (msgs w1 ! 0) = Inr ([''gone.example.''], True)"
    using w1(1,3) by (simp add: canFollow_def ex_request_Question Let_def isA_def isCname_def ex_cname_def List.map_filter_simps)
  let ?q = "\<lparr>q_Name = ''gone.example.'', q_Qtype = TypeA, q_Qclass = ClassINET\<rparr>"
  let ?r = "SetQuestion (le_ids ?env (ids w1)) ''gone.example.'' TypeA new_Msg" and ?w1 = "w1\<lparr>ids := Suc (ids w1)\<rparr>"
  have q: "Question ?r = ?q # []" by simp
  have up: "goes_upstream ?env ?r ?q ?w1"
    using w1(4,5) by (simp add: goes_upstream_def no_custom not_blocked_empty)
      (simp add: ex_world_def NewDefault_def NewGeneric_def lcache_look_def)
  obtain err w2 where "do_Lookup ?env ''udp'' ?r (yield ?w1) = Inr (Inl err, w2)"
    using ex_do_Lookup [of ?w1 ?r ?q "[]" ?a "''udp''"] w1(2,4,5) by fastforce
  then have f: "responseFor ?env ''udp'' (SetQuestion (le_ids ?env (ids w1)) ''gone.example.''
      (q_Qtype \<lparr>q_Name = ''example.com.'', q_Qtype = TypeA, q_Qclass = ClassINET\<rparr>) new_Msg)
      (w_local ex_writer) (w_remote ex_writer) ?w1 = Inr ((None, False, False, False), cache_failure (KeyGen (question_key ?q)) w2)"
    using responseFor_upstream [OF _ q ex_writer_fits up, of "w_local ex_writer"] w1(6)
    by (simp add: ask_upstream_def finish_reply_def)
  from unresolvable_cname_crashes [OF rf ex_request_Question _ cf f] w1(4) show ?thesis by simp
qed

text \<open>
  A request without a question crashes the process: the failure is reported to a metric
  that reads the first question. The mux in front of every listener refuses such messages
  (theory \<open>Doh_Server\<close>), so they do not get here.
\<close>

theorem request_without_question_crashes:
  assumes "Question req = []" and "remote_ip Net (w_remote wr) = Inr ip"
  shows "doRequest env Net wr req w = Inl IndexOutOfRange"
proof -
  have "responseFor env Net req (w_local wr) (w_remote wr) w = Inr ((None, False, False, False), w\<lparr>mets := mets w\<rparr>)"
    using assms cr.resolve_no_question [OF assms(1), of "el_customDns (evl w)" "w_local wr" "w_remote wr" "mets w"]
    by (simp add: responseFor_def)
  then show ?thesis
    using assms(1) by (simp add: doRequest_def ReportDNSResponse_def SetReply_Question)
qed

theorem request_without_question_crashes_witness:
  "doRequest (ex_leng (\<lambda>_. ex_env None (\<lambda>_. ExErr) [])) ''http''
     (ex_writer\<lparr>w_remote := TCPAddr (Some [10, 0, 0, 9]) 999\<rparr>) new_Msg
     (ex_world ex_config empty_block_cache Map.empty []) = Inl IndexOutOfRange"
  by (rule request_without_question_crashes) simp_all

section \<open>The cache insertion that runs late\<close>

text \<open>
  C39. The goroutine that stores a reply reads the message when it runs, possibly after a
  custom record was appended to it by CNAME following. From then on the cache shares that
  record: a later cache hit overwrites the time to live of the custom record itself with the
  seconds that the cached reply has left.
\<close>

theorem late_insert_rewrites_custom_ttl:
  assumes ok: "world_ok w" and g: "pending w = [(KeyGen q, r)]"
    and a: "a \<in> custom_refs (el_customDns (evl w))" "a \<in> set (Answer (msgs w ! r))"
    and room: "\<not> lengCache_Full (el_cache (evl w))"
    and d: "int d \<le> minTtlFor DefaultEntry_RRs (rrs w) (msgs w ! r)"
    and w1: "w1 = env_step (Pass d) (env_step (RunSet 0) w)"
  shows "fst (ask_caches (KeyGen q) w1) = Hit (msgs w ! r) \<and>
    el_customDns (evl (snd (ask_caches (KeyGen q) w1))) = el_customDns (evl w) \<and>
    int (unat (ttl_of (rrs (snd (ask_caches (KeyGen q) w1))) a)) =
      (minTtlFor DefaultEntry_RRs (rrs w) (msgs w ! r) - int d) div Second"
proof -
  let ?e = "msgs w ! r" and ?l = "minTtlFor DefaultEntry_RRs (rrs w) (msgs w ! r)"
  have inv: "lcache_inv (el_cache (evl w))" and refs: "refs_ok (Answer ?e) (rrs w)"
    using ok g by (simp_all add: world_ok_def entries_ok_def)
  obtain c where c: "lengCache_Set DefaultEntry_RRs (KeyGen q) (Some ?e) (clock w) (rrs w) (el_cache (evl w)) = (None, c)"
    "lcache_inv c" "lcache_look c = (lcache_look (el_cache (evl w)))(KeyGen q \<mapsto> (?e, clock w + ?l))"
    using lc.put_ok [OF inv, of "KeyGen q" ?e "clock w" "rrs w"] room by auto
  have W: "evl w1 = (evl w)\<lparr>el_cache := c\<rparr>" "clock w1 = clock w + int d" "rrs w1 = rrs w"
    using g c(1) by (simp_all add: w1 cache_goroutine_def)
  have look: "lcache_look (el_cache (evl w1)) (ToLower (KeyGen q)) = Some (?e, clock w + ?l)"
    using W(1) c(3) by simp
  have live: "clock w1 \<le> clock w + ?l" using W(2) d by simp
  have "ask_caches (KeyGen q) w1 = (Hit ?e, w1\<lparr>rrs :=
      store_ttls (uint32_Seconds (duration_Truncate (clock w + ?l - clock w1) Second)) (Answer ?e) (rrs w1)\<rparr>)"
    by (rule ask_caches_hit [OF _ look live]) (use W(1) c(2) in simp)
  moreover have "refs_ok (Answer ?e) (rrs w1)" using refs W(3) by simp
  from ttl_after_hit [OF this _ live refl a(2)] W(2)
  have "int (unat (ttl_of (store_ttls (uint32_Seconds (duration_Truncate (clock w + ?l - clock w1) Second))
      (Answer ?e) (rrs w1)) a)) = (?l - int d) div Second" by simp
  ultimately show ?thesis using W(1) by simp
qed

text \<open>A CNAME record that lives ten seconds, followed to a custom record that lives an hour.\<close>

definition ex_shared_world :: "unit world" where
  "ex_shared_world = (ex_world ex_config empty_block_cache ex_mux
      [ex_rr\<lparr>Hdr := (Hdr ex_rr)\<lparr>Ttl := 3600\<rparr>\<rparr>, hd (Answer ex_cname)])
     \<lparr>msgs := [new_Msg\<lparr>Answer := [1, 0]\<rparr>], pending := [(ex_key, 0)]\<rparr>"

theorem late_insert_rewrites_custom_ttl_witness:
  "ttl_of (rrs ex_shared_world) 0 = 3600 \<and>
   ttl_of (rrs (snd (ask_caches ex_key (env_step (Pass 3000000000) (env_step (RunSet 0) ex_shared_world))))) 0 = 7"
proof -
  let ?w = "ex_shared_world"
  have refs: "custom_refs ex_mux = {0}" by (simp add: custom_refs_def ex_mux_def)
  have ok: "world_ok ?w"
    using refs by (simp add: ex_shared_world_def world_ok_def ex_world_def new_cache_ok refs_ok_def)
  have ttl: "minTtlFor DefaultEntry_RRs (rrs ?w) (msgs ?w ! 0) = 10 * Second"
    by (simp add: ex_shared_world_def minTtlFor_def DefaultEntry_RRs_def ttl_of_def ex_cname_def ex_rr_def
        seconds_of_u32_def Let_def)
  have "int (unat (ttl_of (rrs (snd (ask_caches ex_key (env_step (Pass 3000000000) (env_step (RunSet 0) ?w))))) 0)) =
      (10 * Second - int 3000000000) div Second"
    using late_insert_rewrites_custom_ttl [OF ok, of _ 0 0 3000000000, OF _ _ _ _ _ refl] refs ttl
    by (simp add: ex_shared_world_def ex_key_def Second_def) (simp add: ex_world_def NewDefault_def NewGeneric_def
        lengCache_Full_def)
  then have "uint (ttl_of (rrs (snd (ask_caches ex_key (env_step (Pass 3000000000) (env_step (RunSet 0) ?w))))) 0) = 7"
    by (simp add: Second_def)
  then have "ttl_of (rrs (snd (ask_caches ex_key (env_step (Pass 3000000000) (env_step (RunSet 0) ?w))))) 0 = 7"
    by (metis word_of_int_numeral word_of_int_uint)
  then show ?thesis by (simp add: ex_shared_world_def ttl_of_def)
qed

end
