(* ===== verification/Workers.thy ===== *)
theory Workers
  imports Request_Properties
begin

text \<open>
  A worker of the event loop (\<open>doRequest\<close> and \<open>responseFor\<close> of src/handler.go), cut into the
  steps between which other goroutines may run. \<open>point\<close> says where in the code a worker is,
  with the local variables that are still needed; \<open>worker_step\<close> runs the code from there to
  the next point. A worker that runs alone, with the background at the points where
  \<open>Event_Loop\<close> has its \<open>yield\<close>, is \<open>doRequest\<close> (\<open>run_worker_doRequest\<close>); theory
  \<open>Worker_Pool\<close> lets many workers run.

  The counters of an upstream lookup are written when the lookup starts, and its answer is
  used at a later point.
\<close>

section \<open>Points\<close>

text \<open>Who called \<open>responseFor\<close>: the worker for its request, or the loop that follows CNAME
  records, with the reply, the targets still to ask and the rounds left.\<close>

datatype caller = ForRequest | ForCname mref "string list" nat

datatype point =
    Begin caller "rref msg"
  | CheckBlocked caller "rref msg" dns_question "ip option"
  | CheckCache caller "rref msg" dns_question "ip option"
  | CheckNegCache caller "rref msg" dns_question "ip option"
  | AskUpstream caller "rref msg" dns_question "ip option" string
  | Answered_by caller "rref msg" dns_question "ip option" string "ResolvError + rref msg"
  | Stored caller "rref msg" "ip option" answer
  | Deferred caller "rref msg" "ip option" answer
  | Returning caller answer
  | Appending mref mref bool "string list" nat
  | Targets mref "string list" nat
  | Round mref nat
  | Writing mref
  | Closed

section \<open>Steps\<close>

definition begin_step ::
  "string \<Rightarrow> response_writer \<Rightarrow> caller \<Rightarrow> rref msg \<Rightarrow> 're world \<Rightarrow> go_panic + point \<times> 're world" where
  "begin_step Net wr c r w =
     go_bind (remote_ip Net (w_remote wr)) (\<lambda>ip.
       go_bind (CustomRecordsResolver_Resolve (el_customDns (evl w)) r (w_local wr) (w_remote wr) (mets w))
         (\<lambda>(custom, met).
           let w = w\<lparr>mets := met\<rparr> in
           case custom of
             Some m \<Rightarrow> (case alloc_msg m w of (i, w) \<Rightarrow> Inr (Returning c (Some i, True, False, True), w))
           | None \<Rightarrow>
               (case Question r of
                  [] \<Rightarrow> Inr (Returning c (None, False, False, False), w)
                | q # _ \<Rightarrow> Inr (CheckBlocked c r q ip, w))))"

definition check_blocked_step ::
  "'re leng_env \<Rightarrow> string \<Rightarrow> caller \<Rightarrow> rref msg \<Rightarrow> dns_question \<Rightarrow> ip option \<Rightarrow> 're world
    \<Rightarrow> go_panic + point \<times> 're world" where
  "check_blocked_step env Net c r q ip w =
     (if isIPQuery q > 0 \<and> lengActive w \<and>
         MemoryBlockCache_Exists (le_matches env) (Qname (question_key q)) (el_blockCache (evl w))
      then go_bind (blockedResponseFor (el_config (evl w)) r (isIPQuery q) (rrs w)) (\<lambda>(m, h).
        case alloc_msg m (w\<lparr>rrs := h\<rparr>) of (i, w) \<Rightarrow> Inr (Deferred c r ip (Some i, True, True, False), w))
      else if isIPQuery q > 0 then Inr (CheckCache c r q ip, w)
      else Inr (AskUpstream c r q ip Net, w))"

definition check_cache_step ::
  "caller \<Rightarrow> rref msg \<Rightarrow> dns_question \<Rightarrow> ip option \<Rightarrow> 're world \<Rightarrow> point \<times> 're world" where
  "check_cache_step c r q ip w =
     (case lengCache_Get DefaultEntry_RRs (KeyGen (question_key q)) (clock w) (rrs w) (el_cache (evl w)) of
        (Inr mesg, h, k) \<Rightarrow>
          (case alloc_msg (mesg\<lparr>MsgId := MsgId r\<rparr>) (w\<lparr>rrs := h, evl := (evl w)\<lparr>el_cache := k\<rparr>\<rparr>) of
             (i, w) \<Rightarrow> (Deferred c r ip (Some i, True, False, True), w))
      | (Inl _, h, k) \<Rightarrow> (CheckNegCache c r q ip, w\<lparr>rrs := h, evl := (evl w)\<lparr>el_cache := k\<rparr>\<rparr>))"

definition check_negCache_step ::
  "string \<Rightarrow> caller \<Rightarrow> rref msg \<Rightarrow> dns_question \<Rightarrow> ip option \<Rightarrow> 're world \<Rightarrow> point \<times> 're world" where
  "check_negCache_step Net c r q ip w =
     (case lengCache_Get DefaultEntry_RRs (KeyGen (question_key q)) (clock w) (rrs w) (el_negCache (evl w)) of
        (Inl _, h, k) \<Rightarrow> (AskUpstream c r q ip Net, w\<lparr>rrs := h, evl := (evl w)\<lparr>el_negCache := k\<rparr>\<rparr>)
      | (Inr _, h, k) \<Rightarrow>
          (Deferred c r ip (None, False, True, False), w\<lparr>rrs := h, evl := (evl w)\<lparr>el_negCache := k\<rparr>\<rparr>))"

text \<open>After a lookup over \<open>net\<close>; only the first one can have been over UDP.\<close>

definition upstream_step ::
  "caller \<Rightarrow> rref msg \<Rightarrow> dns_question \<Rightarrow> ip option \<Rightarrow> string \<Rightarrow> ResolvError + rref msg \<Rightarrow> 're world
    \<Rightarrow> point \<times> 're world" where
  "upstream_step c r q ip net res w =
     (case res of
        Inl err \<Rightarrow> (Deferred c r ip (None, False, False, False), cache_failure (KeyGen (question_key q)) w)
      | Inr resp \<Rightarrow>
          if Truncated resp \<and> net = ''udp'' then (AskUpstream c r q ip ''tcp'', w)
          else (case alloc_msg resp w of (i, w) \<Rightarrow>
            (Stored c r ip (Some i, True, False, False),
             if isIPQuery q > 0 \<and> length (Answer resp) > 0
             then w\<lparr>pending := pending w @ [(KeyGen (question_key q), i)]\<rparr> else w)))"

text \<open>The call for the request returned: follow CNAME records, or write the failure.\<close>

definition returning_step ::
  "rref msg \<Rightarrow> response_writer \<Rightarrow> caller \<Rightarrow> answer \<Rightarrow> 're world
    \<Rightarrow> go_panic + point \<times> response_writer \<times> 're world" where
  "returning_step req wr c ans w =
     (case c of
        ForRequest \<Rightarrow>
          (case ans of (resp, ok, _, _) \<Rightarrow>
             case (ok, resp) of
               (True, Some i) \<Rightarrow> Inr (Round i (unat (FollowCnameDepth (el_config (evl w)))), wr, w)
             | (True, None) \<Rightarrow> Inl NilDereference
             | (False, _) \<Rightarrow>
                 let m = SetRcode req RcodeServerFailure (SetReply req new_Msg);
                     wr = WriteReplyMsg (rrs w) m wr
                 in go_bind (ReportDNSResponse (w_remote wr) m False (mets w))
                      (\<lambda>met. Inr (Closed, wr\<lparr>w_closed := True\<rparr>, w\<lparr>mets := met\<rparr>)))
      | ForCname resp cnames n \<Rightarrow>
          (case ans of (followed, ok, _, _) \<Rightarrow>
             case followed of
               None \<Rightarrow> Inl NilDereference
             | Some f \<Rightarrow> Inr (Appending resp f ok cnames n, wr, w)))"

definition target_step ::
  "'re leng_env \<Rightarrow> rref msg \<Rightarrow> mref \<Rightarrow> string list \<Rightarrow> nat \<Rightarrow> 're world \<Rightarrow> go_panic + point \<times> 're world" where
  "target_step env req resp cnames n w =
     (case cnames of
        [] \<Rightarrow> Inr (Round resp n, w)
      | target # cnames \<Rightarrow>
          (case Question req of
             [] \<Rightarrow> Inl IndexOutOfRange
           | q # _ \<Rightarrow> Inr (Begin (ForCname resp cnames n)
               (SetQuestion (le_ids env (ids w)) target (q_Qtype q) new_Msg), w\<lparr>ids := Suc (ids w)\<rparr>)))"

definition round_step :: "rref msg \<Rightarrow> mref \<Rightarrow> nat \<Rightarrow> 're world \<Rightarrow> go_panic + point" where
  "round_step req resp n w =
     (case n of
        0 \<Rightarrow> Inr (Writing resp)
      | Suc m \<Rightarrow> go_bind (canFollow (rrs w) req (msgs w ! resp)) (\<lambda>(cnames, ok).
          Inr (if ok then Targets resp cnames m else Writing resp)))"

definition append_step :: "mref \<Rightarrow> mref \<Rightarrow> bool \<Rightarrow> 're world \<Rightarrow> 're world" where
  "append_step resp f ok w =
     w\<lparr>msgs := (msgs w)[resp := (msgs w ! resp)\<lparr>Answer :=
       append_answers (rrs w) ok (Answer (msgs w ! f)) (Answer (msgs w ! resp))\<rparr>]\<rparr>"

text \<open>A step that leaves the response writer alone.\<close>

definition quiet :: "response_writer \<Rightarrow> point \<times> 're world \<Rightarrow> point \<times> response_writer \<times> 're world" where
  "quiet wr = (\<lambda>(pt, w). (pt, wr, w))"

definition go_quiet ::
  "response_writer \<Rightarrow> go_panic + point \<times> 're world \<Rightarrow> go_panic + point \<times> response_writer \<times> 're world" where
  "go_quiet wr m = go_bind m (\<lambda>x. Inr (quiet wr x))"

definition worker_step ::
  "'re leng_env \<Rightarrow> string \<Rightarrow> rref msg \<Rightarrow> point \<Rightarrow> response_writer \<Rightarrow> 're world
    \<Rightarrow> go_panic + point \<times> response_writer \<times> 're world" where
  "worker_step env Net req pt wr w =
     (case pt of
        Begin c r \<Rightarrow> go_quiet wr (begin_step Net wr c r w)
      | CheckBlocked c r q ip \<Rightarrow> go_quiet wr (check_blocked_step env Net c r q ip w)
      | CheckCache c r q ip \<Rightarrow> Inr (quiet wr (check_cache_step c r q ip w))
      | CheckNegCache c r q ip \<Rightarrow> Inr (quiet wr (check_negCache_step Net c r q ip w))
      | AskUpstream c r q ip net \<Rightarrow>
          go_bind (lookup_call env net r w) (\<lambda>(res, w). Inr (Answered_by c r q ip net res, wr, w))
      | Answered_by c r q ip net res \<Rightarrow> Inr (quiet wr (upstream_step c r q ip net res w))
      | Stored c r ip ans \<Rightarrow> Inr (Deferred c r ip ans, wr, w)
      | Deferred c r ip ans \<Rightarrow>
          go_bind (finish_reply r ip ans w) (\<lambda>(ans, w). Inr (Returning c ans, wr, w))
      | Returning c ans \<Rightarrow> returning_step req wr c ans w
      | Appending resp f ok cnames n \<Rightarrow> Inr (Targets resp cnames n, wr, append_step resp f ok w)
      | Targets resp cnames n \<Rightarrow> go_quiet wr (target_step env req resp cnames n w)
      | Round resp n \<Rightarrow> go_bind (round_step req resp n w) (\<lambda>pt. Inr (pt, wr, w))
      | Writing resp \<Rightarrow> Inr (Closed, (WriteReplyMsg (rrs w) (msgs w ! resp) wr)\<lparr>w_closed := True\<rparr>, w)
      | Closed \<Rightarrow> Inr (Closed, wr, w))"

section \<open>Every worker ends\<close>

text \<open>
  The own steps of a worker lead forward, whatever other goroutines do to the shared state
  in between: rounds are used up, then the targets of a round, then the points of one call.
\<close>

fun caller_rank :: "caller \<Rightarrow> nat \<times> nat \<times> nat" where
  "caller_rank ForRequest = (3, 0, 0)"
| "caller_rank (ForCname resp cnames n) = (2, Suc (2 * n), length cnames)"

fun point_rank :: "point \<Rightarrow> (nat \<times> nat \<times> nat) \<times> nat" where
  "point_rank (Begin c r) = (caller_rank c, 12)"
| "point_rank (CheckBlocked c r q ip) = (caller_rank c, 11)"
| "point_rank (CheckCache c r q ip) = (caller_rank c, 10)"
| "point_rank (CheckNegCache c r q ip) = (caller_rank c, 9)"
| "point_rank (AskUpstream c r q ip net) = (caller_rank c, if net = ''udp'' then 8 else 6)"
| "point_rank (Answered_by c r q ip net res) = (caller_rank c, if net = ''udp'' then 7 else 5)"
| "point_rank (Stored c r ip ans) = (caller_rank c, 4)"
| "point_rank (Deferred c r ip ans) = (caller_rank c, 3)"
| "point_rank (Returning c ans) = (caller_rank c, 2)"
| "point_rank (Appending resp f ok cnames n) = ((2, Suc (2 * n), length cnames), 1)"
| "point_rank (Targets resp cnames n) = ((2, Suc (2 * n), length cnames), 0)"
| "point_rank (Round resp n) = ((2, 2 * n, 0), 0)"
| "point_rank (Writing resp) = ((1, 0, 0), 0)"
| "point_rank Closed = ((0, 0, 0), 0)"

definition rank_less :: "(((nat \<times> nat \<times> nat) \<times> nat) \<times> ((nat \<times> nat \<times> nat) \<times> nat)) set" where
  "rank_less = (less_than <*lex*> less_than <*lex*> less_than) <*lex*> less_than"

lemma wf_rank_less: "wf rank_less"
  by (simp add: rank_less_def wf_lex_prod)

lemma worker_step_rank:
  assumes "worker_step env Net req pt wr w = Inr (pt', wr', w')" and "pt \<noteq> Closed"
  shows "(point_rank pt', point_rank pt) \<in> rank_less"
proof (cases pt)
  case (Begin c r)
  with assms show ?thesis
    by (auto simp: worker_step_def go_quiet_def quiet_def begin_step_def rank_less_def go_bind_Inr_iff Let_def
        alloc_msg_def split: option.splits list.splits)
next
  case (CheckBlocked c r q ip)
  with assms show ?thesis
    by (auto simp: worker_step_def go_quiet_def quiet_def check_blocked_step_def rank_less_def go_bind_Inr_iff
        alloc_msg_def split: if_splits)
next
  case (CheckCache c r q ip)
  with assms show ?thesis
    by (auto simp: worker_step_def quiet_def check_cache_step_def rank_less_def alloc_msg_def split: prod.splits sum.splits)
next
  case (CheckNegCache c r q ip)
  with assms show ?thesis
    by (auto simp: worker_step_def quiet_def check_negCache_step_def rank_less_def split: prod.splits sum.splits)
next
  case (Answered_by c r q ip net res)
  with assms show ?thesis
    by (auto simp: worker_step_def quiet_def upstream_step_def rank_less_def alloc_msg_def split: sum.splits if_splits)
next
  case (Returning c ans)
  with assms show ?thesis
    by (cases c) (auto simp: worker_step_def returning_step_def rank_less_def go_bind_Inr_iff Let_def
        split: prod.splits bool.splits option.splits)
next
  case (Targets resp cnames n)
  with assms show ?thesis
    by (auto simp: worker_step_def go_quiet_def quiet_def target_step_def rank_less_def split: list.splits)
next
  case (Round resp n)
  with assms show ?thesis
    by (auto simp: worker_step_def round_step_def rank_less_def go_bind_Inr_iff split: nat.splits)
qed (use assms in \<open>auto simp: worker_step_def rank_less_def go_bind_Inr_iff\<close>)

section \<open>A worker alone\<close>

text \<open>The points before which theory \<open>Event_Loop\<close> lets the background run.\<close>

fun yields :: "point \<Rightarrow> bool" where
  "yields (CheckBlocked c r q ip) = True"
| "yields (Answered_by c r q ip net res) = True"
| "yields (Stored c r ip ans) = True"
| "yields (Appending resp f ok cnames n) = True"
| "yields _ = False"

function run_worker ::
  "'re leng_env \<Rightarrow> string \<Rightarrow> rref msg \<Rightarrow> point \<Rightarrow> response_writer \<Rightarrow> 're world
    \<Rightarrow> go_panic + response_writer \<times> 're world" where
  "run_worker env Net req pt wr w =
     (if pt = Closed then Inr (wr, w)
      else go_bind (worker_step env Net req pt wr (if yields pt then yield w else w))
             (\<lambda>(pt, wr, w). run_worker env Net req pt wr w))"
  by pat_completeness auto

termination
proof (relation "inv_image rank_less (\<lambda>(env, Net, req, pt, wr, w). point_rank pt)", goal_cases)
  case 1
  show ?case by (simp add: wf_rank_less)
next
  case (2 env Net req pt wr w x y z)
  then show ?case by (cases y) (auto dest: worker_step_rank)
qed

declare run_worker.simps [simp del]

lemma run_step:
  "pt \<noteq> Closed \<Longrightarrow> run_worker env Net req pt wr w =
     go_bind (worker_step env Net req pt wr (if yields pt then yield w else w))
       (\<lambda>(pt, wr, w). run_worker env Net req pt wr w)"
  by (subst run_worker.simps) simp

lemma run_Closed [simp]: "run_worker env Net req Closed wr w = Inr (wr, w)"
  by (simp add: run_worker.simps)

lemma run_Deferred:
  "run_worker env Net req (Deferred c r ip ans) wr w =
     go_bind (finish_reply r ip ans w) (\<lambda>(ans, w). run_worker env Net req (Returning c ans) wr w)"
  by (auto simp: run_step [of "Deferred c r ip ans"] worker_step_def go_bind_assoc intro!: go_bind_cong)

lemma run_AskUpstream:
  "run_worker env Net req (AskUpstream c r q ip net) wr w =
     go_bind (do_Lookup env net r w) (\<lambda>(res, w). case upstream_step c r q ip net res w of
       (pt, w) \<Rightarrow> run_worker env Net req pt wr w)"
  by (auto simp: run_step [of "AskUpstream c r q ip net"] run_step [of "Answered_by c r q ip net _"] worker_step_def
      go_bind_assoc do_Lookup_def quiet_def intro!: go_bind_cong split: prod.split)

lemma run_ask_upstream:
  "run_worker env Net req (AskUpstream c r q ip net) wr w =
     go_bind (ask_upstream env net r (KeyGen (question_key q)) (isIPQuery q) w)
       (\<lambda>(ans, w). run_worker env Net req (Deferred c r ip ans) wr w)"
proof -
  have stored: "run_worker env Net req (Stored c r ip ans) wr v =
      run_worker env Net req (Deferred c r ip ans) wr (yield v)" for ans v
    by (simp add: run_step [of "Stored c r ip ans"] worker_step_def)
  show ?thesis
    by (auto simp: run_AskUpstream [where net = net] ask_upstream_def go_bind_assoc upstream_step_def stored
        run_AskUpstream [where net = "''tcp''"] Let_def alloc_msg_def intro!: go_bind_cong split: sum.split)
qed

lemma run_answer_question:
  "run_worker env Net req (CheckBlocked c r q ip) wr w =
     go_bind (answer_question env Net r q w) (\<lambda>(ans, w). run_worker env Net req (Deferred c r ip ans) wr w)"
proof -
  have neg: "run_worker env Net req (CheckNegCache c r q ip) wr v =
      (case check_negCache_step Net c r q ip v of (pt, v) \<Rightarrow> run_worker env Net req pt wr v)" for v
    by (simp add: run_step [of "CheckNegCache c r q ip"] worker_step_def quiet_def split: prod.split)
  have caches: "run_worker env Net req (CheckCache c r q ip) wr v =
      (case ask_caches (KeyGen (question_key q)) v of
         (Hit mesg, v) \<Rightarrow> (case alloc_msg (mesg\<lparr>MsgId := MsgId r\<rparr>) v of
            (i, v) \<Rightarrow> run_worker env Net req (Deferred c r ip (Some i, True, False, True)) wr v)
       | (NegHit, v) \<Rightarrow> run_worker env Net req (Deferred c r ip (None, False, True, False)) wr v
       | (Miss, v) \<Rightarrow> run_worker env Net req (AskUpstream c r q ip Net) wr v)" for v
    by (simp add: run_step [of "CheckCache c r q ip"] worker_step_def quiet_def check_cache_step_def ask_caches_def
        neg check_negCache_step_def alloc_msg_def Let_def split: prod.split sum.split)
  show ?thesis
    by (auto simp: run_step [of "CheckBlocked c r q ip"] worker_step_def go_quiet_def quiet_def check_blocked_step_def
        answer_question_def Let_def go_bind_assoc alloc_msg_def caches run_ask_upstream
        intro!: go_bind_cong split: prod.split cached_answer.split)
qed

lemma run_responseFor:
  "run_worker env Net req (Begin c r) wr w =
     go_bind (responseFor env Net r (w_local wr) (w_remote wr) w) (\<lambda>(ans, w). run_worker env Net req (Returning c ans) wr w)"
  by (auto simp: run_step [of "Begin c r"] worker_step_def go_quiet_def quiet_def begin_step_def responseFor_def
      Let_def go_bind_assoc alloc_msg_def run_answer_question run_Deferred
      intro!: go_bind_cong split: prod.split option.split list.split)

lemma run_follow_cnames:
  "run_worker env Net req (Targets resp cnames n) wr w =
     go_bind (follow_cnames env Net req (w_local wr) (w_remote wr) resp cnames w)
       (\<lambda>w. run_worker env Net req (Round resp n) wr w)"
proof (induction cnames arbitrary: w)
  case Nil
  then show ?case by (simp add: run_step [of "Targets resp [] n"] worker_step_def go_quiet_def quiet_def target_step_def)
next
  case (Cons target cnames)
  have app: "run_worker env Net req (Appending resp f ok cnames n) wr v =
      run_worker env Net req (Targets resp cnames n) wr (append_step resp f ok (yield v))" for f ok v
    by (simp add: run_step [of "Appending resp f ok cnames n"] worker_step_def)
  have ret: "run_worker env Net req (Returning (ForCname resp cnames n) (followed, ok, b, d)) wr v =
      (case followed of None \<Rightarrow> Inl NilDereference
       | Some f \<Rightarrow> run_worker env Net req (Targets resp cnames n) wr (append_step resp f ok (yield v)))" for followed ok b d v
    by (simp add: run_step [of "Returning (ForCname resp cnames n) (followed, ok, b, d)"] worker_step_def
        returning_step_def app split: option.split)
  show ?case
    by (auto simp: run_step [of "Targets resp (target # cnames) n"] worker_step_def go_quiet_def quiet_def target_step_def
        run_responseFor ret Cons.IH append_step_def go_bind_assoc Let_def intro!: go_bind_cong split: list.split option.split)
qed

lemma run_follow_rounds:
  "run_worker env Net req (Round resp n) wr w =
     go_bind (follow_rounds n env Net req (w_local wr) (w_remote wr) resp w)
       (\<lambda>w. Inr ((WriteReplyMsg (rrs w) (msgs w ! resp) wr)\<lparr>w_closed := True\<rparr>, w))"
proof (induction n arbitrary: w)
  case 0
  then show ?case
    by (simp add: run_step [of "Round resp 0"] run_step [of "Writing resp"] worker_step_def round_step_def)
next
  case (Suc n)
  show ?case
    by (auto simp: run_step [of "Round resp (Suc n)"] run_step [of "Writing resp"] worker_step_def round_step_def
        run_follow_cnames Suc.IH go_bind_assoc intro!: go_bind_cong)
qed

lemma run_worker_doRequest: "run_worker env Net req (Begin ForRequest req) wr w = doRequest env Net wr req w"
  by (auto simp: run_responseFor doRequest_def run_step [of "Returning ForRequest _"] worker_step_def returning_step_def
      run_follow_rounds go_bind_assoc Let_def intro!: go_bind_cong split: prod.split bool.split option.split)

section \<open>What a step of a worker does to the others\<close>

text \<open>
  A worker owns the messages its point refers to. Its step writes to these only, adds
  messages and records, rewrites times to live, and leaves the configuration, the block list
  and the custom records alone.
\<close>

fun caller_refs :: "caller \<Rightarrow> mref set" where
  "caller_refs ForRequest = {}"
| "caller_refs (ForCname resp cnames n) = {resp}"

definition answer_refs :: "answer \<Rightarrow> mref set" where
  "answer_refs ans = set_option (fst ans)"

fun owned :: "point \<Rightarrow> mref set" where
  "owned (Begin c r) = caller_refs c"
| "owned (CheckBlocked c r q ip) = caller_refs c"
| "owned (CheckCache c r q ip) = caller_refs c"
| "owned (CheckNegCache c r q ip) = caller_refs c"
| "owned (AskUpstream c r q ip net) = caller_refs c"
| "owned (Answered_by c r q ip net res) = caller_refs c"
| "owned (Stored c r ip ans) = caller_refs c \<union> answer_refs ans"
| "owned (Deferred c r ip ans) = caller_refs c \<union> answer_refs ans"
| "owned (Returning c ans) = caller_refs c \<union> answer_refs ans"
| "owned (Appending resp f ok cnames n) = {resp, f}"
| "owned (Targets resp cnames n) = {resp}"
| "owned (Round resp n) = {resp}"
| "owned (Writing resp) = {resp}"
| "owned Closed = {}"

definition step_keeps :: "mref set \<Rightarrow> 're world \<Rightarrow> 're world \<Rightarrow> bool" where
  "step_keeps A w w' \<longleftrightarrow>
     heap_ext (rrs w) (rrs w') \<and> length (msgs w) \<le> length (msgs w') \<and>
     (\<forall>i<length (msgs w). i \<notin> A \<longrightarrow> msgs w' ! i = msgs w ! i) \<and>
     lengActive w' = lengActive w \<and> el_config (evl w') = el_config (evl w) \<and>
     el_blockCache (evl w') = el_blockCache (evl w) \<and> el_customDns (evl w') = el_customDns (evl w) \<and>
     el_active (evl w') = el_active (evl w) \<and> (low_cardinality (mets w) \<longrightarrow> low_cardinality (mets w'))"

text \<open>What a worker for \<open>req\<close> relies on at each of its points.\<close>

definition reply_ok :: "rref msg \<Rightarrow> 're world \<Rightarrow> mref \<Rightarrow> bool" where
  "reply_ok req w i \<longleftrightarrow> i < length (msgs w) \<and> replies_to req (msgs w ! i) \<and> Rcode (msgs w ! i) = RcodeSuccess"

definition call_ok :: "rref msg \<Rightarrow> 're world \<Rightarrow> caller \<Rightarrow> rref msg \<Rightarrow> bool" where
  "call_ok req w c r \<longleftrightarrow> (\<forall>i\<in>caller_refs c. reply_ok req w i) \<and> (c = ForRequest \<longrightarrow> r = req)"

definition answer_ok :: "'re world \<Rightarrow> caller \<Rightarrow> answer \<Rightarrow> bool" where
  "answer_ok w c ans \<longleftrightarrow> (case ans of (resp, ok, _, _) \<Rightarrow> ok = (resp \<noteq> None)) \<and>
     (\<forall>i\<in>answer_refs ans. i < length (msgs w) \<and> i \<notin> caller_refs c)"

fun point_ok :: "rref msg \<Rightarrow> 're world \<Rightarrow> point \<Rightarrow> bool" where
  "point_ok req w (Begin c r) = call_ok req w c r"
| "point_ok req w (CheckBlocked c r q ip) = (call_ok req w c r \<and> Question r \<noteq> [])"
| "point_ok req w (CheckCache c r q ip) = (call_ok req w c r \<and> Question r \<noteq> [])"
| "point_ok req w (CheckNegCache c r q ip) = (call_ok req w c r \<and> Question r \<noteq> [])"
| "point_ok req w (AskUpstream c r q ip net) = (call_ok req w c r \<and> Question r \<noteq> [])"
| "point_ok req w (Answered_by c r q ip net res) = (call_ok req w c r \<and> Question r \<noteq> [] \<and>
     (\<forall>m. res = Inr m \<longrightarrow> refs_ok (Answer m) (rrs w)))"
| "point_ok req w (Stored c r ip ans) = (call_ok req w c r \<and> Question r \<noteq> [] \<and> answer_ok w c ans)"
| "point_ok req w (Deferred c r ip ans) = (call_ok req w c r \<and> Question r \<noteq> [] \<and> answer_ok w c ans)"
| "point_ok req w (Returning c ans) = (answer_ok w c ans \<and> (\<forall>i\<in>caller_refs c. reply_ok req w i) \<and>
     (c = ForRequest \<longrightarrow> (\<forall>i\<in>answer_refs ans. reply_ok req w i)))"
| "point_ok req w (Appending resp f ok cnames n) = (reply_ok req w resp \<and> f < length (msgs w))"
| "point_ok req w (Targets resp cnames n) = reply_ok req w resp"
| "point_ok req w (Round resp n) = reply_ok req w resp"
| "point_ok req w (Writing resp) = reply_ok req w resp"
| "point_ok req w Closed = True"

text \<open>The steps of other workers do not disturb it.\<close>

lemma reply_ok_keeps: "reply_ok req w i \<Longrightarrow> step_keeps A w w' \<Longrightarrow> i \<notin> A \<Longrightarrow> reply_ok req w' i"
  by (auto simp: reply_ok_def step_keeps_def)

lemma call_ok_keeps: "call_ok req w c r \<Longrightarrow> step_keeps A w w' \<Longrightarrow> caller_refs c \<inter> A = {} \<Longrightarrow> call_ok req w' c r"
  using reply_ok_keeps by (fastforce simp: call_ok_def)

lemma answer_ok_keeps: "answer_ok w c ans \<Longrightarrow> step_keeps A w w' \<Longrightarrow> answer_ok w' c ans"
  by (fastforce simp: answer_ok_def step_keeps_def)

lemma point_ok_keeps:
  assumes "point_ok req w pt" and "step_keeps A w w'" and "owned pt \<inter> A = {}"
  shows "point_ok req w' pt"
proof -
  have "heap_ext (rrs w) (rrs w')" "length (msgs w) \<le> length (msgs w')"
    using assms(2) by (simp_all add: step_keeps_def)
  then show ?thesis
    using assms
    by (cases pt) (auto intro: call_ok_keeps answer_ok_keeps reply_ok_keeps refs_ok_heap_ext)
qed

lemma ext_keeps:
  "ext w w' \<Longrightarrow> (low_cardinality (mets w) \<Longrightarrow> low_cardinality (mets w')) \<Longrightarrow> step_keeps A w w'"
  using ext_length [of w w'] by (auto simp: step_keeps_def ext_def prefix_def nth_append)

lemma owned_allocated: "point_ok req w pt \<Longrightarrow> i \<in> owned pt \<Longrightarrow> i < length (msgs w)"
  by (cases pt) (auto simp: call_ok_def answer_ok_def reply_ok_def)

section \<open>Every step keeps the invariant\<close>

definition good_step :: "rref msg \<Rightarrow> point \<Rightarrow> 're world \<Rightarrow> point \<Rightarrow> 're world \<Rightarrow> bool" where
  "good_step req pt w pt' w' \<longleftrightarrow> world_ok w' \<and> step_keeps (owned pt) w w' \<and> point_ok req w' pt' \<and>
     owned pt' \<subseteq> owned pt \<union> {length (msgs w)..<length (msgs w')}"

lemma good_step_ext:
  assumes "world_ok w'" and "ext w w'" and "low_cardinality (mets w) \<Longrightarrow> low_cardinality (mets w')"
    and "point_ok req w' pt'" and "owned pt' \<subseteq> owned pt \<union> {length (msgs w)..<length (msgs w')}"
  shows "good_step req pt w pt' w'"
  using assms by (simp add: good_step_def ext_keeps)

lemma call_ok_ext: "call_ok req w c r \<Longrightarrow> ext w w' \<Longrightarrow> call_ok req w' c r"
  by (auto simp: call_ok_def reply_ok_def ext_def prefix_def nth_append)

text \<open>Most steps end with a new message, which the answer refers to.\<close>

lemma alloc_answer:
  assumes ok: "world_ok v" "refs_ok (Answer m) (rrs v)" and a: "alloc_msg m v = (i, w')"
    and e: "ext w v" "low_cardinality (mets w) \<Longrightarrow> low_cardinality (mets v)" "msgs v = msgs w"
    and c: "call_ok req w c r"
  shows "world_ok w' \<and> ext w w' \<and> (low_cardinality (mets w) \<longrightarrow> low_cardinality (mets w')) \<and>
    call_ok req w' c r \<and> answer_ok w' c (Some i, True, b, d) \<and> i = length (msgs w) \<and> msgs w' = msgs w @ [m] \<and>
    answer_refs (Some i, True, b, d) = {i}"
proof -
  note A = alloc_msg_ok [OF ok a]
  have "ext w w'" using e(1) A ext_trans by blast
  moreover have "j < length (msgs w)" if "j \<in> caller_refs c" for j
    using c that by (auto simp: call_ok_def reply_ok_def)
  ultimately show ?thesis using A e call_ok_ext [OF c] by (auto simp: answer_ok_def answer_refs_def)
qed

lemma begin_good:
  assumes step: "begin_step Net wr c r w = Inr (pt', w')" and ok: "world_ok w" and pt: "point_ok req w (Begin c r)"
  shows "good_step req (Begin c r) w pt' w'"
proof -
  from step obtain ip custom met where
    cu: "CustomRecordsResolver_Resolve (el_customDns (evl w)) r (w_local wr) (w_remote wr) (mets w) = Inr (custom, met)"
    and ip: "remote_ip Net (w_remote wr) = Inr ip"
    by (auto simp: begin_step_def go_bind_Inr_iff)
  let ?w = "w\<lparr>mets := met\<rparr>"
  have low: "low_cardinality (mets w) \<Longrightarrow> low_cardinality (mets ?w)" using cr.resolve_low [OF cu] by simp
  have e: "world_ok ?w" "ext w ?w" "msgs ?w = msgs w" using ok by simp_all
  have c: "call_ok req w c r" using pt by simp
  show ?thesis
  proof (cases custom)
    case (Some m)
    obtain i v where a: "alloc_msg m ?w = (i, v)" by fastforce
    have M: "replies_to r m" "Rcode m = RcodeSuccess" "set (Answer m) \<subseteq> custom_refs (el_customDns (evl w))"
      using cr.resolve_reply cu Some by (fastforce simp: replies_to_def)+
    have "refs_ok (Answer m) (rrs ?w)" using ok M(3) by (auto simp: world_ok_def refs_ok_def list_all_iff)
    note A = alloc_answer [OF e(1) this a e(2) low e(3) c, of False True]
    have s: "pt' = Returning c (Some i, True, False, True)" "w' = v"
      using step cu ip Some a by (simp_all add: begin_step_def Let_def)
    have "c = ForRequest \<Longrightarrow> reply_ok req v i"
      using A M c by (auto simp: reply_ok_def call_ok_def)
    with A c show ?thesis unfolding s
      by (intro good_step_ext) (auto simp: call_ok_def)
  next
    case None
    then consider "pt' = Returning c (None, False, False, False)" "w' = ?w"
      | q where "pt' = CheckBlocked c r q ip" "w' = ?w" "Question r \<noteq> []"
      using step cu ip by (auto simp: begin_step_def Let_def split: list.splits)
    then show ?thesis
      using e low call_ok_ext [OF c e(2)]
      by cases (auto intro!: good_step_ext simp: answer_ok_def answer_refs_def call_ok_def)
  qed
qed

lemma check_blocked_good:
  assumes step: "check_blocked_step env Net c r q ip w = Inr (pt', w')" and ok: "world_ok w"
    and pt: "point_ok req w (CheckBlocked c r q ip)"
  shows "good_step req (CheckBlocked c r q ip) w pt' w'"
proof (cases "pt' = CheckCache c r q ip \<and> w' = w \<or> pt' = AskUpstream c r q ip Net \<and> w' = w")
  case True
  with ok pt show ?thesis by (auto intro!: good_step_ext)
next
  case False
  with step obtain m h where b: "blockedResponseFor (el_config (evl w)) r (isIPQuery q) (rrs w) = Inr (m, h)"
    by (auto simp: check_blocked_step_def go_bind_Inr_iff split: if_splits)
  obtain i v where a: "alloc_msg m (w\<lparr>rrs := h\<rparr>) = (i, v)" by fastforce
  have s: "pt' = Deferred c r ip (Some i, True, True, False)" "w' = v"
    using step b a False by (auto simp: check_blocked_step_def split: if_splits)
  have h: "heap_ext (rrs w) h" "refs_ok (Answer m) h" using blockedResponseFor_ok [OF b] by simp_all
  have c: "call_ok req w c r" using pt by simp
  have "world_ok (w\<lparr>rrs := h\<rparr>)" "ext w (w\<lparr>rrs := h\<rparr>)" using world_ok_heap [OF ok h(1)] h(1) by simp_all
  from alloc_answer [OF this(1) _ a this(2) _ _ c, of True False] h(2) pt show ?thesis
    unfolding s by (intro good_step_ext) auto
qed

lemma check_cache_good:
  assumes step: "check_cache_step c r q ip w = (pt', w')" and ok: "world_ok w"
    and pt: "point_ok req w (CheckCache c r q ip)"
  shows "good_step req (CheckCache c r q ip) w pt' w'"
proof -
  obtain x h k where g: "lengCache_Get DefaultEntry_RRs (KeyGen (question_key q)) (clock w) (rrs w) (el_cache (evl w)) = (x, h, k)"
    using prod_cases3 by blast
  let ?v = "w\<lparr>rrs := h, evl := (evl w)\<lparr>el_cache := k\<rparr>\<rparr>"
  note G = cache_Get_ok [OF ok g]
  have c: "call_ok req w c r" using pt by simp
  show ?thesis
  proof (cases x)
    case (Inl err)
    then have "pt' = CheckNegCache c r q ip" "w' = ?v" using step g by (auto simp: check_cache_step_def)
    then show ?thesis using G pt call_ok_ext [OF c] by (auto intro!: good_step_ext)
  next
    case (Inr m)
    obtain i v where a: "alloc_msg (m\<lparr>MsgId := MsgId r\<rparr>) ?v = (i, v)" by fastforce
    have s: "pt' = Deferred c r ip (Some i, True, False, True)" "w' = v"
      using step g a Inr by (auto simp: check_cache_step_def)
    from alloc_answer [OF _ _ a _ _ _ c, of False True] G Inr pt show ?thesis
      unfolding s by (intro good_step_ext) auto
  qed
qed

lemma check_negCache_good:
  assumes step: "check_negCache_step Net c r q ip w = (pt', w')" and ok: "world_ok w"
    and pt: "point_ok req w (CheckNegCache c r q ip)"
  shows "good_step req (CheckNegCache c r q ip) w pt' w'"
proof -
  obtain x h k where g: "lengCache_Get DefaultEntry_RRs (KeyGen (question_key q)) (clock w) (rrs w) (el_negCache (evl w)) = (x, h, k)"
    using prod_cases3 by blast
  have s: "w' = w\<lparr>rrs := h, evl := (evl w)\<lparr>el_negCache := k\<rparr>\<rparr>"
    "pt' = AskUpstream c r q ip Net \<or> pt' = Deferred c r ip (None, False, True, False)"
    using step g by (auto simp: check_negCache_step_def split: sum.splits)
  with negCache_Get_ok [OF ok g] pt call_ok_ext show ?thesis
    by (auto intro!: good_step_ext simp: answer_ok_def answer_refs_def)
qed

lemma ask_upstream_good:
  assumes step: "lookup_call env net r w = Inr (res, w')" and ok: "world_ok w"
    and pt: "point_ok req w (AskUpstream c r q ip net)"
  shows "good_step req (AskUpstream c r q ip net) w (Answered_by c r q ip net res) w'"
  using lookup_call_ok [OF ok step] pt call_ok_ext by (intro good_step_ext) auto

lemma upstream_good:
  assumes step: "upstream_step c r q ip net res w = (pt', w')" and ok: "world_ok w"
    and pt: "point_ok req w (Answered_by c r q ip net res)"
  shows "good_step req (Answered_by c r q ip net res) w pt' w'"
proof -
  have c: "call_ok req w c r" using pt by simp
  show ?thesis
  proof (cases res)
    case (Inl err)
    with step have "pt' = Deferred c r ip (None, False, False, False)" "w' = cache_failure (KeyGen (question_key q)) w"
      by (auto simp: upstream_step_def)
    then show ?thesis
      using cache_failure_ok [OF ok, of "KeyGen (question_key q)"] pt call_ok_ext [OF c]
      by (auto intro!: good_step_ext simp: answer_ok_def answer_refs_def)
  next
    case (Inr m)
    show ?thesis
    proof (cases "Truncated m \<and> net = ''udp''")
      case True
      with step Inr have "pt' = AskUpstream c r q ip ''tcp''" "w' = w" by (auto simp: upstream_step_def)
      then show ?thesis using ok pt by (auto intro!: good_step_ext)
    next
      case False
      obtain i v where a: "alloc_msg m w = (i, v)" by fastforce
      let ?v = "if isIPQuery q > 0 \<and> length (Answer m) > 0 then v\<lparr>pending := pending v @ [(KeyGen (question_key q), i)]\<rparr> else v"
      have s: "pt' = Stored c r ip (Some i, True, False, False)" "w' = ?v"
        using step a False Inr by (auto simp: upstream_step_def)
      have A: "world_ok v \<and> ext w v \<and> (low_cardinality (mets w) \<longrightarrow> low_cardinality (mets v)) \<and> call_ok req v c r \<and>
          answer_ok v c (Some i, True, False, False) \<and> i = length (msgs w) \<and> msgs v = msgs w @ [m] \<and>
          answer_refs (Some i, True, False, False) = {i}"
        using alloc_answer [OF ok _ a _ _ _ c, of False False] pt Inr by auto
      have "world_ok ?v" "ext w ?v" using A reply_goroutine_ok [of v i] by (auto intro: ext_trans)
      with A pt call_ok_ext [OF c] show ?thesis
        unfolding s by (intro good_step_ext) (auto simp: answer_ok_def)
    qed
  qed
qed

lemma deferred_good:
  assumes step: "finish_reply r ip ans w = Inr (ans', w')" and ok: "world_ok w"
    and pt: "point_ok req w (Deferred c r ip ans)"
  shows "good_step req (Deferred c r ip ans) w (Returning c ans') w'"
proof -
  obtain resp s b d where ans: "ans = (resp, s, b, d)" by (cases ans)
  have q: "Question r \<noteq> []" and c: "call_ok req w c r" and a: "answer_ok w c ans" using pt by simp_all
  show ?thesis
  proof (cases resp)
    case None
    then have "ans' = ans" "w' = w" using step ans by (simp_all add: finish_reply_def)
    with ok c a None ans show ?thesis
      by (auto intro!: good_step_ext simp: call_ok_def answer_refs_def)
  next
    case (Some i)
    let ?w = "w\<lparr>msgs := (msgs w)[i := SetReply r (msgs w ! i)]\<rparr>"
    have i: "i < length (msgs w)" "i \<notin> caller_refs c" "s" using a ans Some by (auto simp: answer_ok_def answer_refs_def)
    obtain met where w': "w' = ?w\<lparr>mets := met\<rparr>" "ans' = ans" "low_cardinality (mets w) \<longrightarrow> low_cardinality met"
    proof (cases ip)
      case None
      with step ans Some that [of "mets w"] show ?thesis by (auto simp: finish_reply_def)
    next
      case (Some x)
      with step ans \<open>resp = Some i\<close> obtain met where "w' = ?w\<lparr>mets := met\<rparr>" "ans' = ans"
        "ReportDNSRespond x (msgs ?w ! i) b d (mets w) = Inr met"
        by (auto simp: finish_reply_def Let_def go_bind_Inr_iff)
      with that low_cardinality_ReportDNSRespond show ?thesis by blast
    qed
    have "refs_ok (Answer (SetReply r (msgs w ! i))) (rrs w)" using ok i by (simp add: world_ok_def)
    then have "world_ok ?w"
      using ok set_update_subset_insert [of "msgs w" i "SetReply r (msgs w ! i)"] by (auto simp: world_ok_def)
    then have "world_ok w'" by (simp add: w')
    moreover have "step_keeps {i} w w'" using w' i by (auto simp: step_keeps_def)
    moreover have "reply_ok r w' i" using i replies_to_SetReply [OF q] by (simp add: reply_ok_def w')
    ultimately show ?thesis
      using c a i ans Some call_ok_keeps [OF c, of "{i}" w'] answer_ok_keeps [OF a, of "{i}" w'] w'(2)
      by (auto simp: good_step_def answer_refs_def call_ok_def step_keeps_def)
  qed
qed

lemma append_good:
  assumes ok: "world_ok w" and pt: "point_ok req w (Appending resp f b cnames n)"
  shows "good_step req (Appending resp f b cnames n) w (Targets resp cnames n) (append_step resp f b w)"
proof -
  have r: "resp < length (msgs w)" "f < length (msgs w)" and rep: "reply_ok req w resp"
    using pt by (auto simp: reply_ok_def)
  note F = append_step_ok [OF ok r refl, of b, folded append_step_def]
  then have g: "grown (msgs w ! resp) (msgs (append_step resp f b w) ! resp)" and "world_ok (append_step resp f b w)"
    by (simp_all add: follow_ok_def)
  moreover have "reply_ok req (append_step resp f b w) resp"
    using grown_fields [OF g] rep by (auto simp: reply_ok_def replies_to_def append_step_def)
  moreover have "step_keeps {resp} w (append_step resp f b w)" by (auto simp: step_keeps_def append_step_def)
  ultimately show ?thesis by (auto simp: good_step_def step_keeps_def)
qed

text \<open>Nothing is written before the end, and then one reply to the request.\<close>

definition writer_ok :: "rref msg \<Rightarrow> point \<Rightarrow> response_writer \<Rightarrow> bool" where
  "writer_ok req pt wr \<longleftrightarrow>
     (if pt = Closed
      then w_closed wr \<and> (\<exists>m. w_written wr = [m] \<and> replies_to req m \<and>
        (Rcode m = RcodeSuccess \<or> Rcode m = RcodeServerFailure \<and> Answer m = []))
      else \<not> w_closed wr \<and> w_written wr = [])"

lemma quiet_writer: "quiet wr x = (pt', wr', w') \<Longrightarrow> wr' = wr \<and> x = (pt', w')"
  by (auto simp: quiet_def split: prod.splits)

lemma go_quiet_Inr: "go_quiet wr m = Inr (pt', wr', w') \<longleftrightarrow> wr' = wr \<and> m = Inr (pt', w')"
  by (auto simp: go_quiet_def go_bind_Inr_iff quiet_def)

lemma returning_good:
  assumes step: "returning_step req wr c ans w = Inr (pt', wr', w')" and ok: "world_ok w" and q: "Question req \<noteq> []"
    and pt: "point_ok req w (Returning c ans)" and wr: "\<not> w_closed wr" "w_written wr = []"
  shows "good_step req (Returning c ans) w pt' w' \<and> writer_ok req pt' wr'"
proof -
  obtain resp s b d where ans: "ans = (resp, s, b, d)" by (cases ans)
  have s: "s = (resp \<noteq> None)" using pt ans by (simp add: answer_ok_def)
  show ?thesis
  proof (cases c)
    case (ForCname i cnames n)
    with step ans s obtain f where "resp = Some f" "pt' = Appending i f True cnames n" "wr' = wr" "w' = w"
      by (auto simp: returning_step_def split: option.splits)
    with ok pt wr ForCname ans show ?thesis
      by (auto intro!: good_step_ext simp: writer_ok_def answer_ok_def answer_refs_def)
  next
    case ForRequest
    show ?thesis
    proof (cases resp)
      case (Some i)
      with step ans s ForRequest have "pt' = Round i (unat (FollowCnameDepth (el_config (evl w))))" "wr' = wr" "w' = w"
        by (auto simp: returning_step_def)
      with ok pt wr ForRequest ans Some show ?thesis
        by (auto intro!: good_step_ext simp: writer_ok_def answer_refs_def)
    next
      case None
      let ?m = "SetRcode req RcodeServerFailure (SetReply req new_Msg) :: rref msg"
      from None step ans s ForRequest obtain met where s': "pt' = Closed" "w' = w\<lparr>mets := met\<rparr>"
        "wr' = (WriteReplyMsg (rrs w) ?m wr)\<lparr>w_closed := True\<rparr>"
        and met: "ReportDNSResponse (w_remote wr) ?m False (mets w) = Inr met"
        by (auto simp: returning_step_def Let_def go_bind_Inr_iff WriteReplyMsg_def)
      have "low_cardinality (mets w) \<Longrightarrow> low_cardinality met"
        using met low_cardinality_ReportDNSResponse by blast
      moreover have "writer_ok req pt' wr'"
        using wr q by (cases "Question req") (auto simp: s' writer_ok_def WriteReplyMsg_def replies_to_def SetReply_Question)
      ultimately show ?thesis using ok by (auto intro!: good_step_ext simp: s')
    qed
  qed
qed

lemmas step_defs = worker_step_def go_quiet_def quiet_def begin_step_def check_blocked_step_def check_cache_step_def
  check_negCache_step_def upstream_step_def target_step_def round_step_def

text \<open>The points from which a worker may write, and the end.\<close>

fun speaks :: "point \<Rightarrow> bool" where
  "speaks (Returning c ans) = True"
| "speaks (Writing resp) = True"
| "speaks Closed = True"
| "speaks _ = False"

lemma step_silent:
  assumes "worker_step env Net req pt wr w = Inr (pt', wr', w')" and "\<not> speaks pt"
  shows "wr' = wr \<and> pt' \<noteq> Closed"
  using assms
  by (cases pt) (auto simp: step_defs go_bind_Inr_iff Let_def alloc_msg_def
      split: option.splits list.splits if_splits prod.splits sum.splits nat.splits)

lemma worker_step_good:
  assumes step: "worker_step env Net req pt wr w = Inr (pt', wr', w')" and ok: "world_ok w" and q: "Question req \<noteq> []"
    and pt: "point_ok req w pt" and wr: "writer_ok req pt wr"
  shows "good_step req pt w pt' w' \<and> writer_ok req pt' wr'"
proof (cases "speaks pt")
  case True
  then consider "pt = Closed" | i where "pt = Writing i" | c ans where "pt = Returning c ans" by (cases pt) auto
  then show ?thesis
  proof cases
    case 1
    with step wr ok show ?thesis by (auto simp: worker_step_def good_step_def step_keeps_def)
  next
    case (2 i)
    with step have s: "pt' = Closed" "w' = w" "wr' = (WriteReplyMsg (rrs w) (msgs w ! i) wr)\<lparr>w_closed := True\<rparr>"
      by (auto simp: worker_step_def)
    with 2 pt wr have "writer_ok req pt' wr'"
      by (auto simp: writer_ok_def WriteReplyMsg_def reply_ok_def replies_to_def)
    with s ok show ?thesis by (auto intro!: good_step_ext)
  next
    case (3 c ans)
    with returning_good [of req wr c ans w pt' wr' w'] step ok q pt wr show ?thesis
      by (simp add: worker_step_def writer_ok_def)
  qed
next
  case False
  then have "wr' = wr" "pt' \<noteq> Closed" using step_silent [OF step] by auto
  moreover have "pt \<noteq> Closed" using False by auto
  ultimately have wr': "writer_ok req pt' wr'" using wr by (simp add: writer_ok_def)
  have "good_step req pt w pt' w'"
  proof (cases pt)
    case (Begin c r)
    with step pt show ?thesis by (auto simp: worker_step_def go_quiet_Inr intro: begin_good [OF _ ok])
  next
    case (CheckBlocked c r q ip)
    with step pt show ?thesis by (auto simp: worker_step_def go_quiet_Inr intro: check_blocked_good [OF _ ok])
  next
    case (CheckCache c r q ip)
    with step pt show ?thesis by (auto simp: worker_step_def dest: quiet_writer intro: check_cache_good [OF _ ok])
  next
    case (CheckNegCache c r q ip)
    with step pt show ?thesis by (auto simp: worker_step_def dest: quiet_writer intro: check_negCache_good [OF _ ok])
  next
    case (AskUpstream c r q ip net)
    with step pt show ?thesis by (auto simp: worker_step_def go_bind_Inr_iff intro: ask_upstream_good [OF _ ok])
  next
    case (Answered_by c r q ip net res)
    with step pt show ?thesis by (auto simp: worker_step_def dest!: quiet_writer intro: upstream_good [OF _ ok])
  next
    case (Stored c r ip ans)
    with step pt ok show ?thesis by (auto simp: worker_step_def intro!: good_step_ext)
  next
    case (Deferred c r ip ans)
    with step obtain ans' where "finish_reply r ip ans w = Inr (ans', w')" "pt' = Returning c ans'"
      by (auto simp: worker_step_def go_bind_Inr_iff)
    with Deferred pt show ?thesis using deferred_good [OF _ ok] by blast
  next
    case (Appending resp f b cnames n)
    with step pt append_good [OF ok] show ?thesis by (auto simp: worker_step_def)
  next
    case (Targets resp cnames n)
    with step pt ok show ?thesis
      by (auto simp: worker_step_def go_quiet_Inr target_step_def call_ok_def reply_ok_def split: list.splits intro!: good_step_ext)
  next
    case (Round resp n)
    with step pt ok show ?thesis
      by (auto simp: worker_step_def round_step_def go_bind_Inr_iff split: nat.splits if_splits intro!: good_step_ext)
  qed (use False in auto)
  with wr' show ?thesis by simp
qed

section \<open>A blocked name among other requests\<close>

text \<open>
  From the point where a worker has found its name blocked to its end: the reply has one
  record, which is \<open>x\<close> up to its time to live.
\<close>

definition holds_only :: "rr \<Rightarrow> 're world \<Rightarrow> mref \<Rightarrow> bool" where
  "holds_only x w i \<longleftrightarrow> i < length (msgs w) \<and>
     (\<exists>r. Answer (msgs w ! i) = [r] \<and> r < length (rrs w) \<and> set_Ttl 0 (rrs w ! r) = set_Ttl 0 x)"

definition wrote_only :: "rr \<Rightarrow> response_writer \<Rightarrow> bool" where
  "wrote_only x wr \<longleftrightarrow> (\<exists>m a. w_written wr = [m] \<and> Answer m = [a] \<and> set_Ttl 0 a = set_Ttl 0 x)"

fun sealed :: "rr \<Rightarrow> 're world \<Rightarrow> point \<Rightarrow> response_writer \<Rightarrow> bool" where
  "sealed x w (Deferred ForRequest r ip (Some i, True, b, c)) wr = holds_only x w i"
| "sealed x w (Returning ForRequest (Some i, True, b, c)) wr = holds_only x w i"
| "sealed x w (Round i n) wr = holds_only x w i"
| "sealed x w (Writing i) wr = holds_only x w i"
| "sealed x w Closed wr = wrote_only x wr"
| "sealed x w _ wr = False"

lemma sealed_cases:
  assumes "sealed x (w :: 're world) pt wr"
  obtains (held) i where "holds_only x w i" "i \<in> owned pt" "\<forall>v. sealed x (v :: 're world) pt wr = holds_only x v i"
  | (wrote) "pt = Closed" "wrote_only x wr"
  using assms that(2) by (cases "(x, w, pt, wr)" rule: sealed.cases) (auto simp: answer_refs_def intro: that(1))

lemma sealed_grows:
  assumes "sealed x (w :: 're world) pt wr" and "heap_ext (rrs w) (rrs (w' :: 're world))" and "length (msgs w) \<le> length (msgs w')"
    and "\<forall>i\<in>owned pt. i < length (msgs w) \<longrightarrow> msgs w' ! i = msgs w ! i"
  shows "sealed x w' pt wr"
  using assms(1)
proof (cases rule: sealed_cases)
  case (held i)
  then have "holds_only x w' i" using assms(2-4) by (fastforce simp: holds_only_def heap_ext_def)
  with held show ?thesis by blast
qed simp

lemma finish_reply_holds:
  assumes "finish_reply r ip ans w = Inr (ans', w')" and "holds_only x w i" and "fst ans = Some i"
  shows "ans' = ans \<and> holds_only x w' i"
  using assms by (cases ans) (auto simp: finish_reply_def Let_def go_bind_Inr_iff holds_only_def split: option.splits)

lemma set_Ttl_fields [simp]: "Rrtype (Hdr (set_Ttl t a)) = Rrtype (Hdr a)" "Rdata (set_Ttl t a) = Rdata a"
  by (simp_all add: set_Ttl_def)

lemma isA_set_Ttl: "set_Ttl 0 a = set_Ttl 0 b \<Longrightarrow> isA a = isA b"
  unfolding isA_def by (metis set_Ttl_fields(1))

lemma canFollow_address:
  assumes "holds_only x w i" and "isA x" and "canFollow (rrs w) req (msgs w ! i) = Inr (cnames, ok)"
  shows "\<not> ok"
proof -
  obtain r where r: "Answer (msgs w ! i) = [r]" "isA (rrs w ! r)"
    using assms(1,2) isA_set_Ttl unfolding holds_only_def by blast
  with assms(3) show ?thesis by (auto simp: canFollow_def Let_def split: list.splits if_splits)
qed

lemma sealed_step:
  assumes step: "worker_step env Net req pt wr w = Inr (pt', wr', w')" and s: "sealed x w pt wr" and x: "isA x"
    and wr: "pt \<noteq> Closed \<Longrightarrow> w_written wr = []"
  shows "sealed x w' pt' wr'"
proof (cases "(x, w, pt, wr)" rule: sealed.cases)
  case (1 x1 w1 r ip i b c wr1)
  then obtain ans' where "finish_reply r ip (Some i, True, b, c) w = Inr (ans', w')" "pt' = Returning ForRequest ans'"
    using step by (auto simp: worker_step_def go_bind_Inr_iff)
  with 1 s finish_reply_holds [of r ip "(Some i, True, b, c)" w ans' w' x i] show ?thesis by auto
next
  case (3 x1 w1 i n wr1)
  with step have st: "round_step req i n w = Inr pt'" "w' = w" "wr' = wr" by (auto simp: worker_step_def go_bind_Inr_iff)
  have h: "holds_only x w i" using 3 s by simp
  from st(1) have "pt' = Writing i"
    using canFollow_address [OF h x] by (auto simp: round_step_def go_bind_Inr_iff split: nat.splits if_splits)
  with 3 s st show ?thesis by simp
next
  case (4 x1 w1 i wr1)
  with step s wr show ?thesis
    by (auto simp: worker_step_def WriteReplyMsg_def wrote_only_def holds_only_def)
qed (use step s in \<open>auto simp: worker_step_def returning_step_def\<close>)

section \<open>Properties\<close>

text \<open>
  C12. Every worker ends: whatever the other goroutines do to the shared state between its steps,
  the network answers and the configuration says, a worker makes only finitely many steps
  until it has closed its connection, and at every point before that it has a next step or
  panics.
\<close>

theorem worker_ends:
  "wf {(pt', pt). pt \<noteq> Closed \<and> (\<exists>env Net req wr (w :: 're world) wr' w'. worker_step env Net req pt wr w = Inr (pt', wr', w'))}"
proof -
  have "{(pt', pt). pt \<noteq> Closed \<and> (\<exists>env Net req wr (w :: 're world) wr' w'. worker_step env Net req pt wr w = Inr (pt', wr', w'))}
      \<subseteq> inv_image rank_less point_rank"
    using worker_step_rank by (auto simp: inv_image_def)
  with wf_inv_image [OF wf_rank_less] show ?thesis by (rule wf_subset)
qed

end
