(* ===== verification/Go_Web.thy ===== *)
theory Go_Web
  imports Net_IP
begin

text \<open>
  What the DoH server and the API use of the packages \<open>encoding/base64\<close>, \<open>net/url\<close> and
  \<open>net/http\<close>: \<open>base64.RawURLEncoding\<close>, the parsing of a query string, and a response writer
  whose headers are fixed by the first write.
\<close>

section \<open>Base64 without padding, URL alphabet\<close>

definition alphabet :: string where
  "alphabet = ''ABCDEFGHIJKLMNOPQRSTUVWXYZabcdefghijklmnopqrstuvwxyz0123456789-_''"

fun index_of :: "char \<Rightarrow> string \<Rightarrow> nat option" where
  "index_of c [] = None"
| "index_of c (d # ds) = (if c = d then Some 0 else map_option Suc (index_of c ds))"

definition decodeMap :: "char \<Rightarrow> nat option" where
  "decodeMap c = index_of c alphabet"

text \<open>
  One quantum of \<open>decodeQuantum\<close>: up to four digits, skipping line breaks. Any other byte,
  the padding character included, is an error.
\<close>

fun read_quantum :: "nat \<Rightarrow> string \<Rightarrow> (nat list \<times> string) option" where
  "read_quantum 0 s = Some ([], s)"
| "read_quantum (Suc j) [] = Some ([], [])"
| "read_quantum (Suc j) (c # s) =
     (case decodeMap c of
        Some v \<Rightarrow> map_option (\<lambda>(vs, s). (v # vs, s)) (read_quantum j s)
      | None \<Rightarrow> if c = CHR 0x0A \<or> c = CHR 0x0D then read_quantum (Suc j) s else None)"

text \<open>The bytes of a quantum: missing digits count as zero, and the last bits are dropped.\<close>

definition dbuf :: "nat list \<Rightarrow> nat \<Rightarrow> nat" where
  "dbuf vs j = (if j < length vs then vs ! j else 0)"

definition quantum_bytes :: "nat list \<Rightarrow> byte list" where
  "quantum_bytes vs =
     (let val = dbuf vs 0 * 2 ^ 18 + dbuf vs 1 * 2 ^ 12 + dbuf vs 2 * 2 ^ 6 + dbuf vs 3
      in take (length vs - 1) [of_nat (val div 2 ^ 16), of_nat (val div 2 ^ 8), of_nat val])"

lemma read_quantum_length:
  "read_quantum j s = Some (vs, r) \<Longrightarrow> length vs \<le> j \<and> length r + length vs \<le> length s"
proof (induction j s arbitrary: vs rule: read_quantum.induct)
  case (3 j c s)
  from 3 show ?case by (fastforce split: option.splits if_splits)
qed auto

function DecodeString :: "string \<Rightarrow> byte list option" where
  "DecodeString s =
     (case read_quantum 4 s of
        None \<Rightarrow> None
      | Some (vs, rest) \<Rightarrow>
          if vs = [] then Some []
          else if length vs = 1 then None
          else map_option ((@) (quantum_bytes vs)) (DecodeString rest))"
  by pat_completeness auto
termination
proof (relation "measure length", goal_cases)
  case (2 s p vs rest)
  then have "read_quantum 4 s = Some (vs, rest)" by simp
  from read_quantum_length [OF this] 2 show ?case by (cases vs) auto
qed simp

declare DecodeString.simps [simp del]

text \<open>The encoder a client uses, as RFC 4648 defines it.\<close>

definition sextet :: "nat \<Rightarrow> nat \<Rightarrow> char" where
  "sextet val k = alphabet ! (val div 2 ^ (6 * k) mod 64)"

fun EncodeToString :: "byte list \<Rightarrow> string" where
  "EncodeToString [] = []"
| "EncodeToString [a] = (let val = unat a * 2 ^ 16 in [sextet val 3, sextet val 2])"
| "EncodeToString [a, b] = (let val = unat a * 2 ^ 16 + unat b * 2 ^ 8
     in [sextet val 3, sextet val 2, sextet val 1])"
| "EncodeToString (a # b # c # bs) = (let val = unat a * 2 ^ 16 + unat b * 2 ^ 8 + unat c
     in [sextet val 3, sextet val 2, sextet val 1, sextet val 0] @ EncodeToString bs)"

lemma decodeMap_alphabet: "v < 64 \<Longrightarrow> decodeMap (alphabet ! v) = Some v"
proof -
  have "list_all (\<lambda>v. decodeMap (alphabet ! v) = Some v) [0..<64]" by code_simp
  then show "v < 64 \<Longrightarrow> decodeMap (alphabet ! v) = Some v" by (simp add: list_all_iff)
qed

lemma decodeMap_sextet [simp]: "decodeMap (sextet val k) = Some (val div 2 ^ (6 * k) mod 64)"
  by (simp add: sextet_def decodeMap_alphabet)

lemma four_sextets:
  assumes "val < 2 ^ 24"
  shows "(val div 2 ^ 18 mod 64) * 2 ^ 18 + (val div 2 ^ 12 mod 64) * 2 ^ 12 + (val div 2 ^ 6 mod 64) * 2 ^ 6 +
    val mod 64 = (val :: nat)"
proof -
  have a: "n div 64 * 64 + n mod 64 = n" for n :: nat by simp
  have d: "val div 4096 = val div 64 div 64" "val div 262144 = val div 64 div 64 div 64"
    by (simp_all add: div_mult2_eq [symmetric])
  have "val div 64 div 64 div 64 < 64" using assms by (simp add: div_mult2_eq [symmetric])
  then have "val div 64 div 64 div 64 * 262144 + val div 64 div 64 mod 64 * 4096 + val div 64 mod 64 * 64 + val mod 64 = val"
    using a [of val] a [of "val div 64"] a [of "val div 64 div 64"] by linarith
  with \<open>val div 64 div 64 div 64 < 64\<close> show ?thesis by (simp add: d)
qed

lemma unat_three_bytes:
  fixes a b c :: byte
  shows "unat a * 2 ^ 16 + unat b * 2 ^ 8 + unat c < 2 ^ 24"
    and "(unat a * 2 ^ 16 + unat b * 2 ^ 8 + unat c) div 2 ^ 16 = unat a"
    and "(of_nat ((unat a * 2 ^ 16 + unat b * 2 ^ 8 + unat c) div 2 ^ 8) :: byte) = b"
    and "(of_nat (unat a * 2 ^ 16 + unat b * 2 ^ 8 + unat c) :: byte) = c"
proof -
  note l = unat_byte_less [of a] unat_byte_less [of b] unat_byte_less [of c]
  have byte: "(of_nat (256 * n + unat x) :: byte) = x" for n and x :: byte
  proof -
    have "(256 :: byte) = 0" by simp
    then have "256 * (of_nat n :: byte) = 0" by (simp only: mult_zero_left)
    then show ?thesis by simp
  qed
  show "unat a * 2 ^ 16 + unat b * 2 ^ 8 + unat c < 2 ^ 24" "(unat a * 2 ^ 16 + unat b * 2 ^ 8 + unat c) div 2 ^ 16 = unat a"
    using l by simp_all
  have "(unat a * 2 ^ 16 + unat b * 2 ^ 8 + unat c) div 2 ^ 8 = 256 * unat a + unat b" using l by simp
  then show "(of_nat ((unat a * 2 ^ 16 + unat b * 2 ^ 8 + unat c) div 2 ^ 8) :: byte) = b"
    by (simp only: byte)
  have "unat a * 2 ^ 16 + unat b * 2 ^ 8 + unat c = 256 * (256 * unat a + unat b) + unat c" by simp
  then show "(of_nat (unat a * 2 ^ 16 + unat b * 2 ^ 8 + unat c) :: byte) = c" by (simp only: byte)
qed

lemma quantum_bytes_eq:
  "quantum_bytes [w, x, y, z] = (let v = w * 2 ^ 18 + x * 2 ^ 12 + y * 2 ^ 6 + z
     in [of_nat (v div 2 ^ 16), of_nat (v div 2 ^ 8), of_nat v])"
  "quantum_bytes [w, x, y] = (let v = w * 2 ^ 18 + x * 2 ^ 12 + y * 2 ^ 6
     in [of_nat (v div 2 ^ 16), of_nat (v div 2 ^ 8)])"
  "quantum_bytes [w, x] = (let v = w * 2 ^ 18 + x * 2 ^ 12 in [of_nat (v div 2 ^ 16)])"
  by (simp_all add: quantum_bytes_def dbuf_def Let_def)

lemma quantum_bytes_encode:
  fixes a b c :: byte
  defines "v \<equiv> unat a * 2 ^ 16 + unat b * 2 ^ 8 + unat c"
  shows "quantum_bytes [v div 2 ^ 18 mod 64, v div 2 ^ 12 mod 64, v div 2 ^ 6 mod 64, v mod 64] = [a, b, c]"
    and "c = 0 \<Longrightarrow> quantum_bytes [v div 2 ^ 18 mod 64, v div 2 ^ 12 mod 64, v div 2 ^ 6 mod 64] = [a, b]"
    and "c = 0 \<Longrightarrow> b = 0 \<Longrightarrow> quantum_bytes [v div 2 ^ 18 mod 64, v div 2 ^ 12 mod 64] = [a]"
proof -
  have f: "(v div 2 ^ 18 mod 64) * 2 ^ 18 + (v div 2 ^ 12 mod 64) * 2 ^ 12 + (v div 2 ^ 6 mod 64) * 2 ^ 6 + v mod 64 = v"
    by (rule four_sextets) (simp only: v_def unat_three_bytes(1))
  have b: "(of_nat (v div 2 ^ 16) :: byte) = a" "(of_nat (v div 2 ^ 8) :: byte) = b" "(of_nat v :: byte) = c"
    unfolding v_def unat_three_bytes by simp_all
  show "quantum_bytes [v div 2 ^ 18 mod 64, v div 2 ^ 12 mod 64, v div 2 ^ 6 mod 64, v mod 64] = [a, b, c]"
    unfolding quantum_bytes_eq Let_def f b ..
  show "quantum_bytes [v div 2 ^ 18 mod 64, v div 2 ^ 12 mod 64, v div 2 ^ 6 mod 64] = [a, b]" if "c = 0"
  proof -
    have "v mod 64 = 0" using that by (simp add: v_def mod_eq_0_iff_dvd)
    with f have f': "(v div 2 ^ 18 mod 64) * 2 ^ 18 + (v div 2 ^ 12 mod 64) * 2 ^ 12 + (v div 2 ^ 6 mod 64) * 2 ^ 6 = v"
      by linarith
    show ?thesis unfolding quantum_bytes_eq Let_def f' b ..
  qed
  show "quantum_bytes [v div 2 ^ 18 mod 64, v div 2 ^ 12 mod 64] = [a]" if "c = 0" "b = 0"
  proof -
    have "v mod 64 = 0" "v div 2 ^ 6 mod 64 = 0" using that by (simp_all add: v_def mod_eq_0_iff_dvd)
    with f have f': "(v div 2 ^ 18 mod 64) * 2 ^ 18 + (v div 2 ^ 12 mod 64) * 2 ^ 12 = v"
      by (simp only: mult_zero_left add_0_right)
    show ?thesis unfolding quantum_bytes_eq Let_def f' b ..
  qed
qed

lemma read_quantum_4: "read_quantum 4 = read_quantum (Suc (Suc (Suc (Suc 0))))"
  by (simp add: numeral_eq_Suc)

text \<open>Decoding undoes the encoder.\<close>

lemma DecodeString_EncodeToString: "DecodeString (EncodeToString bs) = Some bs"
proof (induction bs rule: EncodeToString.induct)
  case (2 a)
  with quantum_bytes_encode(3) [of 0 0 a] show ?case
    by (simp add: DecodeString.simps [of "_ # _"] DecodeString.simps [of "[]"] read_quantum_4 Let_def)
next
  case (3 a b)
  with quantum_bytes_encode(2) [of 0 a b] show ?case
    by (simp add: DecodeString.simps [of "_ # _"] DecodeString.simps [of "[]"] read_quantum_4 Let_def)
next
  case (4 a b c bs)
  with quantum_bytes_encode(1) [of a b c] show ?case
    by (simp add: DecodeString.simps [of "_ # _"] read_quantum_4 Let_def)
qed (simp add: DecodeString.simps read_quantum_4)

text \<open>The digits of an encoded text are none of the characters that a query string treats specially.\<close>

lemma EncodeToString_digits: "set (EncodeToString bs) \<subseteq> set alphabet"
proof -
  have "sextet v k \<in> set alphabet" for v k
    unfolding sextet_def by (rule nth_mem) (simp add: alphabet_def)
  then show ?thesis
    by (induction bs rule: EncodeToString.induct) (auto simp: Let_def)
qed

section \<open>Query strings\<close>

text \<open>\<open>url.QueryUnescape\<close>: \<open>None\<close> is the error for a percent sign without two hexadecimal digits.\<close>

fun QueryUnescape :: "string \<Rightarrow> string option" where
  "QueryUnescape [] = Some []"
| "QueryUnescape (c # s) =
     (if c = CHR ''%'' then
        (case s of
           a # b # r \<Rightarrow>
             (case (hex_value a, hex_value b) of
                (Some x, Some y) \<Rightarrow> map_option ((#) (char_of (x * 16 + y))) (QueryUnescape r)
              | _ \<Rightarrow> None)
         | _ \<Rightarrow> None)
      else map_option ((#) (if c = CHR ''+'' then CHR '' '' else c)) (QueryUnescape s))"

text \<open>\<open>strings.Cut\<close> on one byte: the text before and after its first occurrence.\<close>

fun Cut :: "string \<Rightarrow> char \<Rightarrow> string \<times> string" where
  "Cut [] sep = ([], [])"
| "Cut (c # s) sep = (if c = sep then ([], s) else (case Cut s sep of (a, b) \<Rightarrow> (c # a, b)))"

text \<open>
  The settings \<open>url.ParseQuery\<close> keeps, in their order: empty ones, ones with a semicolon
  and ones that do not unescape are left out.
\<close>

fun query_setting :: "string \<Rightarrow> (string \<times> string) option" where
  "query_setting s =
     (if s = [] \<or> CHR '';'' \<in> set s then None
      else case Cut s CHR ''='' of (k, v) \<Rightarrow>
        (case (QueryUnescape k, QueryUnescape v) of
           (Some k, Some v) \<Rightarrow> Some (k, v)
         | _ \<Rightarrow> None))"

definition url_Query :: "string \<Rightarrow> (string \<times> string) list" where
  "url_Query raw = List.map_filter query_setting (Split raw CHR ''&'')"

definition query_values :: "string \<Rightarrow> (string \<times> string) list \<Rightarrow> string list" where
  "query_values key qs = map snd (filter (\<lambda>(k, _). k = key) qs)"

lemma QueryUnescape_plain: "CHR ''%'' \<notin> set s \<Longrightarrow> CHR ''+'' \<notin> set s \<Longrightarrow> QueryUnescape s = Some s"
  by (induction s) auto

lemma Cut_append: "c \<notin> set a \<Longrightarrow> Cut (a @ c # b) c = (a, b)"
  by (induction a) auto

lemma url_Query_encoded:
  "query_values ''dns'' (url_Query (''dns='' @ EncodeToString bs)) = [EncodeToString bs]"
proof -
  have no: "c \<notin> set (EncodeToString bs)" if "c \<notin> set alphabet" for c
    using EncodeToString_digits that by blast
  have al: "CHR ''&'' \<notin> set alphabet" "CHR '';'' \<notin> set alphabet" "CHR ''%'' \<notin> set alphabet" "CHR ''+'' \<notin> set alphabet"
    by (simp_all add: alphabet_def)
  have "query_setting (''dns='' @ EncodeToString bs) = Some (''dns'', EncodeToString bs)"
    using no [OF al(2)] no [OF al(3)] no [OF al(4)] Cut_append [of "CHR ''=''" "''dns''" "EncodeToString bs"]
    by (simp add: QueryUnescape_plain)
  moreover have "Split (''dns='' @ EncodeToString bs) CHR ''&'' = [''dns='' @ EncodeToString bs]"
    using no [OF al(1)] by (intro Split_no_sep) simp
  ultimately show ?thesis
    by (simp add: url_Query_def query_values_def List.map_filter_simps del: query_setting.simps)
qed

section \<open>Responses\<close>

text \<open>
  A response writer: the headers that handlers set, the status and the headers sent with
  the first write, and the body. \<open>rw_ok\<close> tells whether the client takes a write.
\<close>

record http_writer =
  rw_header :: "string \<rightharpoonup> string"
  rw_status :: "nat option"
  rw_sent :: "string \<rightharpoonup> string"
  rw_body :: "byte list"
  rw_ok :: "byte list \<Rightarrow> bool"

definition Header_Set :: "string \<Rightarrow> string \<Rightarrow> http_writer \<Rightarrow> http_writer" where
  "Header_Set k v w = w\<lparr>rw_header := (rw_header w)(k \<mapsto> v)\<rparr>"

definition WriteHeader :: "nat \<Rightarrow> http_writer \<Rightarrow> http_writer" where
  "WriteHeader code w =
     (if rw_status w = None then w\<lparr>rw_status := Some code, rw_sent := rw_header w\<rparr> else w)"

definition http_Write :: "byte list \<Rightarrow> http_writer \<Rightarrow> bool \<times> http_writer" where
  "http_Write bs w =
     (let w = WriteHeader 200 w in
      if rw_ok w bs then (True, w\<lparr>rw_body := rw_body w @ bs\<rparr>) else (False, w))"

definition text_bytes :: "string \<Rightarrow> byte list" where
  "text_bytes s = map (of_nat \<circ> of_char) s"

definition http_Error :: "string \<Rightarrow> nat \<Rightarrow> http_writer \<Rightarrow> http_writer" where
  "http_Error error code w =
     snd (http_Write (text_bytes (error @ [CHR 0x0A]))
       (WriteHeader code
         (Header_Set ''X-Content-Type-Options'' ''nosniff''
           (Header_Set ''Content-Type'' ''text/plain; charset=utf-8'' w))))"

definition new_http_writer :: "(byte list \<Rightarrow> bool) \<Rightarrow> http_writer" where
  "new_http_writer ok = \<lparr>rw_header = Map.empty, rw_status = None, rw_sent = Map.empty, rw_body = [], rw_ok = ok\<rparr>"

lemma http_Error_status:
  "rw_status w = None \<Longrightarrow> rw_status (http_Error e code w) = Some code"
  by (simp add: http_Error_def http_Write_def WriteHeader_def Header_Set_def Let_def)

end
