(* ===== verification/Doh_Server.thy ===== *)
theory Doh_Server
  imports Request_Properties Go_Web
begin

text \<open>
  The DNS-over-HTTPS server (src/doh.go), and the entrance of the event loop that every
  listener shares (\<open>DoTCP\<close>, \<open>DoUDP\<close>, \<open>DoHTTP\<close> of src/handler.go behind a \<open>dns.ServeMux\<close>). The
  wire codec is that of \<open>leng_env\<close>; \<open>net.ResolveTCPAddr\<close> on the client address and the texts
  of the errors of other packages are parameters. Here a request that the event loop
  accepts is served at once; the channel between a listener and the loop is the subject of
  theory \<open>Lifecycle\<close>.
\<close>

section \<open>Listeners\<close>

definition enter_loop ::
  "string \<Rightarrow> 're leng_env \<Rightarrow> response_writer \<Rightarrow> rref msg \<Rightarrow> 're world \<Rightarrow> go_panic + response_writer \<times> 're world" where
  "enter_loop Net env wr req w = (if el_active (evl w) then doRequest env Net wr req w else Inr (wr, w))"

definition DoTCP ::
  "'re leng_env \<Rightarrow> response_writer \<Rightarrow> rref msg \<Rightarrow> 're world \<Rightarrow> go_panic + response_writer \<times> 're world" where
  "DoTCP = enter_loop ''tcp''"

definition DoUDP ::
  "'re leng_env \<Rightarrow> response_writer \<Rightarrow> rref msg \<Rightarrow> 're world \<Rightarrow> go_panic + response_writer \<times> 're world" where
  "DoUDP = enter_loop ''udp''"

definition DoHTTP ::
  "'re leng_env \<Rightarrow> response_writer \<Rightarrow> rref msg \<Rightarrow> 're world \<Rightarrow> go_panic + response_writer \<times> 're world" where
  "DoHTTP = enter_loop ''http''"

definition mux_handleRefused :: "rr_heap \<Rightarrow> rref msg \<Rightarrow> rr msg" where
  "mux_handleRefused h r = wire h (SetRcode r RcodeRefused new_Msg)"

text \<open>What \<open>ServeDNS\<close> makes the response writer write.\<close>

definition ServeMux_ServeDNS ::
  "(string \<rightharpoonup> (rref msg \<Rightarrow> 're world \<Rightarrow> go_panic + rr msg list \<times> 're world)) \<Rightarrow> rref msg \<Rightarrow> 're world
    \<Rightarrow> go_panic + rr msg list \<times> 're world" where
  "ServeMux_ServeDNS z req w =
     (case ServeMux_handler z req of
        Some h \<Rightarrow> h req w
      | None \<Rightarrow> Inr ([mux_handleRefused (rrs w) req], w))"

lemma root_mux: "ServeMux_handler [''.'' \<mapsto> h] req = (if Question req = [] then None else Some h)"
proof (cases "Question req")
  case (Cons q qs)
  have "ServeMux_match [''.'' \<mapsto> h] n t = Some h" for n t
  proof (cases "match_loop [''.'' \<mapsto> h] (CanonicalName n) t 0 None")
    case (Inl g)
    then have "\<exists>p. [''.'' \<mapsto> h] p = Some g"
      using match_loop_suffix [of None "[''.'' \<mapsto> h]" "CanonicalName n" t 0 g] by blast
    with Inl show ?thesis by (auto simp: ServeMux_match_def split: if_splits)
  qed (simp add: ServeMux_match_def)
  with Cons show ?thesis by (simp add: ServeMux_handler_def)
qed (simp add: ServeMux_handler_def)

section \<open>From an HTTP request to a message\<close>

record http_request =
  Method :: string
  URL_Path :: string
  RawQuery :: string
  Req_Body :: "byte list option"
  RemoteAddr :: string
  Req_Host :: string

datatype doh_error = UnexpectedMethod string | NoDnsParameter | MultipleDnsValues
  | CorruptInputError | BodyNotRead | NotUnpacked | NotPacked | NotWritten

definition doh_error_text :: "(doh_error \<Rightarrow> string) \<Rightarrow> doh_error \<Rightarrow> string" where
  "doh_error_text others e =
     (case e of
        UnexpectedMethod m \<Rightarrow> ''unexpected method for DoH request '' @ m
      | NoDnsParameter \<Rightarrow> ''no '' @ [CHR 0x27] @ ''dns'' @ [CHR 0x27] @ '' query parameter found''
      | MultipleDnsValues \<Rightarrow> ''multiple '' @ [CHR 0x27] @ ''dns'' @ [CHR 0x27] @ '' query values found''
      | _ \<Rightarrow> others e)"

definition unpack_msg :: "dns_codec \<Rightarrow> byte list \<Rightarrow> doh_error + rr msg" where
  "unpack_msg codec buf = (case Unpack codec buf of None \<Rightarrow> Inl NotUnpacked | Some m \<Rightarrow> Inr m)"

definition base64ToMsg :: "dns_codec \<Rightarrow> string \<Rightarrow> doh_error + rr msg" where
  "base64ToMsg codec b64 =
     (case DecodeString b64 of None \<Rightarrow> Inl CorruptInputError | Some buf \<Rightarrow> unpack_msg codec buf)"

definition getRequestToMsg :: "dns_codec \<Rightarrow> http_request \<Rightarrow> doh_error + rr msg" where
  "getRequestToMsg codec req =
     (case query_values ''dns'' (url_Query (RawQuery req)) of
        [] \<Rightarrow> Inl NoDnsParameter
      | [b64] \<Rightarrow> base64ToMsg codec b64
      | _ \<Rightarrow> Inl MultipleDnsValues)"

definition postRequestToMsg :: "dns_codec \<Rightarrow> http_request \<Rightarrow> doh_error + rr msg" where
  "postRequestToMsg codec req =
     (case Req_Body req of None \<Rightarrow> Inl BodyNotRead | Some buf \<Rightarrow> unpack_msg codec buf)"

definition requestToMsg :: "dns_codec \<Rightarrow> http_request \<Rightarrow> doh_error + rr msg" where
  "requestToMsg codec req =
     (if Method req = ''GET'' then getRequestToMsg codec req
      else if Method req = ''POST'' then postRequestToMsg codec req
      else Inl (UnexpectedMethod (Method req)))"

section \<open>The response writer\<close>

text \<open>The channel \<open>completed\<close> is the number of values in its buffer and whether it is closed.\<close>

record DohResponseWriter =
  dw_msg :: "rr msg option"
  dw_remoteAddr :: string
  dw_delegate :: http_writer
  dw_host :: string
  dw_err :: "doh_error option"
  dw_buffered :: nat
  dw_closed :: bool

definition countResponse :: "nat \<Rightarrow> metrics \<Rightarrow> metrics" where
  "countResponse status met = met\<lparr>DohResponseCount := Inc (Itoa status) (DohResponseCount met)\<rparr>"

definition handleErr :: "doh_error \<Rightarrow> DohResponseWriter \<times> metrics \<Rightarrow> DohResponseWriter \<times> metrics" where
  "handleErr err = (\<lambda>(w, met).
     (w\<lparr>dw_delegate := http_Error ''No response'' 500 (dw_delegate w), dw_err := Some err\<rparr>, countResponse 500 met))"

abbreviation (input) "mimeTypeDOH \<equiv> ''application/dns-message''"

definition write_packed ::
  "dns_codec \<Rightarrow> rr msg \<Rightarrow> DohResponseWriter \<times> metrics \<Rightarrow> doh_error option \<times> DohResponseWriter \<times> metrics" where
  "write_packed codec m = (\<lambda>(w, met).
     let w = w\<lparr>dw_msg := Some m\<rparr> in
     case Pack codec m of
       None \<Rightarrow> (Some NotPacked, handleErr NotPacked (w, met))
     | Some buf \<Rightarrow>
         (case http_Write buf (Header_Set ''Content-Type'' mimeTypeDOH (dw_delegate w)) of (ok, d) \<Rightarrow>
            let w = w\<lparr>dw_delegate := d\<rparr> in
            if \<not> ok then (Some NotWritten, handleErr NotWritten (w, met))
            else (None, w, countResponse 200 met)))"

text \<open>The deferred function sends on the channel and closes it, which panics the second time.\<close>

definition DohResponseWriter_WriteMsg ::
  "dns_codec \<Rightarrow> rr msg \<Rightarrow> DohResponseWriter \<times> metrics
    \<Rightarrow> (go_panic + doh_error option) \<times> DohResponseWriter \<times> metrics" where
  "DohResponseWriter_WriteMsg codec m wm =
     (case write_packed codec m wm of (err, w, met) \<Rightarrow>
        if dw_closed w then (Inl SendOnClosedChannel, w, met)
        else (Inr err, w\<lparr>dw_buffered := Suc (dw_buffered w), dw_closed := True\<rparr>, met))"

text \<open>\<open>WriteReplyMsg\<close> logs an error and recovers from a panic, so only the state goes on.\<close>

fun write_all ::
  "dns_codec \<Rightarrow> rr msg list \<Rightarrow> DohResponseWriter \<times> metrics \<Rightarrow> DohResponseWriter \<times> metrics" where
  "write_all codec [] wm = wm"
| "write_all codec (m # ms) wm = write_all codec ms (snd (DohResponseWriter_WriteMsg codec m wm))"

section \<open>The server\<close>

record ServerHTTPS =
  sh_bind :: string
  sh_ttl :: duration
  sh_tlsConfig :: "tls_Config option"
  sh_ReadTimeout :: duration
  sh_WriteTimeout :: duration

text \<open>The TLS configuration gets its protocols set, and is not given to the server.\<close>

definition NewServerHTTPS ::
  "string \<Rightarrow> duration \<Rightarrow> duration \<Rightarrow> tls_Config option \<Rightarrow> ServerHTTPS \<times> (tls_Config \<times> string list) option" where
  "NewServerHTTPS bind timeout ttl tls =
     (\<lparr>sh_bind = bind, sh_ttl = ttl, sh_tlsConfig = None, sh_ReadTimeout = timeout, sh_WriteTimeout = timeout\<rparr>,
      map_option (\<lambda>t. (t, [''h2'', ''http/1.1''])) tls)"

abbreviation (input) "pathDOH \<equiv> ''/dns-query''"

type_synonym tcp_addr = "ip option \<times> nat"

text \<open>
  The DNS handler behind the server. An address that does not resolve is a nil pointer,
  which the event loop dereferences.
\<close>

definition doh_handler ::
  "'re leng_env \<Rightarrow> (string \<Rightarrow> tcp_addr option) \<Rightarrow> string \<Rightarrow> rref msg \<Rightarrow> 're world
    \<Rightarrow> go_panic + rr msg list \<times> 're world" where
  "doh_handler env ResolveTCPAddr addr req w =
     (if \<not> el_active (evl w) then Inr ([], w)
      else case ResolveTCPAddr addr of
        None \<Rightarrow> Inl NilDereference
      | Some (i, p) \<Rightarrow>
          go_bind (DoHTTP env \<lparr>w_local = TCPAddr i p, w_remote = TCPAddr i p, w_written = [], w_closed = False\<rparr> req w)
            (\<lambda>(wr, w). Inr (w_written wr, w)))"

definition max_age :: "duration \<Rightarrow> string" where
  "max_age ttl = ''max-age='' @ Itoa (nat (ttl div Second))"

datatype served = Answered http_writer | WaitsForever

definition ServeHTTP ::
  "'re leng_env \<Rightarrow> (string \<Rightarrow> tcp_addr option) \<Rightarrow> (doh_error \<Rightarrow> string) \<Rightarrow> ServerHTTPS \<Rightarrow> http_writer
    \<Rightarrow> http_request \<Rightarrow> 're world \<Rightarrow> go_panic + served \<times> 're world" where
  "ServeHTTP env ResolveTCPAddr others s w r world =
     (if URL_Path r \<noteq> pathDOH then
        Inr (Answered (http_Error [] 404 w), world\<lparr>mets := countResponse 404 (mets world)\<rparr>)
      else case requestToMsg (le_codec env) r of
        Inl err \<Rightarrow> Inr (Answered (http_Error (doh_error_text others err) 400 w),
                       world\<lparr>mets := countResponse 400 (mets world)\<rparr>)
      | Inr m \<Rightarrow>
          (case receive m (rrs world) of (req, h) \<Rightarrow>
            let writer = \<lparr>dw_msg = None, dw_remoteAddr = RemoteAddr r, dw_delegate = w, dw_host = Req_Host r,
                  dw_err = None, dw_buffered = 0, dw_closed = False\<rparr>
            in
            go_bind (ServeMux_ServeDNS [''.'' \<mapsto> doh_handler env ResolveTCPAddr (RemoteAddr r)] req (world\<lparr>rrs := h\<rparr>))
              (\<lambda>(written, world).
                case write_all (le_codec env) written (writer, mets world) of (writer, met) \<Rightarrow>
                  let world = world\<lparr>mets := met\<rparr> in
                  if dw_buffered writer = 0 \<and> \<not> dw_closed writer then Inr (WaitsForever, world)
                  else if dw_err writer \<noteq> None \<or> dw_buffered writer = 0 then Inr (Answered (dw_delegate writer), world)
                  else Inr (Answered (Header_Set ''Cache-Control'' (max_age (sh_ttl s)) (dw_delegate writer)), world))))"

section \<open>Facts\<close>

definition doh_writer :: "http_writer \<Rightarrow> http_request \<Rightarrow> DohResponseWriter" where
  "doh_writer w r = \<lparr>dw_msg = None, dw_remoteAddr = RemoteAddr r, dw_delegate = w, dw_host = Req_Host r,
     dw_err = None, dw_buffered = 0, dw_closed = False\<rparr>"

text \<open>A request that carries a message goes through the mux; nothing is written only if the handler wrote nothing.\<close>

lemma ServeHTTP_msg:
  assumes "URL_Path r = pathDOH" and "requestToMsg (le_codec env) r = Inr m" and "receive m (rrs world) = (req, h)"
  shows "ServeHTTP env res others s w r world =
    go_bind (ServeMux_ServeDNS [''.'' \<mapsto> doh_handler env res (RemoteAddr r)] req (world\<lparr>rrs := h\<rparr>))
      (\<lambda>(written, world).
        case write_all (le_codec env) written (doh_writer w r, mets world) of (writer, met) \<Rightarrow>
          let world = world\<lparr>mets := met\<rparr> in
          if dw_buffered writer = 0 \<and> \<not> dw_closed writer then Inr (WaitsForever, world)
          else if dw_err writer \<noteq> None \<or> dw_buffered writer = 0 then Inr (Answered (dw_delegate writer), world)
          else Inr (Answered (Header_Set ''Cache-Control'' (max_age (sh_ttl s)) (dw_delegate writer)), world))"
  using assms by (simp add: ServeHTTP_def doh_writer_def Let_def)

lemma handleErr_fields [simp]:
  "dw_buffered (fst (handleErr e wm)) = dw_buffered (fst wm)" "dw_closed (fst (handleErr e wm)) = dw_closed (fst wm)"
  "dw_err (fst (handleErr e wm)) = Some e"
  by (simp_all add: handleErr_def split: prod.splits)

lemma write_packed_channel:
  "write_packed codec m wm = (err, w, met) \<Longrightarrow> dw_buffered w = dw_buffered (fst wm) \<and> dw_closed w = dw_closed (fst wm)"
  by (auto simp: write_packed_def handleErr_def Let_def split: prod.splits option.splits if_splits)

text \<open>One message on a fresh writer: it completes, with the packed reply or with an error.\<close>

lemma write_one:
  assumes "write_all codec [m] (doh_writer w r, met) = (writer, met')"
  shows "dw_buffered writer = 1 \<and> dw_closed writer"
proof -
  obtain err w1 met1 where p: "write_packed codec m (doh_writer w r, met) = (err, w1, met1)" by (metis surj_pair)
  with write_packed_channel [OF p] assms show ?thesis
    by (auto simp: DohResponseWriter_WriteMsg_def doh_writer_def)
qed

lemma write_one_packed:
  assumes "Pack codec m = Some buf" and "rw_ok w buf" and "rw_status w = None"
  shows "\<exists>writer. write_all codec [m] (doh_writer w r, met) = (writer, countResponse 200 met) \<and> dw_err writer = None \<and>
    dw_delegate writer = w\<lparr>rw_header := (rw_header w)(''Content-Type'' \<mapsto> mimeTypeDOH), rw_status := Some 200,
      rw_sent := (rw_header w)(''Content-Type'' \<mapsto> mimeTypeDOH), rw_body := rw_body w @ buf\<rparr>"
  using assms
  by (simp add: write_packed_def DohResponseWriter_WriteMsg_def doh_writer_def Let_def http_Write_def WriteHeader_def
      Header_Set_def)

lemma write_one_unpacked:
  assumes "Pack codec m = None"
  shows "\<exists>writer. write_all codec [m] (doh_writer w r, met) = (writer, countResponse 500 met) \<and> dw_err writer \<noteq> None \<and>
    dw_delegate writer = http_Error ''No response'' 500 w"
  using assms by (simp add: write_packed_def DohResponseWriter_WriteMsg_def doh_writer_def Let_def handleErr_def)

lemma doh_handler_active:
  assumes "world_ok w" and "Question req = q # qs" and "doh_handler env res addr req w = Inr (written, w')"
  shows "if el_active (evl w) then \<exists>m. written = [m] \<and> MsgId m = MsgId req \<and> Response m \<and> Question m = [q] \<and>
      (Rcode m = RcodeSuccess \<or> Rcode m = RcodeServerFailure \<and> Answer m = []) \<and> world_ok w'
    else written = [] \<and> w' = w"
proof (cases "el_active (evl w)")
  case True
  with assms(3) obtain i p wr' where
    "doRequest env ''http'' \<lparr>w_local = TCPAddr i p, w_remote = TCPAddr i p, w_written = [], w_closed = False\<rparr> req w
      = Inr (wr', w')" "written = w_written wr'"
    by (auto simp: doh_handler_def DoHTTP_def enter_loop_def go_bind_Inr_iff split: option.splits)
  with doRequest_reply [OF assms(1,2) this(1)] True show ?thesis by auto
next
  case False
  with assms(3) show ?thesis by (simp add: doh_handler_def)
qed

lemma world_ok_receive: "world_ok w \<Longrightarrow> receive m (rrs w) = (req, h) \<Longrightarrow> world_ok (w\<lparr>rrs := h\<rparr>)"
  using receive_fresh [of m "rrs w" req h] by (simp add: world_ok_heap heap_ext_append)

lemma receive_fields:
  "receive m h = (req, h') \<Longrightarrow> Question req = Question m \<and> MsgId req = MsgId m"
  by (auto simp: receive_def split: prod.splits)

section \<open>Properties\<close>

text \<open>
  C28. A DoH request that carries a message with a question, while the event loop is active,
  is answered (if the process does not crash) with the reply of the event loop, which has the
  id and the question of the request: if it can be packed, with status 200, the media type of
  DNS messages and the packed reply, otherwise with status 500. The Cache-Control header that
  the server sets after status 200 is not sent.
\<close>

theorem doh_reply:
  assumes "world_ok w" and "el_active (evl w)" and "URL_Path r = pathDOH"
    and "requestToMsg (le_codec env) r = Inr m" and "Question m = q # qs"
    and "ServeHTTP env res others s (new_http_writer (\<lambda>_. True)) r w = Inr (out, w')"
  shows "\<exists>d reply. out = Answered d \<and>
    (case Pack (le_codec env) reply of
       Some buf \<Rightarrow> rw_status d = Some 200 \<and> rw_sent d = [''Content-Type'' \<mapsto> mimeTypeDOH] \<and> rw_body d = buf
     | None \<Rightarrow> rw_status d = Some 500 \<and> rw_body d = text_bytes (''No response'' @ [CHR 0x0A])) \<and>
    MsgId reply = MsgId m \<and> Response reply \<and> Question reply = [q] \<and>
    (Rcode reply = RcodeSuccess \<or> Rcode reply = RcodeServerFailure \<and> Answer reply = []) \<and> world_ok w'"
proof -
  obtain req h where rc: "receive m (rrs w) = (req, h)" by fastforce
  then have q: "Question req = q # qs" "MsgId req = MsgId m" using receive_fields [OF rc] assms(5) by simp_all
  obtain written w1 where h: "doh_handler env res (RemoteAddr r) req (w\<lparr>rrs := h\<rparr>) = Inr (written, w1)"
    using assms(6) q unfolding ServeHTTP_msg [OF assms(3,4) rc]
    by (auto simp: ServeMux_ServeDNS_def root_mux go_bind_Inr_iff split: if_splits)
  from doh_handler_active [OF world_ok_receive [OF assms(1) rc] q(1) h] assms(2) q obtain reply where
    reply: "written = [reply]" "MsgId reply = MsgId m" "Response reply" "Question reply = [q]"
      "Rcode reply = RcodeSuccess \<or> Rcode reply = RcodeServerFailure \<and> Answer reply = []" "world_ok w1"
    by auto
  let ?d = "new_http_writer (\<lambda>_. True)"
  show ?thesis
  proof (cases "Pack (le_codec env) reply")
    case None
    obtain writer where W: "write_all (le_codec env) [reply] (doh_writer ?d r, mets w1) = (writer, countResponse 500 (mets w1))"
      "dw_err writer \<noteq> None" "dw_delegate writer = http_Error ''No response'' 500 ?d"
      using write_one_unpacked [OF None, of ?d r "mets w1"] by auto
    from assms(6) q h reply W write_one [OF W(1)]
    have "out = Answered (dw_delegate writer)" "w' = w1\<lparr>mets := countResponse 500 (mets w1)\<rparr>"
      unfolding ServeHTTP_msg [OF assms(3,4) rc] by (auto simp: ServeMux_ServeDNS_def root_mux Let_def)
    with reply None W(3) show ?thesis
      by (intro exI [of _ "http_Error ''No response'' 500 ?d"] exI [of _ reply])
        (auto simp: http_Error_def http_Write_def WriteHeader_def Header_Set_def new_http_writer_def)
  next
    case (Some buf)
    obtain writer where W: "write_all (le_codec env) [reply] (doh_writer ?d r, mets w1) = (writer, countResponse 200 (mets w1))"
      "dw_err writer = None" "dw_delegate writer = ?d\<lparr>rw_header := [''Content-Type'' \<mapsto> mimeTypeDOH], rw_status := Some 200,
        rw_sent := [''Content-Type'' \<mapsto> mimeTypeDOH], rw_body := buf\<rparr>"
      using write_one_packed [OF Some, of ?d r "mets w1"] by (auto simp: new_http_writer_def)
    from assms(6) q h reply W write_one [OF W(1)]
    have "out = Answered (Header_Set ''Cache-Control'' (max_age (sh_ttl s)) (dw_delegate writer))"
      "w' = w1\<lparr>mets := countResponse 200 (mets w1)\<rparr>"
      unfolding ServeHTTP_msg [OF assms(3,4) rc] by (auto simp: ServeMux_ServeDNS_def root_mux Let_def)
    with reply Some W(3) show ?thesis
      by (intro exI [of _ "Header_Set ''Cache-Control'' (max_age (sh_ttl s)) (dw_delegate writer)"] exI [of _ reply])
        (auto simp: Header_Set_def)
  qed
qed

text \<open>
  The DoH handler of a request that carries a message with a question returns exactly
  if the event loop is active: once \<open>Stop\<close> has made it inactive, the handler waits forever
  on a channel that nothing is ever sent on, and \<open>Shutdown\<close> waits for the handler.
\<close>

theorem doh_waits_iff_inactive:
  assumes "world_ok w" and "URL_Path r = pathDOH" and "requestToMsg (le_codec env) r = Inr m" and "Question m \<noteq> []"
    and "ServeHTTP env res others s d r w = Inr (out, w')"
  shows "out = WaitsForever \<longleftrightarrow> \<not> el_active (evl w)"
proof -
  obtain req h where rc: "receive m (rrs w) = (req, h)" by fastforce
  then obtain q qs where q: "Question req = q # qs" using receive_fields [OF rc] assms(4) by (metis neq_Nil_conv)
  obtain written w1 where h: "doh_handler env res (RemoteAddr r) req (w\<lparr>rrs := h\<rparr>) = Inr (written, w1)"
    using assms(5) q unfolding ServeHTTP_msg [OF assms(2,3) rc]
    by (auto simp: ServeMux_ServeDNS_def root_mux go_bind_Inr_iff split: if_splits)
  note H = doh_handler_active [OF world_ok_receive [OF assms(1) rc] q h]
  show ?thesis
  proof (cases "el_active (evl w)")
    case True
    with H obtain reply where "written = [reply]" by auto
    obtain writer met where W: "write_all (le_codec env) [reply] (doh_writer d r, mets w1) = (writer, met)" by fastforce
    from write_one [OF W] W True q h \<open>written = [reply]\<close> assms(5) show ?thesis
      unfolding ServeHTTP_msg [OF assms(2,3) rc]
      by (auto simp: ServeMux_ServeDNS_def root_mux Let_def split: if_splits)
  next
    case False
    with H q h assms(5) show ?thesis
      unfolding ServeHTTP_msg [OF assms(2,3) rc]
      by (auto simp: ServeMux_ServeDNS_def root_mux Let_def doh_writer_def split: if_splits)
  qed
qed

text \<open>A server in a small world: the wire format of a message is its id, and no upstream answers.\<close>

definition ex_doh_codec :: dns_codec where
  "ex_doh_codec = \<lparr>Pack = (\<lambda>m. Some [ucast (MsgId m)]), Unpack = (\<lambda>bs. Some (SetQuestion 7 ''example.com.'' TypeA new_Msg))\<rparr>"

definition ex_doh_env :: "unit leng_env" where
  "ex_doh_env = (ex_leng (\<lambda>_. ex_env None (\<lambda>_. ExErr) []))\<lparr>le_codec := ex_doh_codec\<rparr>"

definition ex_doh_post :: http_request where
  "ex_doh_post = \<lparr>Method = ''POST'', URL_Path = ''/dns-query'', RawQuery = [], Req_Body = Some [1],
     RemoteAddr = ''10.0.0.9:4711'', Req_Host = ''leng''\<rparr>"

definition ex_doh_server :: ServerHTTPS where
  "ex_doh_server = fst (NewServerHTTPS ''0.0.0.0:80'' (5 * Second) (30 * Second) None)"

lemma ex_doh_msg:
  "requestToMsg (le_codec ex_doh_env) ex_doh_post = Inr (SetQuestion 7 ''example.com.'' TypeA new_Msg)"
  by (simp add: requestToMsg_def postRequestToMsg_def unpack_msg_def ex_doh_post_def ex_doh_env_def ex_doh_codec_def)

lemma ServeHTTP_total_depth0:
  assumes "world_ok w" and "Question m \<noteq> []" and "URL_Path r = pathDOH" and "requestToMsg (le_codec env) r = Inr m"
    and "res (RemoteAddr r) = Some (i, p)" and "Duration (Interval (el_config (evl w))) Millisecond > 0" and "FollowCnameDepth (el_config (evl w)) = 0"
  shows "\<exists>out w'. ServeHTTP env res others s d r w = Inr (out, w')"
proof -
  obtain req h where rc: "receive m (rrs w) = (req, h)" by fastforce
  note R = receive_fields [OF rc]
  let ?wr = "\<lparr>w_local = TCPAddr i p, w_remote = TCPAddr i p, w_written = [], w_closed = False\<rparr>"
  obtain wr' w1 where "doRequest env ''http'' ?wr req (w\<lparr>rrs := h\<rparr>) = Inr (wr', w1)"
    using doRequest_total_depth0 [OF world_ok_receive [OF assms(1) rc], of req "''http''" ?wr i env] R assms by auto
  then have "\<exists>x. doh_handler env res (RemoteAddr r) req (w\<lparr>rrs := h\<rparr>) = Inr x"
    using assms(5) by (auto simp: doh_handler_def DoHTTP_def enter_loop_def)
  then show ?thesis
    using R assms(2) unfolding ServeHTTP_msg [OF assms(3,4) rc]
    by (auto simp: ServeMux_ServeDNS_def root_mux Let_def split: prod.splits)
qed

lemma ex_doh_runs:
  assumes "world_ok w" and "el_config (evl w) = ex_config"
  shows "\<exists>out w'. ServeHTTP ex_doh_env (\<lambda>_. Some (Some [10, 0, 0, 9], 4711)) others ex_doh_server d ex_doh_post w = Inr (out, w')"
  by (rule ServeHTTP_total_depth0 [OF assms(1) _ _ ex_doh_msg]) (simp_all add: ex_doh_post_def assms(2))

theorem doh_reply_witness:
  "\<exists>d w'. ServeHTTP ex_doh_env (\<lambda>_. Some (Some [10, 0, 0, 9], 4711)) (\<lambda>_. []) ex_doh_server (new_http_writer (\<lambda>_. True))
     ex_doh_post (ex_world ex_config empty_block_cache Map.empty []) = Inr (Answered d, w') \<and>
   rw_status d = Some 200 \<and> rw_body d = [7] \<and> rw_sent d ''Cache-Control'' = None"
proof -
  obtain out w' where run: "ServeHTTP ex_doh_env (\<lambda>_. Some (Some [10, 0, 0, 9], 4711)) (\<lambda>_. []) ex_doh_server
      (new_http_writer (\<lambda>_. True)) ex_doh_post (ex_world ex_config empty_block_cache Map.empty []) = Inr (out, w')"
    using ex_doh_runs [OF ex_world_ok] by (metis ex_world_fields(1))
  have 1: "el_active (evl (ex_world ex_config empty_block_cache Map.empty []))" by (simp add: ex_world_def)
  have 2: "URL_Path ex_doh_post = pathDOH" by (simp add: ex_doh_post_def)
  have 4: "MsgId (SetQuestion 7 ''example.com.'' TypeA new_Msg :: rr msg) = 7" by (simp add: SetQuestion_def)
  from doh_reply [OF ex_world_ok 1 2 ex_doh_msg SetQuestion_fields(1) run] run 4 show ?thesis
    by (auto simp: ex_doh_env_def ex_doh_codec_def)
qed

theorem doh_waits_iff_inactive_witness:
  "\<exists>w'. ServeHTTP ex_doh_env (\<lambda>_. Some (Some [10, 0, 0, 9], 4711)) (\<lambda>_. []) ex_doh_server (new_http_writer (\<lambda>_. True))
     ex_doh_post (let w = ex_world ex_config empty_block_cache Map.empty [] in w\<lparr>evl := (evl w)\<lparr>el_active := False\<rparr>\<rparr>)
   = Inr (WaitsForever, w')"
proof -
  let ?w = "let w = ex_world ex_config empty_block_cache Map.empty [] in w\<lparr>evl := (evl w)\<lparr>el_active := False\<rparr>\<rparr>"
  have ok: "world_ok ?w" using ex_world_ok [of ex_config empty_block_cache "[]"] by (simp add: world_ok_def Let_def)
  have cfg: "el_config (evl ?w) = ex_config" by (simp add: Let_def)
  obtain out w' where run: "ServeHTTP ex_doh_env (\<lambda>_. Some (Some [10, 0, 0, 9], 4711)) (\<lambda>_. []) ex_doh_server
      (new_http_writer (\<lambda>_. True)) ex_doh_post ?w = Inr (out, w')"
    using ex_doh_runs [OF ok cfg] by blast
  have 2: "URL_Path ex_doh_post = pathDOH" by (simp add: ex_doh_post_def)
  from doh_waits_iff_inactive [OF ok 2 ex_doh_msg _ run] run show ?thesis by (simp add: Let_def)
qed

text \<open>
  C29. A GET request whose \<open>dns\<close> parameter is the unpadded base64url encoding of some bytes,
  and a POST request with these bytes as its body, carry the same message: the one the bytes
  unpack to.
\<close>

theorem doh_get_post_same_message:
  "requestToMsg codec \<lparr>Method = ''GET'', URL_Path = p, RawQuery = ''dns='' @ EncodeToString bs, Req_Body = b,
     RemoteAddr = a, Req_Host = host\<rparr> = unpack_msg codec bs \<and>
   requestToMsg codec \<lparr>Method = ''POST'', URL_Path = p', RawQuery = qu, Req_Body = Some bs, RemoteAddr = a',
     Req_Host = host'\<rparr> = unpack_msg codec bs"
proof -
  have "query_values ''dns'' (url_Query (''dns='' @ EncodeToString bs)) = [EncodeToString bs]"
    by (rule url_Query_encoded)
  then show ?thesis
    by (simp add: requestToMsg_def getRequestToMsg_def postRequestToMsg_def base64ToMsg_def DecodeString_EncodeToString)
qed

definition carries_msg :: "dns_codec \<Rightarrow> http_request \<Rightarrow> rr msg \<Rightarrow> bool" where
  "carries_msg codec r m \<longleftrightarrow>
     Method r = ''GET'' \<and> (\<exists>b64 bs. query_values ''dns'' (url_Query (RawQuery r)) = [b64] \<and>
       DecodeString b64 = Some bs \<and> Unpack codec bs = Some m) \<or>
     Method r = ''POST'' \<and> (\<exists>bs. Req_Body r = Some bs \<and> Unpack codec bs = Some m)"

lemma requestToMsg_iff: "requestToMsg codec r = Inr m \<longleftrightarrow> carries_msg codec r m"
  by (auto simp: requestToMsg_def carries_msg_def getRequestToMsg_def postRequestToMsg_def base64ToMsg_def unpack_msg_def
      split: list.splits option.splits)

text \<open>
  A request on the path of DoH that carries no message (one \<open>dns\<close> parameter of a GET
  request that decodes and unpacks, or the body of a POST request that unpacks) is answered
  with 400, a request on any other path with 404; both change nothing but the counter of
  responses with that status.
\<close>

theorem doh_rejects:
  assumes "rw_status d = None" and "URL_Path r \<noteq> pathDOH \<or> (\<forall>m. \<not> carries_msg (le_codec env) r m)"
  shows "\<exists>d' status. status = (if URL_Path r \<noteq> pathDOH then 404 else 400) \<and> rw_status d' = Some status \<and>
    ServeHTTP env res others s d r w =
      Inr (Answered d', w\<lparr>mets := (mets w)\<lparr>DohResponseCount :=
        (DohResponseCount (mets w))(Itoa status := Suc (DohResponseCount (mets w) (Itoa status)))\<rparr>\<rparr>)"
proof (cases "URL_Path r = pathDOH")
  case False
  with assms(1) show ?thesis
    by (simp add: ServeHTTP_def http_Error_status countResponse_def Inc_def)
next
  case True
  with assms(2) obtain e where "requestToMsg (le_codec env) r = Inl e"
    using requestToMsg_iff by (cases "requestToMsg (le_codec env) r") blast+
  with True assms(1) show ?thesis
    by (simp add: ServeHTTP_def http_Error_status countResponse_def Inc_def)
qed

theorem doh_rejects_witness:
  "\<exists>d' w'. ServeHTTP ex_doh_env (\<lambda>_. None) (\<lambda>_. []) ex_doh_server (new_http_writer (\<lambda>_. True))
     (ex_doh_post\<lparr>Method := ''GET'', RawQuery := ''dns=AA==''\<rparr>) (ex_world ex_config empty_block_cache Map.empty []) =
       Inr (Answered d', w') \<and> rw_status d' = Some 400"
proof -
  let ?r = "ex_doh_post\<lparr>Method := ''GET'', RawQuery := ''dns=AA==''\<rparr>"
  have "query_values ''dns'' (url_Query ''dns=AA=='') = [''AA=='']" "DecodeString ''AA=='' = None"
    by code_simp+
  then have "\<forall>m. \<not> carries_msg (le_codec ex_doh_env) ?r m" by (simp add: carries_msg_def ex_doh_post_def)
  moreover have "rw_status (new_http_writer (\<lambda>_. True)) = None" "URL_Path ?r = pathDOH"
    by (simp_all add: new_http_writer_def ex_doh_post_def)
  ultimately show ?thesis
    using doh_rejects [of "new_http_writer (\<lambda>_. True)" ?r ex_doh_env "\<lambda>_. None" "\<lambda>_. []" ex_doh_server
        "ex_world ex_config empty_block_cache Map.empty []"] by auto
qed

text \<open>
  A message without a question is answered with REFUSED by the mux, whether or not the
  event loop is active, and never reaches the event loop: only the counter of responses and
  the heap, for the records of the message itself, change.
\<close>

theorem doh_no_question_refused:
  assumes "URL_Path r = pathDOH" and "requestToMsg (le_codec env) r = Inr m" and "Question m = []"
    and "Pack (le_codec env) (wire (rrs w @ Answer m) (SetRcode m RcodeRefused new_Msg)) = Some buf"
    and "rw_ok d buf" and "rw_status d = None"
  shows "\<exists>d'. ServeHTTP env res others s d r w =
      Inr (Answered d', w\<lparr>rrs := rrs w @ Answer m, mets := countResponse 200 (mets w)\<rparr>) \<and>
    rw_status d' = Some 200 \<and> rw_body d' = rw_body d @ buf"
proof -
  obtain req h where rc: "receive m (rrs w) = (req, h)" by fastforce
  have h: "h = rrs w @ Answer m" using receive_fresh [OF rc] by simp
  have q: "Question req = []" using receive_fields [OF rc] assms(3) by simp
  have "(SetReply req new_Msg :: rref msg) = SetReply m new_Msg"
    using rc assms(3) by (auto simp: receive_def SetReply_def Let_def split: prod.splits)
  then have p: "Pack (le_codec env) (mux_handleRefused h req) = Some buf"
    using assms(4) h by (simp add: mux_handleRefused_def SetRcode_def)
  from write_one_packed [OF p assms(5,6), of r "mets w"] obtain writer where
    W: "write_all (le_codec env) [mux_handleRefused h req] (doh_writer d r, mets w) = (writer, countResponse 200 (mets w))"
      "dw_err writer = None" "rw_status (dw_delegate writer) = Some 200" "rw_body (dw_delegate writer) = rw_body d @ buf"
    by auto
  from W write_one [OF W(1)] q h show ?thesis
    unfolding ServeHTTP_msg [OF assms(1,2) rc]
    by (auto simp: ServeMux_ServeDNS_def root_mux Let_def Header_Set_def)
qed

theorem doh_no_question_refused_witness:
  "\<exists>d' w'. ServeHTTP (ex_doh_env\<lparr>le_codec := ex_doh_codec\<lparr>Unpack := (\<lambda>_. Some (new_Msg\<lparr>MsgId := 9\<rparr>))\<rparr>\<rparr>) (\<lambda>_. None) (\<lambda>_. [])
     ex_doh_server (new_http_writer (\<lambda>_. True)) ex_doh_post (ex_world ex_config empty_block_cache Map.empty []) =
     Inr (Answered d', w') \<and> rw_status d' = Some 200 \<and> rw_body d' = [9]"
proof -
  let ?env = "ex_doh_env\<lparr>le_codec := ex_doh_codec\<lparr>Unpack := (\<lambda>_. Some (new_Msg\<lparr>MsgId := 9\<rparr>))\<rparr>\<rparr>"
  have m: "requestToMsg (le_codec ?env) ex_doh_post = Inr (new_Msg\<lparr>MsgId := 9\<rparr>)"
    by (simp add: requestToMsg_def postRequestToMsg_def unpack_msg_def ex_doh_post_def)
  show ?thesis
    using doh_no_question_refused [OF _ m, of "ex_world ex_config empty_block_cache Map.empty []" "[9]"
        "new_http_writer (\<lambda>_. True)" "\<lambda>_. None" "\<lambda>_. []" ex_doh_server]
    by (auto simp: ex_doh_post_def ex_doh_codec_def new_http_writer_def)
qed

end
