(* ===== verification/Updater.thy ===== *)
theory Updater
  imports Block_Cache Leng_Config Net_IP
begin

text \<open>
  The loading of block lists (src/updater.go): entries of the configuration, downloads, and
  the hosts files found under the source directories.

  The file system and the network are the record \<open>upd_env\<close>: what \<open>os.Stat\<close>, \<open>os.Mkdir\<close>,
  \<open>filepath.EvalSymlinks\<close>, \<open>filepath.Walk\<close>, \<open>os.Open\<close>, \<open>os.Create\<close>, \<open>http.Get\<close> and \<open>url.Parse\<close>
  return. The package variables \<open>timesSeen\<close> and \<open>whitelist\<close> are the record \<open>upd_state\<close>.
  \<open>PerformUpdate\<close> takes this record as a function \<open>fs\<close> of the files written so far, so that
  the second phase sees what the first one has downloaded.
  White space is that of ASCII. Downloads write disjoint files (\<open>download_names_distinct\<close>), so
  the order in which their goroutines run does not matter; \<open>fetchSources\<close> returns the list
  of files written.
\<close>

section \<open>Environment and state\<close>

text \<open>\<open>filepath.Walk\<close> calls back with no file information when a file cannot be inspected.\<close>

datatype walk_entry = WalkDir string | WalkFile string | WalkNoInfo

record upd_env =
  os_Stat :: "string \<Rightarrow> bool"
  os_Mkdir :: "string \<Rightarrow> bool"
  EvalSymlinks :: "string \<Rightarrow> string"
  Walk :: "string \<Rightarrow> walk_entry list"
  os_Open :: "string \<Rightarrow> (string \<times> bool) option"
  os_Create :: "string \<Rightarrow> bool"
  http_Get :: "string \<Rightarrow> string option"
  url_Host :: "string \<Rightarrow> string option"

record upd_state =
  timesSeen :: "string \<Rightarrow> nat"
  whitelist :: "string \<Rightarrow> bool"

datatype upd_error = MkdirError | OpenError | ScanError

section \<open>Lines of a hosts file\<close>

definition is_space :: "char \<Rightarrow> bool" where
  "is_space c \<longleftrightarrow> c \<in> {CHR 0x09, CHR 0x0A, CHR 0x0B, CHR 0x0C, CHR 0x0D, CHR '' ''}"

definition TrimSpace :: "string \<Rightarrow> string" where
  "TrimSpace s = rev (dropWhile is_space (rev (dropWhile is_space s)))"

function Fields :: "string \<Rightarrow> string list" where
  "Fields s = (let s = dropWhile is_space s in
     if s = [] then [] else takeWhile (\<lambda>c. \<not> is_space c) s # Fields (dropWhile (\<lambda>c. \<not> is_space c) s))"
  by pat_completeness auto
termination
proof (relation "measure length")
  fix s x :: string
  assume x: "x = dropWhile is_space s" and ne: "x \<noteq> []"
  have "length (dropWhile (\<lambda>c. \<not> is_space c) x) < length x"
    using hd_dropWhile [of is_space s] ne unfolding x [symmetric]
    by (cases x) (auto simp: x length_dropWhile_le le_imp_less_Suc)
  then show "(dropWhile (\<lambda>c. \<not> is_space c) x, s) \<in> measure length"
    using length_dropWhile_le [of is_space s] x by simp
qed simp

declare Fields.simps [simp del]

text \<open>
  \<open>bufio.Scanner\<close>: the lines without their ends, and whether it stopped at a line of 65536
  bytes or more. A file ends the last line; a file that ends in a newline has no empty last
  line.
\<close>

definition drop_cr :: "string \<Rightarrow> string" where
  "drop_cr s = (if s \<noteq> [] \<and> last s = CHR 0x0D then butlast s else s)"

definition raw_lines :: "string \<Rightarrow> string list" where
  "raw_lines s = (let ls = Split s CHR 0x0A in if last ls = [] then butlast ls else ls)"

definition scan_lines :: "string \<Rightarrow> string list \<times> bool" where
  "scan_lines s = (let ls = raw_lines s; short = takeWhile (\<lambda>l. length l < 65536) ls
     in (map drop_cr short, length short < length ls))"

text \<open>The entry of a line: the second field of a hosts line, or the only one.\<close>

definition line_entry :: "string \<Rightarrow> string option" where
  "line_entry line =
     (let line = TrimSpace (hd (Split line CHR ''#'')) in
      if length line > 0 then
        (let fields = Fields line in Some (if length fields > 1 then fields ! 1 else fields ! 0))
      else None)"

section \<open>Loading\<close>

fun load_lines ::
  "(string \<Rightarrow> 're option) \<Rightarrow> ('re \<Rightarrow> string \<Rightarrow> bool) \<Rightarrow> (string \<Rightarrow> bool) \<Rightarrow> string list \<Rightarrow> 're MemoryBlockCache
    \<Rightarrow> go_panic + 're MemoryBlockCache" where
  "load_lines compile matches wl [] c = Inr c"
| "load_lines compile matches wl (line # lines) c =
     (case line_entry line of
        None \<Rightarrow> load_lines compile matches wl lines c
      | Some e \<Rightarrow>
          if \<not> MemoryBlockCache_Exists matches e c \<and> \<not> wl e
          then go_bind (MemoryBlockCache_Set compile e True c) (load_lines compile matches wl lines)
          else load_lines compile matches wl lines c)"

definition parseHostFile ::
  "(string \<Rightarrow> 're option) \<Rightarrow> ('re \<Rightarrow> string \<Rightarrow> bool) \<Rightarrow> upd_env \<Rightarrow> (string \<Rightarrow> bool) \<Rightarrow> string
    \<Rightarrow> 're MemoryBlockCache \<Rightarrow> go_panic + upd_error option \<times> 're MemoryBlockCache" where
  "parseHostFile compile matches env wl fileName c =
     (case os_Open env (filepath_Clean fileName) of
        None \<Rightarrow> Inr (Some OpenError, c)
      | Some (contents, readable) \<Rightarrow>
          let (lines, too_long) = scan_lines contents in
          go_bind (load_lines compile matches wl lines c) (\<lambda>c.
            Inr (if too_long \<or> \<not> readable then Some ScanError else None, c)))"

fun walk_files ::
  "(string \<Rightarrow> 're option) \<Rightarrow> ('re \<Rightarrow> string \<Rightarrow> bool) \<Rightarrow> upd_env \<Rightarrow> (string \<Rightarrow> bool) \<Rightarrow> walk_entry list
    \<Rightarrow> 're MemoryBlockCache \<Rightarrow> go_panic + upd_error option \<times> 're MemoryBlockCache" where
  "walk_files compile matches env wl [] c = Inr (None, c)"
| "walk_files compile matches env wl (WalkNoInfo # es) c = Inl NilDereference"
| "walk_files compile matches env wl (WalkDir d # es) c = walk_files compile matches env wl es c"
| "walk_files compile matches env wl (WalkFile f # es) c =
     go_bind (parseHostFile compile matches env wl f c) (\<lambda>(err, c).
       case err of
         Some e \<Rightarrow> Inr (Some e, c)
       | None \<Rightarrow> walk_files compile matches env wl es c)"

fun updateBlockCache ::
  "(string \<Rightarrow> 're option) \<Rightarrow> ('re \<Rightarrow> string \<Rightarrow> bool) \<Rightarrow> upd_env \<Rightarrow> (string \<Rightarrow> bool) \<Rightarrow> string list
    \<Rightarrow> 're MemoryBlockCache \<Rightarrow> go_panic + upd_error option \<times> 're MemoryBlockCache" where
  "updateBlockCache compile matches env wl [] c = Inr (None, c)"
| "updateBlockCache compile matches env wl (dir # dirs) c =
     (let dir = EvalSymlinks env (filepath_Clean dir) in
      if \<not> os_Stat env dir then updateBlockCache compile matches env wl dirs c
      else go_bind (walk_files compile matches env wl (Walk env dir) c) (\<lambda>(err, c).
        case err of
          Some e \<Rightarrow> Inr (Some e, c)
        | None \<Rightarrow> updateBlockCache compile matches env wl dirs c))"

section \<open>Downloads\<close>

definition downloadFile :: "upd_env \<Rightarrow> string \<Rightarrow> string \<Rightarrow> string \<Rightarrow> (string \<times> string) list" where
  "downloadFile env uri name sourcesStore =
     (let filePath = filepath_Clean (sourcesStore @ ''/'' @ name) in
      if \<not> os_Create env filePath then []
      else case http_Get env uri of
        None \<Rightarrow> [(filePath, [])]
      | Some body \<Rightarrow> [(filePath, body)])"

definition list_name :: "string \<Rightarrow> nat \<Rightarrow> string" where
  "list_name host n = host @ ''.'' @ Itoa n @ ''.list''"

text \<open>The file names the loop picks; a source that is no URL panics.\<close>

fun source_names :: "upd_env \<Rightarrow> string list \<Rightarrow> (string \<Rightarrow> nat) \<Rightarrow> go_panic + (string \<times> string) list \<times> (string \<Rightarrow> nat)" where
  "source_names env [] seen = Inr ([], seen)"
| "source_names env (uri # uris) seen =
     (case url_Host env uri of
        None \<Rightarrow> Inl NilDereference
      | Some host \<Rightarrow>
          let seen = seen(host := seen host + 1);
              fileName = list_name host (seen host)
          in go_bind (source_names env uris seen) (\<lambda>(rest, seen). Inr ((uri, fileName) # rest, seen)))"

definition fetchSources ::
  "upd_env \<Rightarrow> string list \<Rightarrow> string \<Rightarrow> upd_state \<Rightarrow> go_panic + (string \<times> string) list \<times> upd_state" where
  "fetchSources env sources sourcesStore st =
     go_bind (source_names env sources (timesSeen st)) (\<lambda>(jobs, seen).
       Inr (concat (map (\<lambda>(uri, name). downloadFile env uri name sourcesStore) jobs), st\<lparr>timesSeen := seen\<rparr>))"

fun set_all :: "(string \<Rightarrow> 're option) \<Rightarrow> string list \<Rightarrow> 're MemoryBlockCache \<Rightarrow> go_panic + 're MemoryBlockCache" where
  "set_all compile [] c = Inr c"
| "set_all compile (e # es) c = go_bind (MemoryBlockCache_Set compile e True c) (set_all compile es)"

definition update ::
  "(string \<Rightarrow> 're option) \<Rightarrow> upd_env \<Rightarrow> string list \<Rightarrow> string list \<Rightarrow> string list \<Rightarrow> string
    \<Rightarrow> upd_state \<Rightarrow> 're MemoryBlockCache
    \<Rightarrow> go_panic + upd_error option \<times> (string \<times> string) list \<times> upd_state \<times> 're MemoryBlockCache" where
  "update compile env wlist blist sources sourcesStore st c =
     (let sourcesStore = filepath_Clean sourcesStore in
      if \<not> os_Stat env sourcesStore \<and> \<not> os_Mkdir env sourcesStore then Inr (Some MkdirError, [], st, c)
      else
        let st = st\<lparr>whitelist := (\<lambda>e. whitelist st e \<or> e \<in> set wlist)\<rparr> in
        go_bind (set_all compile blist c) (\<lambda>c.
          go_bind (fetchSources env sources sourcesStore st) (\<lambda>(files, st). Inr (None, files, st, c))))"

text \<open>\<open>logger.Fatal\<close> ends the process.\<close>

definition PerformUpdate ::
  "(string \<Rightarrow> 're option) \<Rightarrow> ('re \<Rightarrow> string \<Rightarrow> bool) \<Rightarrow> ((string \<times> string) list \<Rightarrow> upd_env) \<Rightarrow> Config \<Rightarrow> bool
    \<Rightarrow> upd_state \<Rightarrow> go_panic + 're MemoryBlockCache \<times> (string \<times> string) list \<times> upd_state" where
  "PerformUpdate compile matches fs config forceUpdate st =
     (let b = Blocking_config config; newBlockCache = empty_block_cache in
      go_bind
        (if \<not> os_Stat (fs []) ''lists'' \<or> forceUpdate
         then update compile (fs []) (Whitelist b) (Blocklist b) (Sources b) (SourcesStore b) st newBlockCache
         else Inr (None, [], st, newBlockCache))
        (\<lambda>(err, files, st, c).
          if err \<noteq> None then Inl (ExplicitPanic ''Fatal'')
          else
            let sourceDirs = (if SourcesStore b \<notin> set (SourceDirs b)
                              then SourceDirs b @ [SourcesStore b] else SourceDirs b)
            in go_bind (updateBlockCache compile matches (fs files) (whitelist st) sourceDirs c) (\<lambda>(err, c).
                 if err \<noteq> None then Inl (ExplicitPanic ''Fatal'') else Inr (c, files, st))))"

section \<open>What loading adds to a block list\<close>

text \<open>Loading entries that are neither blocked already nor exempt, for any block list.\<close>

context block_list
begin

primrec load_new :: "(string \<Rightarrow> bool) \<Rightarrow> string list \<Rightarrow> 'c \<Rightarrow> go_panic + 'c" where
  "load_new skip [] c = Inr c"
| "load_new skip (k # ks) c =
     (if \<not> has k c \<and> \<not> skip k then go_bind (put k True c) (load_new skip ks) else load_new skip ks c)"

lemma load_new_ok:
  "inv c \<Longrightarrow> \<exists>c'. load_new skip ks c = Inr c' \<and> inv c' \<and> (\<forall>q. has q c \<longrightarrow> has q c')"
proof (induction ks arbitrary: c)
  case (Cons k ks)
  from put_ok [OF Cons.prems, of k True] obtain c1 where c1: "put k True c = Inr c1" "inv c1" by blast
  from Cons.IH [OF c1(2)] put_mono [OF Cons.prems c1(1)] have
    "\<exists>c'. load_new skip ks c1 = Inr c' \<and> inv c' \<and> (\<forall>q. has q c \<longrightarrow> has q c')" by blast
  with c1(1) Cons.IH [OF Cons.prems] show ?case by simp
qed simp

lemma load_new_plain:
  "inv c \<Longrightarrow> list_all plain_key ks \<Longrightarrow> load_new skip ks c = Inr c' \<Longrightarrow>
     has q c' \<longleftrightarrow> has q c \<or> (\<exists>k\<in>set ks. \<not> skip k \<and> ToLower q = ToLower k)"
proof (induction ks arbitrary: c)
  case (Cons k ks)
  from put_ok [OF Cons.prems(1), of k True] obtain c1 where c1: "put k True c = Inr c1" "inv c1" by blast
  have add: "has q c1 \<longleftrightarrow> has q c \<or> ToLower q = ToLower k"
    using put_plain [OF Cons.prems(1) _ c1(1)] Cons.prems(2) by simp
  show ?case
  proof (cases "\<not> has k c \<and> \<not> skip k")
    case True
    with Cons.prems(3) c1 have "load_new skip ks c1 = Inr c'" by simp
    from Cons.IH [OF c1(2) _ this] Cons.prems(2) add True show ?thesis by auto
  next
    case False
    with Cons.prems(3) have "load_new skip ks c = Inr c'" by auto
    from Cons.IH [OF Cons.prems(1) _ this] Cons.prems(2)
    have "has q c' \<longleftrightarrow> has q c \<or> (\<exists>k\<in>set ks. \<not> skip k \<and> ToLower q = ToLower k)" by simp
    moreover have "has q c" if "has k c" "ToLower q = ToLower k"
      using that has_lower [of q c] has_lower [of k c] by simp
    ultimately show ?thesis using False by auto
  qed
qed simp

lemma load_new_blocks:
  "inv c \<Longrightarrow> load_new skip ks c = Inr c' \<Longrightarrow> k \<in> set ks \<Longrightarrow> plain_key k \<Longrightarrow> \<not> skip k \<Longrightarrow> ToLower q = ToLower k \<Longrightarrow>
     has q c'"
proof (induction ks arbitrary: c)
  case (Cons k1 ks)
  from put_ok [OF Cons.prems(1), of k1 True] obtain c1 where c1: "put k1 True c = Inr c1" "inv c1" by blast
  let ?c = "if \<not> has k1 c \<and> \<not> skip k1 then c1 else c"
  have r: "load_new skip ks ?c = Inr c'" and i: "inv ?c"
    using Cons.prems(1,2) c1 by auto
  show ?case
  proof (cases "k = k1")
    case True
    have "has k c \<Longrightarrow> has q c" using Cons.prems(6) has_lower [of q c] has_lower [of k c] by simp
    then have "has q ?c"
      using put_plain [OF Cons.prems(1) _ c1(1)] Cons.prems(4-6) True by auto
    with load_new_ok [OF i, of skip ks] r show ?thesis by auto
  next
    case False
    with Cons.IH [OF i r] Cons.prems show ?thesis by simp
  qed
qed simp

end

lemma load_lines_eq:
  "load_lines compile matches wl lines c = bc.load_new compile matches wl (List.map_filter line_entry lines) c"
proof (induction lines arbitrary: c)
  case (Cons l lines)
  then have IH: "load_lines compile matches wl lines = bc.load_new compile matches wl (List.map_filter line_entry lines)"
    by (simp add: fun_eq_iff)
  show ?case
    by (cases "line_entry l") (simp_all add: IH List.map_filter_simps)
qed (simp add: List.map_filter_simps)

lemma set_all_eq: "set_all compile es c = bc.load compile es c"
proof (induction es arbitrary: c)
  case (Cons e es)
  then have "set_all compile es = bc.load compile es" by (simp add: fun_eq_iff)
  then show ?case by simp
qed simp

lemma parseHostFile_ok:
  assumes inv: "bc_inv compile c"
  shows "\<exists>err c'. parseHostFile compile matches env wl f c = Inr (err, c') \<and> bc_inv compile c' \<and>
    (\<forall>q. MemoryBlockCache_Exists matches q c \<longrightarrow> MemoryBlockCache_Exists matches q c')"
proof (cases "os_Open env (filepath_Clean f)")
  case None
  with inv show ?thesis by (simp add: parseHostFile_def)
next
  case (Some p)
  obtain contents ok lines long where p: "p = (contents, ok)" "scan_lines contents = (lines, long)"
    by (metis surj_pair)
  from bc.load_new_ok [OF inv, of matches wl "List.map_filter line_entry lines"] Some p show ?thesis
    by (auto simp: parseHostFile_def load_lines_eq)
qed

text \<open>Loading never unblocks a name.\<close>

lemma walk_files_mono:
  "bc_inv compile c \<Longrightarrow> walk_files compile matches env wl es c = Inr (err, c') \<Longrightarrow>
     bc_inv compile c' \<and> (\<forall>q. MemoryBlockCache_Exists matches q c \<longrightarrow> MemoryBlockCache_Exists matches q c')"
proof (induction es arbitrary: c)
  case (Cons e es)
  show ?case
  proof (cases e)
    case (WalkFile f)
    obtain e1 c1 where p: "parseHostFile compile matches env wl f c = Inr (e1, c1)" "bc_inv compile c1"
      "\<forall>q. MemoryBlockCache_Exists matches q c \<longrightarrow> MemoryBlockCache_Exists matches q c1"
      using parseHostFile_ok [OF Cons.prems(1)] by blast
    show ?thesis
    proof (cases e1)
      case None
      with Cons.prems(2) p(1) WalkFile have "walk_files compile matches env wl es c1 = Inr (err, c')" by simp
      from Cons.IH [OF p(2) this] p(3) show ?thesis by blast
    next
      case (Some e')
      with Cons.prems(2) p WalkFile show ?thesis by simp
    qed
  qed (use Cons in auto)
qed simp

lemma updateBlockCache_mono:
  "bc_inv compile c \<Longrightarrow> updateBlockCache compile matches env wl dirs c = Inr (err, c') \<Longrightarrow>
     bc_inv compile c' \<and> (\<forall>q. MemoryBlockCache_Exists matches q c \<longrightarrow> MemoryBlockCache_Exists matches q c')"
proof (induction dirs arbitrary: c)
  case (Cons d dirs)
  let ?d = "EvalSymlinks env (filepath_Clean d)"
  show ?case
  proof (cases "os_Stat env ?d")
    case True
    with Cons.prems(2) obtain e1 c1 where w: "walk_files compile matches env wl (Walk env ?d) c = Inr (e1, c1)"
      by (auto simp: Let_def go_bind_Inr_iff)
    note W = walk_files_mono [OF Cons.prems(1) w]
    show ?thesis
    proof (cases e1)
      case None
      with Cons.prems(2) w True have "updateBlockCache compile matches env wl dirs c1 = Inr (err, c')"
        by (simp add: Let_def)
      with Cons.IH W show ?thesis by blast
    next
      case (Some e)
      with Cons.prems(2) w True W show ?thesis by (simp add: Let_def)
    qed
  next
    case False
    with Cons show ?thesis by (simp add: Let_def)
  qed
qed simp

text \<open>What a readable file on the way of the walk names is blocked afterwards.\<close>

definition file_names :: "upd_env \<Rightarrow> (string \<Rightarrow> bool) \<Rightarrow> string \<Rightarrow> string \<Rightarrow> bool" where
  "file_names env wl f k \<longleftrightarrow> (\<exists>contents lines. os_Open env (filepath_Clean f) = Some (contents, True) \<and>
     scan_lines contents = (lines, False) \<and> k \<in> set (List.map_filter line_entry lines) \<and> plain_key k \<and> \<not> wl k)"

lemma parseHostFile_blocks:
  assumes "bc_inv compile c" and "file_names env wl f k" and "ToLower q = ToLower k"
  shows "\<exists>c'. parseHostFile compile matches env wl f c = Inr (None, c') \<and> bc_inv compile c' \<and>
    MemoryBlockCache_Exists matches q c'"
proof -
  from assms(2) obtain contents lines where f: "os_Open env (filepath_Clean f) = Some (contents, True)"
    "scan_lines contents = (lines, False)" and k: "k \<in> set (List.map_filter line_entry lines)" "plain_key k" "\<not> wl k"
    by (auto simp: file_names_def)
  obtain c' where c': "bc.load_new compile matches wl (List.map_filter line_entry lines) c = Inr c'" "bc_inv compile c'"
    using bc.load_new_ok [OF assms(1)] by blast
  moreover have "MemoryBlockCache_Exists matches q c'"
    using bc.load_new_blocks [OF assms(1) c'(1) k assms(3)] .
  ultimately show ?thesis using f by (simp add: parseHostFile_def load_lines_eq)
qed

lemma walk_files_blocks:
  "bc_inv compile c \<Longrightarrow> walk_files compile matches env wl es c = Inr (None, c') \<Longrightarrow>
     WalkFile f \<in> set es \<Longrightarrow> file_names env wl f k \<Longrightarrow> ToLower q = ToLower k \<Longrightarrow> MemoryBlockCache_Exists matches q c'"
proof (induction es arbitrary: c)
  case (Cons e es)
  show ?case
  proof (cases e)
    case (WalkFile f1)
    obtain c1 where c1: "parseHostFile compile matches env wl f1 c = Inr (None, c1)" "bc_inv compile c1"
      "walk_files compile matches env wl es c1 = Inr (None, c')"
      using parseHostFile_ok [OF Cons.prems(1), of matches env wl f1] Cons.prems(2) WalkFile
      by (auto split: option.splits)
    show ?thesis
    proof (cases "f = f1")
      case True
      with parseHostFile_blocks [OF Cons.prems(1,4,5), of matches] c1(1) have "MemoryBlockCache_Exists matches q c1"
        by auto
      with walk_files_mono [OF c1(2,3)] show ?thesis by blast
    next
      case False
      with Cons.prems WalkFile have "WalkFile f \<in> set es" by simp
      with Cons.IH [OF c1(2,3)] Cons.prems show ?thesis by blast
    qed
  qed (use Cons in auto)
qed simp

lemma updateBlockCache_blocks:
  "bc_inv compile c \<Longrightarrow> updateBlockCache compile matches env wl dirs c = Inr (None, c') \<Longrightarrow> d \<in> set dirs \<Longrightarrow>
     os_Stat env (EvalSymlinks env (filepath_Clean d)) \<Longrightarrow>
     WalkFile f \<in> set (Walk env (EvalSymlinks env (filepath_Clean d))) \<Longrightarrow>
     file_names env wl f k \<Longrightarrow> ToLower q = ToLower k \<Longrightarrow> MemoryBlockCache_Exists matches q c'"
proof (induction dirs arbitrary: c)
  case (Cons d1 dirs)
  let ?d = "EvalSymlinks env (filepath_Clean d1)"
  show ?case
  proof (cases "os_Stat env ?d")
    case True
    with Cons.prems(2) obtain c1 where w: "walk_files compile matches env wl (Walk env ?d) c = Inr (None, c1)"
      and u: "updateBlockCache compile matches env wl dirs c1 = Inr (None, c')"
      by (auto simp: Let_def go_bind_Inr_iff split: option.splits)
    have i: "bc_inv compile c1" using walk_files_mono [OF Cons.prems(1) w] by blast
    show ?thesis
    proof (cases "d = d1")
      case True
      with walk_files_blocks [OF Cons.prems(1) w] Cons.prems have "MemoryBlockCache_Exists matches q c1" by blast
      with updateBlockCache_mono [OF i u] show ?thesis by blast
    next
      case False
      with Cons.IH [OF i u] Cons.prems show ?thesis by simp
    qed
  next
    case False
    then have "d \<noteq> d1" using Cons.prems(4) by blast
    with False Cons show ?thesis by (simp add: Let_def)
  qed
qed simp

section \<open>Names of downloaded lists\<close>

lemma dec_value_digit: "n < 10 \<Longrightarrow> dec_value (digit n) = Some n"
  by (auto simp: dec_value_def digit_def Let_def)

lemma Itoa_digits: "c \<in> set (Itoa n) \<Longrightarrow> \<exists>d<10. c = digit d"
proof (induction n rule: Itoa.induct)
  case (1 n)
  show ?case
  proof (cases "n < 10")
    case True
    with "1.prems" show ?thesis by (subst (asm) Itoa.simps) auto
  next
    case False
    with "1.prems" have "c \<in> set (Itoa (n div 10)) \<or> c = digit (n mod 10)" by (subst (asm) Itoa.simps) auto
    moreover have "n mod 10 < 10" by simp
    ultimately show ?thesis using "1.IH" [OF False] by blast
  qed
qed

lemma Itoa_no_dot: "CHR ''.'' \<notin> set (Itoa n)"
proof
  assume "CHR ''.'' \<in> set (Itoa n)"
  then obtain d where "d < 10" "CHR ''.'' = digit d" using Itoa_digits by blast
  then have "dec_value (CHR ''.'') = Some d" using dec_value_digit by simp
  moreover have "dec_value (CHR ''.'') = None" by code_simp
  ultimately show False by simp
qed

text \<open>Reading the digits back.\<close>

lemma number_append:
  "number v b a (s @ t) = (case number v b a s of None \<Rightarrow> None | Some x \<Rightarrow> number v b x t)"
  by (induction s arbitrary: a) (auto split: option.splits)

lemma number_Itoa: "number dec_value 10 0 (Itoa n) = Some n"
proof (induction n rule: Itoa.induct)
  case (1 n)
  show ?case
  proof (cases "n < 10")
    case True
    then show ?thesis by (subst Itoa.simps) (simp add: dec_value_digit)
  next
    case False
    then have "dec_value (digit (n mod 10)) = Some (n mod 10)" by (simp add: dec_value_digit)
    with 1 False show ?thesis by (subst Itoa.simps) (simp add: number_append)
  qed
qed

lemma Itoa_inject: "Itoa m = Itoa n \<longleftrightarrow> m = n"
  by (metis number_Itoa option.inject)

text \<open>A name determines its host, whatever dots that has, and its number.\<close>

lemma dot_split_unique:
  "CHR ''.'' \<notin> set x \<Longrightarrow> CHR ''.'' \<notin> set y \<Longrightarrow> a @ ''.'' @ x = b @ ''.'' @ y \<Longrightarrow> a = b \<and> x = y"
proof (induction a arbitrary: b)
  case Nil
  then show ?case by (cases b) auto
next
  case (Cons c a)
  then show ?case by (cases b) auto
qed

lemma list_name_inject: "list_name h m = list_name h' n \<longleftrightarrow> h = h' \<and> m = n"
  using dot_split_unique [OF Itoa_no_dot Itoa_no_dot, of h m h' n]
  by (auto simp: list_name_def Itoa_inject)

lemma source_names_fresh:
  "source_names env uris seen = Inr (jobs, seen') \<Longrightarrow>
     distinct (map snd jobs) \<and> (\<forall>h. seen h \<le> seen' h) \<and>
     (\<forall>name\<in>set (map snd jobs). \<exists>h n. name = list_name h n \<and> seen h < n \<and> n \<le> seen' h)"
proof (induction uris arbitrary: seen jobs)
  case (Cons uri uris)
  then obtain host rest where host: "url_Host env uri = Some host"
    and rest: "source_names env uris (seen(host := seen host + 1)) = Inr (rest, seen')"
    and jobs: "jobs = (uri, list_name host (seen host + 1)) # rest"
    by (auto simp: Let_def go_bind_Inr_iff split: option.splits)
  from Cons.IH [OF rest] have IH: "distinct (map snd rest)" "\<forall>h. (seen(host := seen host + 1)) h \<le> seen' h"
    "\<forall>name\<in>set (map snd rest). \<exists>h n. name = list_name h n \<and> (seen(host := seen host + 1)) h < n \<and> n \<le> seen' h"
    by blast+
  have "list_name host (seen host + 1) \<notin> set (map snd rest)"
    using IH(3) by (auto simp: list_name_inject split: if_splits)
  moreover have le: "seen h \<le> seen' h" for h
    using IH(2) [rule_format, of h] by (simp split: if_splits)
  moreover have "seen host + 1 \<le> seen' host" using IH(2) [rule_format, of host] by simp
  moreover have "\<exists>h n. name = list_name h n \<and> seen h < n \<and> n \<le> seen' h" if "name \<in> set (map snd rest)" for name
  proof -
    from IH(3) that obtain h n where "name = list_name h n" "(seen(host := seen host + 1)) h < n" "n \<le> seen' h"
      by blast
    then show ?thesis by (intro exI [of _ h] exI [of _ n]) (simp split: if_splits)
  qed
  ultimately show ?case using IH(1) jobs by auto
qed simp

section \<open>The two phases of an update\<close>

definition source_dirs :: "Blocking \<Rightarrow> string list" where
  "source_dirs b = (if SourcesStore b \<notin> set (SourceDirs b) then SourceDirs b @ [SourcesStore b] else SourceDirs b)"

lemma SourcesStore_in_source_dirs: "SourcesStore b \<in> set (source_dirs b)"
  by (simp add: source_dirs_def)

lemma PerformUpdate_phases:
  assumes "PerformUpdate compile matches fs config True st = Inr (c, files, st')"
  shows "\<exists>c1. bc_inv compile c1 \<and> set_all compile (Blocklist (Blocking_config config)) empty_block_cache = Inr c1 \<and>
    (\<exists>st0. fetchSources (fs []) (Sources (Blocking_config config))
      (filepath_Clean (SourcesStore (Blocking_config config))) st0 = Inr (files, st')) \<and>
    updateBlockCache compile matches (fs files) (whitelist st') (source_dirs (Blocking_config config)) c1 = Inr (None, c)"
proof -
  let ?b = "Blocking_config config"
  obtain c1 where l: "bc.load compile (Blocklist ?b) empty_block_cache = Inr c1" and i: "bc_inv compile c1"
    using bc.load_ok [OF bc_inv_empty] by blast
  then have s: "set_all compile (Blocklist ?b) empty_block_cache = Inr c1" by (simp add: set_all_eq)
  obtain st0 where
    "update compile (fs []) (Whitelist ?b) (Blocklist ?b) (Sources ?b) (SourcesStore ?b) st empty_block_cache =
      Inr (None, files, st', c1)"
    "fetchSources (fs []) (Sources ?b) (filepath_Clean (SourcesStore ?b)) st0 = Inr (files, st')"
    "updateBlockCache compile matches (fs files) (whitelist st') (source_dirs ?b) c1 = Inr (None, c)"
    using assms s by (auto simp: PerformUpdate_def update_def source_dirs_def Let_def go_bind_Inr_iff split: if_splits)
  with i s show ?thesis by blast
qed

lemma downloads_written:
  "source_names env uris seen = Inr (jobs, seen') \<Longrightarrow> uri \<in> set uris \<Longrightarrow> \<exists>name. (uri, name) \<in> set jobs"
  by (induction uris arbitrary: seen jobs) (auto simp: Let_def go_bind_Inr_iff split: option.splits, blast)

lemma fetchSources_written:
  assumes "fetchSources env uris store st = Inr (files, st')" and "uri \<in> set uris"
    and "http_Get env uri = Some body" and "\<forall>p. os_Create env p"
  shows "\<exists>p. (p, body) \<in> set files"
proof -
  from assms(1) obtain jobs seen where j: "source_names env uris (timesSeen st) = Inr (jobs, seen)"
    and f: "files = concat (map (\<lambda>(uri, name). downloadFile env uri name store) jobs)"
    by (auto simp: fetchSources_def go_bind_Inr_iff)
  obtain name where "(uri, name) \<in> set jobs" using downloads_written [OF j assms(2)] by blast
  moreover have "downloadFile env uri name store = [(filepath_Clean (store @ ''/'' @ name), body)]"
    using assms(3,4) by (simp add: downloadFile_def)
  ultimately show ?thesis using f by force
qed

section \<open>Properties\<close>

definition ex_upd_env :: upd_env where
  "ex_upd_env = \<lparr>os_Stat = (\<lambda>p. p = ''s''), os_Mkdir = (\<lambda>_. True), EvalSymlinks = (\<lambda>p. p),
     Walk = (\<lambda>d. [WalkDir d, WalkFile (d @ ''/l'')]),
     os_Open = (\<lambda>p. if p = ''s/l'' then Some (''0.0.0.0 Ads.com # x'' @ [CHR 0x0A] @ ''ok.com'', True) else None),
     os_Create = (\<lambda>_. True), http_Get = (\<lambda>_. None), url_Host = (\<lambda>u. Some u)\<rparr>"

text \<open>
  Loading a readable hosts file whose entries are plain names never panics or fails, and
  afterwards a name is blocked exactly if it was before or if some line of the file names it,
  in any case, as its only field or as the field after the address, unless that very text is
  on the whitelist.
\<close>

theorem host_file_blocks:
  assumes "bc_inv compile c"
    and "os_Open env (filepath_Clean f) = Some (contents, True)"
    and "scan_lines contents = (lines, False)"
    and "list_all plain_key (List.map_filter line_entry lines)"
  shows "\<exists>c'. parseHostFile compile matches env wl f c = Inr (None, c') \<and> bc_inv compile c' \<and>
    (\<forall>q. MemoryBlockCache_Exists matches q c' \<longleftrightarrow> MemoryBlockCache_Exists matches q c \<or>
       (\<exists>l\<in>set lines. \<exists>k. line_entry l = Some k \<and> \<not> wl k \<and> ToLower q = ToLower k))"
proof -
  let ?ks = "List.map_filter line_entry lines"
  obtain c' where c': "bc.load_new compile matches wl ?ks c = Inr c'" "bc_inv compile c'"
    using bc.load_new_ok [OF assms(1)] by blast
  have "parseHostFile compile matches env wl f c = Inr (None, c')"
    using assms(2,3) c'(1) by (simp add: parseHostFile_def load_lines_eq)
  moreover have "(\<exists>k\<in>set ?ks. \<not> wl k \<and> ToLower q = ToLower k) \<longleftrightarrow>
      (\<exists>l\<in>set lines. \<exists>k. line_entry l = Some k \<and> \<not> wl k \<and> ToLower q = ToLower k)" for q
    by (fastforce simp: List.map_filter_def)
  ultimately show ?thesis using bc.load_new_plain [OF assms(1,4) c'(1)] c'(2) by auto
qed

theorem host_file_blocks_witness:
  "\<exists>c'. parseHostFile (\<lambda>_. None :: unit option) (\<lambda>_ _. False) ex_upd_env (\<lambda>e. e = ''ok.com'') ''s/l''
      empty_block_cache = Inr (None, c') \<and> MemoryBlockCache_Exists (\<lambda>_ _. False) ''ads.COM'' c' \<and>
    \<not> MemoryBlockCache_Exists (\<lambda>_ _. False) ''ok.com'' c'"
proof -
  have o: "os_Open ex_upd_env (filepath_Clean ''s/l'') = Some (''0.0.0.0 Ads.com # x'' @ [CHR 0x0A] @ ''ok.com'', True)"
    unfolding ex_upd_env_def by code_simp
  have s: "scan_lines (''0.0.0.0 Ads.com # x'' @ [CHR 0x0A] @ ''ok.com'') = ([''0.0.0.0 Ads.com # x'', ''ok.com''], False)"
    by (simp add: scan_lines_def raw_lines_def drop_cr_def)
  have e: "line_entry ''0.0.0.0 Ads.com # x'' = Some ''Ads.com''" "line_entry ''ok.com'' = Some ''ok.com''"
    by code_simp+
  have p: "list_all plain_key (List.map_filter line_entry [''0.0.0.0 Ads.com # x'', ''ok.com''])"
    by code_simp
  have l: "ToLower ''ads.COM'' = ToLower ''Ads.com''" "ToLower ''ok.com'' \<noteq> ToLower ''Ads.com''" by code_simp+
  have "\<not> MemoryBlockCache_Exists (\<lambda>_ _. False) ''ok.com'' (empty_block_cache :: unit MemoryBlockCache)" by code_simp
  with host_file_blocks [OF bc_inv_empty o s p, where compile = "\<lambda>_. None" and matches = "\<lambda>_ _. False"
      and wl = "\<lambda>e. e = ''ok.com''"] e l
  show ?thesis by auto
qed

text \<open>
  The files that downloads are written to have pairwise different names, different also
  from every name used since the process started, because the counter per host is never
  reset: a reload writes new files beside the old ones, which are then loaded as well.
\<close>

theorem download_names_distinct:
  assumes "source_names env sources seen = Inr (jobs, seen')"
    and "source_names env sources' seen' = Inr (jobs', seen'')"
  shows "distinct (map snd (jobs @ jobs')) \<and>
    (\<forall>h n. n \<le> seen h \<longrightarrow> list_name h n \<notin> set (map snd (jobs @ jobs')))"
proof -
  note A = source_names_fresh [OF assms(1)] and B = source_names_fresh [OF assms(2)]
  have "set (map snd jobs) \<inter> set (map snd jobs') = {}"
    using A B by (fastforce simp: list_name_inject)
  moreover have "list_name h n \<notin> set (map snd (jobs @ jobs'))" if "n \<le> seen h" for h n
  proof -
    have le: "seen h \<le> seen' h" using A by blast
    have "list_name h n \<notin> set (map snd jobs)" using A that by (force simp: list_name_inject)
    moreover have "list_name h n \<notin> set (map snd jobs')" using B that le by (force simp: list_name_inject)
    ultimately show ?thesis by simp
  qed
  ultimately show ?thesis using A B by simp
qed

theorem download_names_distinct_witness:
  "\<exists>jobs seen' jobs' seen''. source_names ex_upd_env [''h'', ''h''] (\<lambda>_. 0) = Inr (jobs, seen') \<and>
     source_names ex_upd_env [''h''] seen' = Inr (jobs', seen'') \<and> distinct (map snd (jobs @ jobs'))"
proof -
  obtain jobs seen' jobs' seen'' where j: "source_names ex_upd_env [''h'', ''h''] (\<lambda>_. 0) = Inr (jobs, seen')"
    "source_names ex_upd_env [''h''] seen' = Inr (jobs', seen'')"
    by (simp add: ex_upd_env_def Let_def)
  from download_names_distinct [OF j] j show ?thesis by blast
qed

text \<open>
  After a forced update that ends well, every plain name of the configured block list is
  blocked, in any case, whatever the whitelist says and whatever the source directories
  hold.
\<close>

lemma update_blocks_configured:
  assumes "PerformUpdate compile matches fs config True st = Inr (c, files, st')"
    and "k \<in> set (Blocklist (Blocking_config config))" and "plain_key k" and "ToLower q = ToLower k"
  shows "MemoryBlockCache_Exists matches q c \<and> bc_inv compile c"
proof -
  obtain c1 dirs where i: "bc_inv compile c1" and s: "set_all compile (Blocklist (Blocking_config config)) empty_block_cache = Inr c1"
    and u: "updateBlockCache compile matches (fs files) (whitelist st') dirs c1 = Inr (None, c)"
    using PerformUpdate_phases [OF assms(1)] by blast
  have l: "bc.load compile (Blocklist (Blocking_config config)) empty_block_cache = Inr c1"
    using s by (simp add: set_all_eq)
  have "MemoryBlockCache_Exists matches q c1"
    using bc.load_blocks [OF bc_inv_empty l assms(2,3,4)] .
  with i show ?thesis using updateBlockCache_mono [OF _ u] by blast
qed

text \<open>
  After a forced update that ends well, every plain name of every downloaded list is
  blocked, in any case, unless that very text is on the whitelist, provided the file system
  shows a written file, with its contents, to the walk over the store.
\<close>

theorem downloaded_list_blocks:
  assumes "PerformUpdate compile matches fs config True st = Inr (c, files, st')"
    and "uri \<in> set (Sources (Blocking_config config))" and "http_Get (fs []) uri = Some body"
    and "\<forall>p. os_Create (fs []) p"
    and "os_Stat (fs files) (EvalSymlinks (fs files) (filepath_Clean (SourcesStore (Blocking_config config))))"
    and "\<forall>(p, body)\<in>set files. os_Open (fs files) (filepath_Clean p) = Some (body, True) \<and>
      WalkFile p \<in> set (Walk (fs files) (EvalSymlinks (fs files) (filepath_Clean (SourcesStore (Blocking_config config)))))"
    and "scan_lines body = (lines, False)" and "l \<in> set lines" and "line_entry l = Some k"
    and "plain_key k" and "\<not> whitelist st' k" and "ToLower q = ToLower k"
  shows "MemoryBlockCache_Exists matches q c"
proof -
  let ?b = "Blocking_config config"
  obtain c1 st0 where i: "bc_inv compile c1"
    and f: "fetchSources (fs []) (Sources ?b) (filepath_Clean (SourcesStore ?b)) st0 = Inr (files, st')"
    and u: "updateBlockCache compile matches (fs files) (whitelist st') (source_dirs ?b) c1 = Inr (None, c)"
    using PerformUpdate_phases [OF assms(1)] by blast
  obtain p where p: "(p, body) \<in> set files" using fetchSources_written [OF f assms(2-4)] by blast
  have "k \<in> set (List.map_filter line_entry lines)"
    using assms(8,9) by (force simp: List.map_filter_def)
  with p assms have n: "file_names (fs files) (whitelist st') p k" by (auto simp: file_names_def)
  from p assms(6) have w: "WalkFile p \<in> set (Walk (fs files) (EvalSymlinks (fs files) (filepath_Clean (SourcesStore ?b))))"
    by auto
  show ?thesis
    by (rule updateBlockCache_blocks [OF i u SourcesStore_in_source_dirs assms(5) w n assms(12)])
qed

definition ex_upd_fs :: "(string \<times> string) list \<Rightarrow> upd_env" where
  "ex_upd_fs files = \<lparr>os_Stat = (\<lambda>p. p = ''s''), os_Mkdir = (\<lambda>_. True), EvalSymlinks = (\<lambda>p. p),
     Walk = (\<lambda>d. if d = ''s'' then map (WalkFile \<circ> fst) files else []),
     os_Open = (\<lambda>p. map_option (\<lambda>body. (body, True)) (map_of files p)),
     os_Create = (\<lambda>_. True), http_Get = (\<lambda>_. Some ''0.0.0.0 ads.com''), url_Host = (\<lambda>_. Some ''h'')\<rparr>"

theorem downloaded_list_blocks_witness:
  "\<exists>c files st'. PerformUpdate (\<lambda>_. None :: unit option) (\<lambda>_ _. False) ex_upd_fs
      (parseDefaultConfig\<lparr>Blocking_config := (Blocking_config parseDefaultConfig)\<lparr>Blocklist := [],
         Whitelist := [], Sources := [''u''], SourceDirs := [], SourcesStore := ''s''\<rparr>\<rparr>) True
      \<lparr>timesSeen = (\<lambda>_. 0), whitelist = (\<lambda>_. False)\<rparr> = Inr (c, files, st') \<and>
    MemoryBlockCache_Exists (\<lambda>_ _. False) ''ADS.com'' c"
proof -
  let ?cfg = "parseDefaultConfig\<lparr>Blocking_config := (Blocking_config parseDefaultConfig)\<lparr>Blocklist := [],
         Whitelist := [], Sources := [''u''], SourceDirs := [], SourcesStore := ''s''\<rparr>\<rparr>"
  let ?st = "\<lparr>timesSeen = (\<lambda>_. 0), whitelist = (\<lambda>_. False)\<rparr>"
  let ?st' = "\<lparr>timesSeen = (\<lambda>_. 0)(''h'' := 1), whitelist = (\<lambda>_. False)\<rparr>"
  let ?files = "[(''s/h.1.list'', ''0.0.0.0 ads.com'')]"
  have cl: "filepath_Clean ''s'' = ''s''" "filepath_Clean ''s/h.1.list'' = ''s/h.1.list''"
    "filepath_Clean (''s'' @ ''/'' @ list_name ''h'' (Suc 0)) = ''s/h.1.list''" by code_simp+
  have u: "update (\<lambda>_. None :: unit option) (ex_upd_fs []) [] [] [''u''] ''s'' ?st empty_block_cache =
      Inr (None, ?files, ?st', empty_block_cache)"
    using cl by (simp add: update_def fetchSources_def downloadFile_def ex_upd_fs_def)
  have s: "scan_lines ''0.0.0.0 ads.com'' = ([''0.0.0.0 ads.com''], False)"
    by (simp add: scan_lines_def raw_lines_def drop_cr_def)
  have e: "line_entry ''0.0.0.0 ads.com'' = Some ''ads.com''" by code_simp
  have k: "plain_key ''ads.com''" "ToLower ''ADS.com'' = ToLower ''ads.com''" by code_simp+
  have n: "file_names (ex_upd_fs ?files) (\<lambda>_. False) ''s/h.1.list'' ''ads.com''"
    using cl s e k by (simp add: file_names_def ex_upd_fs_def List.map_filter_simps)
  obtain c2 where p: "parseHostFile (\<lambda>_. None :: unit option) (\<lambda>_ _. False) (ex_upd_fs ?files) (\<lambda>_. False) ''s/h.1.list''
      empty_block_cache = Inr (None, c2)"
    using parseHostFile_blocks [OF bc_inv_empty n k(2)] by blast
  have d: "updateBlockCache (\<lambda>_. None :: unit option) (\<lambda>_ _. False) (ex_upd_fs ?files) (\<lambda>_. False) [''s'']
      empty_block_cache = Inr (None, c2)"
    using p cl by (simp add: ex_upd_fs_def)
  have r: "PerformUpdate (\<lambda>_. None :: unit option) (\<lambda>_ _. False) ex_upd_fs ?cfg True ?st = Inr (c2, ?files, ?st')"
    using u d by (simp add: PerformUpdate_def Let_def del: updateBlockCache.simps)
  have "MemoryBlockCache_Exists (\<lambda>_ _. False) ''ADS.com'' c2"
    by (rule downloaded_list_blocks [OF r _ _ _ _ _ s _ e k(1) _ k(2)])
      (use cl in \<open>simp_all add: ex_upd_fs_def\<close>)
  with r show ?thesis by blast
qed

end
