(* ===== verification/Api.thy ===== *)
theory Api
  imports Updater
begin

text \<open>
  The HTTP API (src/api.go): its address, its routes and their handlers. The state of the
  handlers is the block list, the user's own list (the file personal.list in the store of
  the sources), the flag \<open>lengActive\<close> and the number of goroutines that wait to send on
  \<open>reloadChan\<close>. Whether the file can be opened, read, written and truncated is the record
  \<open>api_env\<close>; errors of these calls are logged and nothing else. The router of gin is the
  function from a method and the segments of a path to a handler; its redirects, the
  Prometheus page and the CORS headers are not modelled.
\<close>

section \<open>Start\<close>

text \<open>\<open>strings.Replace\<close> with at most one replacement.\<close>

definition Replace1 :: "string \<Rightarrow> string \<Rightarrow> string \<Rightarrow> string" where
  "Replace1 s old new = (case Index s old of None \<Rightarrow> s | Some i \<Rightarrow> take i s @ new @ drop (i + length old) s)"

record api_server =
  api_Addr :: string
  ReadHeaderTimeout :: duration

text \<open>
  In a container the loopback address is replaced by that of all interfaces, in the
  configuration too. \<open>listen\<close> tells whether \<open>net.Listen\<close> succeeds; \<open>None\<close> is its error.
\<close>

definition StartAPIServer :: "bool \<Rightarrow> (string \<Rightarrow> bool) \<Rightarrow> Config \<Rightarrow> Config \<times> api_server option" where
  "StartAPIServer isRunningInDockerContainer listen config =
     (let localhost = ''127.0.0.1:'';
          config = (if isRunningInDockerContainer \<and> HasPrefix (API config) localhost
                    then config\<lparr>API := Replace1 (API config) localhost ''0.0.0.0:''\<rparr> else config);
          server = \<lparr>api_Addr = API config, ReadHeaderTimeout = Duration (Timeout config) Second\<rparr>
      in (config, if listen (API config) then Some server else None))"

section \<open>Handlers\<close>

datatype json = JNull | JBool bool | JNum nat | JStr string | JArr "json list" | JObj "(string \<times> json) list"

datatype api_response = IndentedJSON nat json | AbortWithStatus nat | PrometheusPage

record api_env =
  ae_open :: bool
  ae_read :: bool
  ae_write :: bool
  ae_truncate :: bool

record 're api_state =
  as_blockCache :: "'re MemoryBlockCache"
  as_personal :: string
  as_lengActive :: bool
  as_reloads :: nat

type_synonym 're api_result = "go_panic + api_response \<times> 're api_state"

abbreviation (input) "api_success \<equiv> IndentedJSON 200 (JObj [(''success'', JBool True)])"

text \<open>The order in which Go ranges over the patterns is \<open>ord\<close>; the members of an object are unordered.\<close>

definition api_blockcache :: "(string list \<Rightarrow> string list) \<Rightarrow> 're api_state \<Rightarrow> 're api_result" where
  "api_blockcache ord st =
     (let c = as_blockCache st in
      Inr (IndentedJSON 200 (JObj [(''length'', JNum (MemoryBlockCache_Length c)),
             (''items'', JObj (map (\<lambda>(k, v). (k, JBool v)) (Backend c))),
             (''special'', JArr (map JStr (ord (map fst (Special_entries c)))))]), st))"

definition api_exists :: "('re \<Rightarrow> string \<Rightarrow> bool) \<Rightarrow> string \<Rightarrow> 're api_state \<Rightarrow> 're api_result" where
  "api_exists matches key st =
     Inr (IndentedJSON 200 (JObj [(''exists'', JBool (MemoryBlockCache_Exists matches key (as_blockCache st)))]), st)"

definition api_get :: "string \<Rightarrow> 're api_state \<Rightarrow> 're api_result" where
  "api_get key st =
     (case MemoryBlockCache_Get key (as_blockCache st) of (ok, _) \<Rightarrow>
        Inr (IndentedJSON 200 (JObj [if \<not> ok then (''error'', JStr (key @ '' not found''))
                                     else (''success'', JBool ok)]), st))"

definition api_length :: "'re api_state \<Rightarrow> 're api_result" where
  "api_length st = Inr (IndentedJSON 200 (JObj [(''length'', JNum (MemoryBlockCache_Length (as_blockCache st)))]), st)"

definition api_remove :: "string \<Rightarrow> 're api_state \<Rightarrow> 're api_result" where
  "api_remove key st = Inr (api_success, st\<lparr>as_blockCache := MemoryBlockCache_Remove key (as_blockCache st)\<rparr>)"

text \<open>The lines of the user's list, and whether the scanner reports an error.\<close>

definition personal_scan :: "api_env \<Rightarrow> 're api_state \<Rightarrow> string list \<times> bool" where
  "personal_scan env st = (if ae_open env \<and> ae_read env then scan_lines (as_personal st) else ([], True))"

text \<open>A nil slice is encoded as null.\<close>

definition api_personal :: "api_env \<Rightarrow> 're api_state \<Rightarrow> 're api_result" where
  "api_personal env st =
     (let personalBlockList = fst (personal_scan env st) in
      Inr (IndentedJSON 200 (JObj [(''personalBlockList'',
             if personalBlockList = [] then JNull else JArr (map JStr personalBlockList))]), st))"

definition rewritten :: "string \<Rightarrow> string list \<Rightarrow> string" where
  "rewritten key lines = concat (map ((#) CHR 0x0A) (filter (\<lambda>line. line \<noteq> key) lines))"

definition api_set :: "(string \<Rightarrow> 're option) \<Rightarrow> api_env \<Rightarrow> string \<Rightarrow> 're api_state \<Rightarrow> 're api_result" where
  "api_set compile env key st =
     (if snd (MemoryBlockCache_Get key (as_blockCache st)) = Some (main_KeyNotFound key) then
        go_bind (MemoryBlockCache_Set compile key True (as_blockCache st)) (\<lambda>c.
          Inr (api_success, st\<lparr>as_blockCache := c,
            as_personal := (if ae_open env \<and> ae_write env then as_personal st @ key @ [CHR 0x0A]
                            else as_personal st)\<rparr>))
      else
        let st = st\<lparr>as_blockCache := MemoryBlockCache_Remove key (as_blockCache st)\<rparr>;
            (lines, err) = personal_scan env st
        in if err then Inr (api_success, st)
           else
             let kept = (if ae_truncate env then [] else as_personal st);
                 kept = (if ae_write env then kept @ rewritten key lines else kept)
             in Inr (api_success, st\<lparr>as_personal := kept\<rparr>))"

abbreviation (input) "api_deprecated \<equiv>
  IndentedJSON 400 (JObj [(''error'', JStr ''invalid request - endpoint has been deprecated'')])"

text \<open>The update is triggered by a goroutine of its own, which waits until the main loop listens.\<close>

definition api_update :: "'re api_state \<Rightarrow> 're api_result" where
  "api_update st = Inr (AbortWithStatus 200, st\<lparr>as_reloads := Suc (as_reloads st)\<rparr>)"

definition api_active :: "'re api_state \<Rightarrow> 're api_result" where
  "api_active st = Inr (IndentedJSON 200 (JObj [(''active'', JBool (as_lengActive st))]), st)"

section \<open>Routes\<close>

definition path_segments :: "string \<Rightarrow> string list" where
  "path_segments path = tl (Split path CHR ''/'')"

text \<open>\<open>None\<close> is what the router answers for a path without a handler.\<close>

definition api_handle ::
  "(string \<Rightarrow> 're option) \<Rightarrow> ('re \<Rightarrow> string \<Rightarrow> bool) \<Rightarrow> (string list \<Rightarrow> string list) \<Rightarrow> Config \<Rightarrow> api_env
    \<Rightarrow> string \<Rightarrow> string \<Rightarrow> 're api_state \<Rightarrow> 're api_result option" where
  "api_handle compile matches ord config env method path st =
     (let segs = path_segments path in
      if method = ''GET'' then
        (if Metrics_Enabled (Metrics_conf config) \<and> path = Metrics_Path (Metrics_conf config)
         then Some (Inr (PrometheusPage, st))
         else case segs of
           [a] \<Rightarrow>
             if a = ''blockcache'' then Some (api_blockcache ord st)
             else if a = ''questioncache'' then Some (Inr (api_deprecated, st))
             else None
         | [a, b] \<Rightarrow>
             if a = ''blockcache'' then
               (if b = ''length'' then Some (api_length st)
                else if b = ''personal'' then Some (api_personal env st) else None)
             else if a = ''questioncache'' then
               (if b = ''length'' \<or> b = ''clear'' \<or> b = ''client'' then Some (Inr (api_deprecated, st)) else None)
             else if a = ''application'' \<and> b = ''active'' then Some (api_active st)
             else None
         | [a, b, key] \<Rightarrow>
             if key = [] then None
             else if a = ''blockcache'' then
               (if b = ''exists'' then Some (api_exists matches key st)
                else if b = ''get'' then Some (api_get key st)
                else if b = ''remove'' then Some (api_remove key st)
                else if b = ''set'' then Some (api_set compile env key st) else None)
             else if a = ''questioncache'' \<and> b = ''client'' then Some (Inr (api_deprecated, st))
             else None
         | _ \<Rightarrow> None)
      else if method = ''OPTIONS'' \<and> segs = [''application'', ''active''] then Some (Inr (AbortWithStatus 200, st))
      else if method = ''POST'' \<and> segs = [''blocklist'', ''update''] then Some (api_update st)
      else None)"

section \<open>The user's list as a file\<close>

text \<open>Names as the API should get them: not empty, and without what a hosts line treats specially.\<close>

definition list_name_ok :: "string \<Rightarrow> bool" where
  "list_name_ok k \<longleftrightarrow> k \<noteq> [] \<and> list_all (\<lambda>c. \<not> is_space c \<and> c \<noteq> CHR ''#'') k \<and> length k < 65536"

lemma TrimSpace_id: "list_all (\<lambda>c. \<not> is_space c) k \<Longrightarrow> TrimSpace k = k"
  by (simp add: TrimSpace_def list_all_iff dropWhile_eq_self_iff)
    (metis last_in_set list.set_sel(1) rev_rev_ident set_rev dropWhile_eq_self_iff)

lemma Fields_single:
  assumes "k \<noteq> []" and "list_all (\<lambda>c. \<not> is_space c) k"
  shows "Fields k = [k]"
proof -
  have 1: "dropWhile is_space k = k" using assms by (cases k) simp_all
  have 2: "takeWhile (\<lambda>c. \<not> is_space c) k = k" "dropWhile (\<lambda>c. \<not> is_space c) k = []"
    using assms(2) by (simp_all add: list_all_iff)
  have 3: "Fields [] = []" by (simp add: Fields.simps)
  show ?thesis unfolding Fields.simps [of k] Let_def 1 2 3 using assms(1) by simp
qed

lemma line_entry_name: "list_name_ok k \<Longrightarrow> line_entry k = Some k"
proof -
  assume k: "list_name_ok k"
  then have sp: "list_all (\<lambda>c. \<not> is_space c) k" and h: "CHR ''#'' \<notin> set k" and ne: "k \<noteq> []"
    by (auto simp: list_name_ok_def list_all_iff)
  show ?thesis
    by (simp add: line_entry_def Split_no_sep [OF h] TrimSpace_id [OF sp] Fields_single [OF ne sp] ne)
qed

text \<open>A file of whole lines: empty, or ending in a newline. Appending a line then adds exactly it.\<close>

definition whole_lines :: "string \<Rightarrow> bool" where
  "whole_lines s \<longleftrightarrow> s = [] \<or> last s = CHR 0x0A"

lemma name_no_newline: "list_name_ok k \<Longrightarrow> CHR 0x0A \<notin> set k \<and> drop_cr k = k"
  by (auto simp: list_name_ok_def list_all_iff is_space_def drop_cr_def)

lemma raw_lines_append_line:
  assumes "whole_lines s" and "CHR 0x0A \<notin> set k"
  shows "raw_lines (s @ k @ [CHR 0x0A]) = raw_lines s @ [k]"
proof (cases "s = []")
  case True
  have "Split (k @ CHR 0x0A # []) CHR 0x0A = [k] @ [[]]"
    unfolding Split_append_sep Split_no_sep [OF assms(2)] by simp
  with True show ?thesis by (simp add: raw_lines_def)
next
  case False
  then obtain t where t: "s = t @ [CHR 0x0A]"
    using assms(1) unfolding whole_lines_def by (metis append_butlast_last_id)
  have "Split (t @ CHR 0x0A # []) CHR 0x0A = Split t CHR 0x0A @ [[]]"
    unfolding Split_append_sep by simp
  moreover have "Split (t @ CHR 0x0A # k @ CHR 0x0A # []) CHR 0x0A = Split t CHR 0x0A @ [k] @ [[]]"
    unfolding Split_append_sep Split_no_sep [OF assms(2)] by simp
  ultimately show ?thesis using t by (simp add: raw_lines_def butlast_append)
qed

lemma scan_lines_append_line:
  assumes "whole_lines s" and "list_name_ok k" and "scan_lines s = (ls, False)"
  shows "scan_lines (s @ k @ [CHR 0x0A]) = (ls @ [k], False)"
proof -
  have len: "length (raw_lines s) \<le> length (takeWhile (\<lambda>l. length l < 65536) (raw_lines s))"
    and ls: "ls = map drop_cr (takeWhile (\<lambda>l. length l < 65536) (raw_lines s))"
    using assms(3) by (auto simp: scan_lines_def Let_def)
  have all: "takeWhile (\<lambda>l. length l < 65536) (raw_lines s) = raw_lines s"
    using len by (metis take_all takeWhile_eq_take)
  then have "\<forall>l\<in>set (raw_lines s). length l < 65536" by (metis takeWhile_eq_all_conv)
  then show ?thesis
    using assms(2) name_no_newline [OF assms(2)] ls
    by (simp add: scan_lines_def Let_def raw_lines_append_line [OF assms(1)] list_name_ok_def
        takeWhile_append2 all)
qed

section \<open>Properties\<close>

lemma map_filter_member: "y \<in> set (List.map_filter f xs) \<longleftrightarrow> (\<exists>x\<in>set xs. f x = Some y)"
  by (force simp: List.map_filter_def)

text \<open>The requested name is found missing exactly if it is, and if the request spells it in lower case.\<close>

lemma Get_not_found_iff:
  "plain_key k \<Longrightarrow> snd (MemoryBlockCache_Get k c) = Some (main_KeyNotFound k) \<longleftrightarrow>
     snd (MemoryBlockCache_Get k c) \<noteq> None \<and> ToLower k = k"
  by (auto simp: MemoryBlockCache_Get_def plain_key_def Let_def split: option.splits)

lemma rewrite_keeps_blockCache:
  assumes "snd (MemoryBlockCache_Get k (as_blockCache st)) \<noteq> Some (main_KeyNotFound k)"
  shows "\<exists>p. api_set compile env k st =
    Inr (api_success, st\<lparr>as_blockCache := MemoryBlockCache_Remove k (as_blockCache st), as_personal := p\<rparr>)"
proof -
  obtain lines err where
    "personal_scan env (st\<lparr>as_blockCache := MemoryBlockCache_Remove k (as_blockCache st)\<rparr>) = (lines, err)"
    by fastforce
  with assms show ?thesis
    by (cases err; cases st) (auto simp: api_set_def Let_def)
qed

lemma api_set_effect:
  assumes "bc_inv compile (as_blockCache st)" and "plain_key k"
  shows "\<exists>st'. api_set compile env k st = Inr (api_success, st') \<and> bc_inv compile (as_blockCache st') \<and>
    (snd (MemoryBlockCache_Get k (as_blockCache st')) = None \<longleftrightarrow>
       snd (MemoryBlockCache_Get k (as_blockCache st)) \<noteq> None \<and> ToLower k = k) \<and>
    (\<forall>q. stored_key q \<noteq> stored_key k \<longrightarrow>
       MemoryBlockCache_Get q (as_blockCache st') = MemoryBlockCache_Get q (as_blockCache st))"
proof (cases "snd (MemoryBlockCache_Get k (as_blockCache st)) = Some (main_KeyNotFound k)")
  case True
  obtain c where c: "MemoryBlockCache_Set compile k True (as_blockCache st) = Inr c" "bc_inv compile c"
    using bc.put_ok [OF assms(1)] by blast
  with bc.get_put [OF assms c(1)] bc.get_put_other [OF assms(1) _ c(1)] True Get_not_found_iff [OF assms(2)]
  show ?thesis by (auto simp: api_set_def)
next
  case False
  then obtain p where "api_set compile env k st =
      Inr (api_success, st\<lparr>as_blockCache := MemoryBlockCache_Remove k (as_blockCache st), as_personal := p\<rparr>)"
    using rewrite_keeps_blockCache by blast
  moreover have "\<not> (snd (MemoryBlockCache_Get k (as_blockCache st)) \<noteq> None \<and> ToLower k = k)"
    using False Get_not_found_iff [OF assms(2)] by blast
  ultimately show ?thesis using bc.inv_rem [OF assms(1)] by (simp add: bc.get_rem bc.get_rem_other)
qed

text \<open>
  A set request for a plain name always reports success, but is a toggle that knows lower
  case only: afterwards the name is on the block list exactly if it was not before and the
  request spells it in lower case; in any other case it is taken off the list. The entries
  for all other names stay as they are.
\<close>

theorem api_set_toggles:
  assumes "bc_inv compile (as_blockCache st)" and "plain_key k"
  shows "\<exists>st'. api_set compile env k st = Inr (api_success, st') \<and> bc_inv compile (as_blockCache st') \<and>
    (snd (MemoryBlockCache_Get k (as_blockCache st')) = None \<longleftrightarrow>
       snd (MemoryBlockCache_Get k (as_blockCache st)) \<noteq> None \<and> ToLower k = k) \<and>
    (\<forall>q. stored_key q \<noteq> stored_key k \<longrightarrow>
       MemoryBlockCache_Get q (as_blockCache st') = MemoryBlockCache_Get q (as_blockCache st))"
  by (rule api_set_effect [OF assms])

definition ex_api_env :: api_env where
  "ex_api_env = \<lparr>ae_open = True, ae_read = True, ae_write = True, ae_truncate = True\<rparr>"

definition ex_api_state :: "string \<Rightarrow> unit api_state" where
  "ex_api_state p = \<lparr>as_blockCache = \<lparr>Backend = [(''bad.com'', True)], Special = Some []\<rparr>, as_personal = p,
     as_lengActive = True, as_reloads = 0\<rparr>"

lemma ex_api_state_inv: "bc_inv (\<lambda>_. None) (as_blockCache (ex_api_state p))"
  by (simp add: bc_inv_def ex_api_state_def Special_entries_def)

theorem api_set_toggles_witness:
  "\<exists>st'. api_set (\<lambda>_. None) ex_api_env ''Bad.com'' (ex_api_state []) = Inr (api_success, st') \<and>
     snd (MemoryBlockCache_Get ''Bad.com'' (as_blockCache st')) \<noteq> None"
proof -
  have "plain_key ''Bad.com''" "ToLower ''Bad.com'' \<noteq> ''Bad.com''" by code_simp+
  with api_set_toggles [OF ex_api_state_inv, of "''Bad.com''" ex_api_env] show ?thesis by blast
qed

text \<open>
  A new name, in lower case, that a set request adds while the user's list consists of
  whole lines is blocked at once, in any case, and is the last line of that list, so that
  loading the list as a hosts file after a restart blocks the name again, unless that very
  text is on the whitelist.
\<close>

theorem api_set_persists:
  assumes "bc_inv compile (as_blockCache st)" and "plain_key k" and "ToLower k = k" and "list_name_ok k"
    and "snd (MemoryBlockCache_Get k (as_blockCache st)) \<noteq> None"
    and "ae_open env" and "ae_write env"
    and "whole_lines (as_personal st)" and "scan_lines (as_personal st) = (ls, False)"
    and "os_Open fs (filepath_Clean f) = Some (as_personal st @ k @ [CHR 0x0A], True)"
    and "\<not> wl k" and "bc_inv compile c0" and "ToLower q = k"
  shows "\<exists>st' c. api_set compile env k st = Inr (api_success, st') \<and> MemoryBlockCache_Exists matches q (as_blockCache st') \<and>
    as_personal st' = as_personal st @ k @ [CHR 0x0A] \<and> whole_lines (as_personal st') \<and>
    scan_lines (as_personal st') = (ls @ [k], False) \<and>
    parseHostFile compile matches fs wl f c0 = Inr (None, c) \<and> MemoryBlockCache_Exists matches q c"
proof -
  obtain c where c: "MemoryBlockCache_Set compile k True (as_blockCache st) = Inr c"
    using bc.put_ok [OF assms(1)] by blast
  have nf: "snd (MemoryBlockCache_Get k (as_blockCache st)) = Some (main_KeyNotFound k)"
    using assms(3,5) Get_not_found_iff [OF assms(2)] by blast
  have blocked: "MemoryBlockCache_Exists matches q c"
    using bc.put_plain [OF assms(1,2) c] assms(3,13) by simp
  have sc: "scan_lines (as_personal st @ k @ [CHR 0x0A]) = (ls @ [k], False)"
    by (rule scan_lines_append_line [OF assms(8,4,9)])
  have "file_names fs wl f k"
    using assms(2,10,11) sc line_entry_name [OF assms(4)] by (auto simp: file_names_def map_filter_member)
  from parseHostFile_blocks [OF assms(12) this, of q matches] assms(3,13) obtain c' where
    "parseHostFile compile matches fs wl f c0 = Inr (None, c')" "MemoryBlockCache_Exists matches q c'"
    by auto
  moreover have "api_set compile env k st =
      Inr (api_success, st\<lparr>as_blockCache := c, as_personal := as_personal st @ k @ [CHR 0x0A]\<rparr>)"
    using c assms(6,7) nf by (simp add: api_set_def)
  ultimately show ?thesis using blocked sc by (simp add: whole_lines_def)
qed

theorem api_set_persists_witness:
  "\<exists>st' c. api_set (\<lambda>_. None) ex_api_env ''ads.com'' (ex_api_state []) = Inr (api_success, st') \<and>
     as_personal st' = ''ads.com'' @ [CHR 0x0A] \<and> MemoryBlockCache_Exists (\<lambda>_ _. False) ''ADS.com'' (as_blockCache st') \<and>
     parseHostFile (\<lambda>_. None :: unit option) (\<lambda>_ _. False) (ex_upd_env\<lparr>os_Open := (\<lambda>_. Some (''ads.com'' @ [CHR 0x0A], True))\<rparr>)
       (\<lambda>_. False) ''personal.list'' empty_block_cache = Inr (None, c) \<and> MemoryBlockCache_Exists (\<lambda>_ _. False) ''ADS.com'' c"
proof -
  have k: "plain_key ''ads.com''" "ToLower ''ads.com'' = ''ads.com''" "ToLower ''ADS.com'' = ''ads.com''"
    by code_simp+
  have ok: "list_name_ok ''ads.com''" by (simp add: list_name_ok_def is_space_def)
  have nf: "snd (MemoryBlockCache_Get ''ads.com'' (as_blockCache (ex_api_state []))) \<noteq> None"
    unfolding ex_api_state_def by code_simp
  have sc: "scan_lines (as_personal (ex_api_state [])) = ([], False)"
    by (simp add: ex_api_state_def scan_lines_def raw_lines_def)
  show ?thesis
    using api_set_persists [OF ex_api_state_inv k(1,2) ok nf _ _ _ sc _ _ bc_inv_empty k(3),
        of ex_api_env "ex_upd_env\<lparr>os_Open := (\<lambda>_. Some (''ads.com'' @ [CHR 0x0A], True))\<rparr>" "''personal.list''" "\<lambda>_. False"
          "\<lambda>_ _. False"]
    by (auto simp: ex_api_env_def whole_lines_def ex_api_state_def)
qed

lemma Split_parts: "p \<in> set (Split s c) \<Longrightarrow> c \<notin> set p"
proof (induction s arbitrary: p)
  case (Cons d s)
  obtain q qs where "Split s c = q # qs" by (cases "Split s c") simp_all
  with Cons show ?case by (auto split: if_splits)
qed simp

lemma drop_cr_raw_line: "l \<in> set (raw_lines s) \<Longrightarrow> CHR 0x0A \<notin> set (drop_cr l)"
  using Split_parts [of l s "CHR 0x0A"]
  by (auto simp: raw_lines_def drop_cr_def Let_def split: if_splits dest: in_set_butlastD)

lemma Split_rewritten:
  assumes "\<forall>l\<in>set ls. CHR 0x0A \<notin> set l"
  shows "Split (concat (map ((#) CHR 0x0A) ls)) CHR 0x0A = [] # ls"
  using assms
proof (induction ls)
  case (Cons l ls)
  have "Split (l @ concat (map ((#) CHR 0x0A) ls)) CHR 0x0A = l # ls" if "CHR 0x0A \<notin> set l"
  proof (cases ls)
    case Nil
    with that show ?thesis by (simp add: Split_no_sep)
  next
    case (Cons m ms)
    with Cons.IH Cons.prems have "Split (m @ concat (map ((#) CHR 0x0A) ms)) CHR 0x0A = m # ms" by simp
    with Cons that show ?thesis by (simp add: Split_append_sep Split_no_sep)
  qed
  with Cons.prems show ?case by simp
qed simp

text \<open>
  C40. Taking a name off the user's list rewrites the list without a newline at its end. If
  any line is left, the next name that is added is glued to the last line, so the list names
  neither of the two any more.
\<close>

theorem api_add_after_remove_glues_lines:
  assumes "api_set compile env k st = Inr (resp, st1)" and "api_set compile env k' st1 = Inr (resp', st2)"
    and "ae_open env" and "ae_read env" and "ae_write env" and "ae_truncate env"
    and "snd (MemoryBlockCache_Get k (as_blockCache st)) = None"
    and "snd (MemoryBlockCache_Get k' (as_blockCache st1)) = Some (main_KeyNotFound k')"
    and "scan_lines (as_personal st) = (ls, False)" and "filter (\<lambda>l. l \<noteq> k) ls = init @ [l]" and "list_name_ok k'"
  shows "raw_lines (as_personal st2) = [] # init @ [l @ k']"
proof -
  have p1: "as_personal st1 = rewritten k ls"
    using assms(1,3-7,9) by (auto simp: api_set_def personal_scan_def Let_def)
  have p2: "as_personal st2 = rewritten k ls @ k' @ [CHR 0x0A]"
    using assms(2,3,5,8) p1 by (auto simp: api_set_def go_bind_Inr_iff)
  have nl: "CHR 0x0A \<notin> set k'" using name_no_newline [OF assms(11)] by blast
  have "CHR 0x0A \<notin> set x" if "x \<in> set ls" for x
    using that assms(9) by (auto simp: scan_lines_def Let_def dest!: set_takeWhileD dest: drop_cr_raw_line)
  moreover have "set (init @ [l]) \<subseteq> set ls" unfolding assms(10) [symmetric] by auto
  ultimately have ls: "\<forall>x\<in>set (init @ [l]). CHR 0x0A \<notin> set x" by blast
  have "rewritten k ls @ k' @ [CHR 0x0A] = concat (map ((#) CHR 0x0A) (init @ [l @ k'])) @ CHR 0x0A # []"
    using assms(10) by (simp add: rewritten_def)
  moreover have "Split (concat (map ((#) CHR 0x0A) (init @ [l @ k']))) CHR 0x0A = [] # init @ [l @ k']"
    by (rule Split_rewritten) (use ls nl in auto)
  ultimately have "Split (as_personal st2) CHR 0x0A = ([] # init @ [l @ k']) @ [[]]"
    unfolding p2 by (simp only: Split_append_sep) simp
  then show ?thesis by (simp add: raw_lines_def butlast_append)
qed

theorem api_add_after_remove_glues_lines_witness:
  "\<exists>st1 st2. api_set (\<lambda>_. None) ex_api_env ''bad.com'' (ex_api_state (''bad.com'' @ [CHR 0x0A] @ ''a.com'' @ [CHR 0x0A])) =
      Inr (api_success, st1) \<and> api_set (\<lambda>_. None) ex_api_env ''b.com'' st1 = Inr (api_success, st2) \<and>
    raw_lines (as_personal st2) = [[], ''a.comb.com'']"
proof -
  let ?p = "''bad.com'' @ [CHR 0x0A] @ ''a.com'' @ [CHR 0x0A]"
  have k: "plain_key ''bad.com''" "plain_key ''b.com''" "ToLower ''b.com'' = ''b.com''" "stored_key ''b.com'' \<noteq> stored_key ''bad.com''"
    by code_simp+
  have g: "snd (MemoryBlockCache_Get ''bad.com'' (as_blockCache (ex_api_state p))) = None" for p
    by (simp add: ex_api_state_def MemoryBlockCache_Get_def HasPrefix_def ContainsAny_def ToLower_def to_lower_char_def)
  have n: "snd (MemoryBlockCache_Get ''b.com'' (as_blockCache (ex_api_state p))) = Some (main_KeyNotFound ''b.com'')" for p
    by (simp add: ex_api_state_def MemoryBlockCache_Get_def HasPrefix_def ContainsAny_def ToLower_def to_lower_char_def)
  have sc: "scan_lines (as_personal (ex_api_state ?p)) = ([''bad.com'', ''a.com''], False)"
    by (simp add: ex_api_state_def scan_lines_def raw_lines_def drop_cr_def)
  from api_set_effect [OF ex_api_state_inv k(1), of ex_api_env ?p] k(4) n obtain st1 where
    st1: "api_set (\<lambda>_. None) ex_api_env ''bad.com'' (ex_api_state ?p) = Inr (api_success, st1)"
      "bc_inv (\<lambda>_. None) (as_blockCache st1)" "snd (MemoryBlockCache_Get ''b.com'' (as_blockCache st1)) = Some (main_KeyNotFound ''b.com'')"
    by metis
  from api_set_effect [OF st1(2) k(2), of ex_api_env] obtain st2 where
    st2: "api_set (\<lambda>_. None) ex_api_env ''b.com'' st1 = Inr (api_success, st2)" by blast
  have ok: "list_name_ok ''b.com''" by (simp add: list_name_ok_def is_space_def)
  have "filter (\<lambda>l. l \<noteq> ''bad.com'') [''bad.com'', ''a.com''] = [] @ [''a.com'']" by simp
  from api_add_after_remove_glues_lines [OF st1(1) st2 _ _ _ _ g st1(3) sc this ok] st1(1) st2 show ?thesis
    by (simp add: ex_api_env_def)
qed

end
