(* ===== verification/Logger.thy ===== *)
theory Logger
  imports Net_IP
begin

text \<open>
  The set-up of logging (src/logger.go): the parsing of the log configuration, the opening
  of log files, and their rotation on SIGHUP. A file is its descriptor. \<open>log_env\<close> holds what
  the file system and the syslog service answer; \<open>log_state\<close> is the state of the process:
  the descriptors that are open, the backends the logging package writes to, and how many
  errors the logger itself has reported. The handle that \<open>os.Create\<close> returns and the code
  drops, the formats and the colours are left out.
\<close>

section \<open>Configuration\<close>

datatype log_level = CRITICAL | ERROR | WARNING | NOTICE | INFO | DEBUG

record fileConfig =
  fc_name :: string
  fc_level :: log_level

record boolConfig =
  bc_enabled :: bool
  bc_level :: log_level

record logConfig =
  lc_files :: "fileConfig list"
  lc_syslog :: boolConfig
  lc_stderr :: boolConfig

datatype log_error = NotAnInteger string | NotAValidLevel string | UnknownFragment string
  | CannotCreate string | CannotOpenLog string | CloseError

text \<open>\<open>strconv.Atoi\<close>: an optional sign and at least one decimal digit, in the range of 64 bits.\<close>

definition decimal :: "string \<Rightarrow> int option" where
  "decimal s = (if s = [] then None else map_option int (number dec_value 10 0 s))"

definition Atoi :: "string \<Rightarrow> int option" where
  "Atoi s =
     (let (neg, ds) = (case s of c # r \<Rightarrow> if c = CHR ''-'' then (True, r) else if c = CHR ''+'' then (False, r)
                         else (False, s) | [] \<Rightarrow> (False, []))
      in case decimal ds of
        None \<Rightarrow> None
      | Some n \<Rightarrow> let n = (if neg then - n else n) in
          if - (2 ^ 63) \<le> n \<and> n < 2 ^ 63 then Some n else None)"

definition parseLogLevel :: "string \<Rightarrow> log_error + log_level" where
  "parseLogLevel level =
     (case Atoi level of
        None \<Rightarrow> Inl (NotAnInteger level)
      | Some l \<Rightarrow>
          if l < 0 \<or> l > 2 then Inl (NotAValidLevel level)
          else Inr (if l = 0 then WARNING else if l = 1 then INFO else DEBUG))"

text \<open>The class of \<open>\S\<close> excludes the white space of Go's regular expressions.\<close>

definition re_space :: "char \<Rightarrow> bool" where
  "re_space c \<longleftrightarrow> c \<in> {CHR 0x09, CHR 0x0A, CHR 0x0C, CHR 0x0D, CHR '' ''}"

text \<open>
  The two expressions at one position. \<open>[^@]+\<close> has to reach the next at sign and \<open>\S+\<close> is
  greedy, so there is at most one match at each position.
\<close>

definition level_at :: "string \<Rightarrow> string option" where
  "level_at s = (let l = takeWhile (\<lambda>c. \<not> re_space c) s in if l = [] then None else Some l)"

definition fileRe_at :: "string \<Rightarrow> (string \<times> string) option" where
  "fileRe_at s =
     (if \<not> prefix ''file:'' s then None
      else
        let r = drop 5 s; name = takeWhile (\<lambda>c. c \<noteq> CHR ''@'') r in
        case drop (length name) r of
          [] \<Rightarrow> None
        | _ # rest \<Rightarrow> if name = [] then None else map_option (Pair name) (level_at rest))"

definition boolRe_at :: "string \<Rightarrow> (string \<times> string) option" where
  "boolRe_at s =
     (if prefix ''syslog@'' s then map_option (Pair ''syslog'') (level_at (drop 7 s))
      else if prefix ''stderr@'' s then map_option (Pair ''stderr'') (level_at (drop 7 s))
      else None)"

text \<open>\<open>FindStringSubmatch\<close> finds the leftmost match.\<close>

fun leftmost :: "(string \<Rightarrow> 'a option) \<Rightarrow> string \<Rightarrow> 'a option" where
  "leftmost f [] = f []"
| "leftmost f (c # s) = (case f (c # s) of Some x \<Rightarrow> Some x | None \<Rightarrow> leftmost f s)"

definition no_log :: logConfig where
  "no_log = \<lparr>lc_files = [], lc_syslog = \<lparr>bc_enabled = False, bc_level = CRITICAL\<rparr>,
     lc_stderr = \<lparr>bc_enabled = False, bc_level = CRITICAL\<rparr>\<rparr>"

definition parse_part :: "string \<Rightarrow> logConfig \<Rightarrow> log_error + logConfig" where
  "parse_part part result =
     (case leftmost fileRe_at part of
        Some (name, level) \<Rightarrow>
          (case parseLogLevel level of
             Inl e \<Rightarrow> Inl e
           | Inr l \<Rightarrow> Inr (result\<lparr>lc_files := lc_files result @ [\<lparr>fc_name = name, fc_level = l\<rparr>]\<rparr>))
      | None \<Rightarrow>
          (case leftmost boolRe_at part of
             Some (which, level) \<Rightarrow>
               (case parseLogLevel level of
                  Inl e \<Rightarrow> Inl e
                | Inr l \<Rightarrow>
                    if which = ''syslog'' then Inr (result\<lparr>lc_syslog := \<lparr>bc_enabled = True, bc_level = l\<rparr>\<rparr>)
                    else Inr (result\<lparr>lc_stderr := \<lparr>bc_enabled = True, bc_level = l\<rparr>\<rparr>))
           | None \<Rightarrow> Inl (UnknownFragment part)))"

fun parse_parts :: "string list \<Rightarrow> logConfig \<Rightarrow> log_error + logConfig" where
  "parse_parts [] result = Inr result"
| "parse_parts (p # ps) result =
     (case parse_part p result of Inl e \<Rightarrow> Inl e | Inr result \<Rightarrow> parse_parts ps result)"

definition parseLogConfig :: "string \<Rightarrow> log_error + logConfig" where
  "parseLogConfig s = parse_parts (Split s CHR '','') no_log"

section \<open>Files and backends\<close>

datatype log_backend = FileBackend nat log_level | StderrBackend log_level | SyslogBackend log_level

record log_env =
  lo_exists :: "string \<Rightarrow> bool"
  lo_create :: "string \<Rightarrow> bool"
  lo_open :: "string \<Rightarrow> bool"
  lo_syslog :: bool

record log_state =
  lg_open :: "nat list"
  lg_next :: nat
  lg_backends :: "log_backend list"
  lg_errors :: nat

definition createLogFile :: "log_env \<Rightarrow> string \<Rightarrow> log_state \<Rightarrow> (log_error + nat) \<times> log_state" where
  "createLogFile env fileName g =
     (let fileName = filepath_Clean fileName in
      if \<not> lo_exists env fileName \<and> \<not> lo_create env fileName then (Inl (CannotCreate fileName), g)
      else if \<not> lo_open env fileName then (Inl (CannotOpenLog fileName), g)
      else (Inr (lg_next g), g\<lparr>lg_open := lg_open g @ [lg_next g], lg_next := Suc (lg_next g)\<rparr>))"

definition createFileLogger ::
  "log_env \<Rightarrow> fileConfig \<Rightarrow> log_state \<Rightarrow> (log_error + log_backend \<times> nat) \<times> log_state" where
  "createFileLogger env cfg g =
     (case createLogFile env (fc_name cfg) g of
        (Inl e, g) \<Rightarrow> (Inl e, g)
      | (Inr file, g) \<Rightarrow> (Inr (FileBackend file (fc_level cfg), file), g))"

text \<open>Closing a descriptor twice is an error.\<close>

definition file_Close :: "nat \<Rightarrow> log_state \<Rightarrow> bool \<times> log_state" where
  "file_Close f g = (f \<in> set (lg_open g), g\<lparr>lg_open := removeAll f (lg_open g)\<rparr>)"

fun close_opened :: "nat list \<Rightarrow> log_error \<Rightarrow> log_state \<Rightarrow> log_error \<times> log_state" where
  "close_opened [] err g = (err, g)"
| "close_opened (f # fs) err g =
     (case file_Close f g of (ok, g) \<Rightarrow> if ok then close_opened fs err g else (CloseError, g))"

fun file_loggers ::
  "log_env \<Rightarrow> fileConfig list \<Rightarrow> log_backend list \<Rightarrow> nat list \<Rightarrow> log_state
    \<Rightarrow> (log_error + log_backend list \<times> nat list) \<times> log_state" where
  "file_loggers env [] backends openFiles g = (Inr (backends, openFiles), g)"
| "file_loggers env (f # fs) backends openFiles g =
     (case createFileLogger env f g of
        (Inl err, g) \<Rightarrow> (case close_opened openFiles err g of (err, g) \<Rightarrow> (Inl err, g))
      | (Inr (b, file), g) \<Rightarrow> file_loggers env fs (backends @ [b]) (openFiles @ [file]) g)"

definition createFileLoggers ::
  "log_env \<Rightarrow> fileConfig list \<Rightarrow> log_state \<Rightarrow> (log_error + log_backend list \<times> nat list) \<times> log_state" where
  "createFileLoggers env files g = file_loggers env files [] [] g"

record loggingState =
  ls_fileBackends :: "log_backend list"
  ls_stdBackends :: "log_backend list"
  ls_files :: "nat list"
  ls_config :: logConfig

definition zero_loggingState :: loggingState where
  "zero_loggingState = \<lparr>ls_fileBackends = [], ls_stdBackends = [], ls_files = [], ls_config = no_log\<rparr>"

text \<open>A configuration that does not parse, and a syslog service that does not answer, panic.\<close>

definition loggerInit ::
  "log_env \<Rightarrow> string \<Rightarrow> log_state \<Rightarrow> go_panic + (log_error + loggingState) \<times> log_state" where
  "loggerInit env cfg g =
     (case parseLogConfig cfg of
        Inl err \<Rightarrow> Inl (ExplicitPanic ''parseLogConfig'')
      | Inr config \<Rightarrow>
          (case createFileLoggers env (lc_files config) g of
             (Inl err, g) \<Rightarrow> Inr (Inl err, g)
           | (Inr (backends, openFiles), g) \<Rightarrow>
               if bc_enabled (lc_syslog config) \<and> \<not> lo_syslog env then Inl (ExplicitPanic ''syslog'')
               else
                 let std = (if bc_enabled (lc_stderr config) then [StderrBackend (bc_level (lc_stderr config))] else []) @
                           (if bc_enabled (lc_syslog config) then [SyslogBackend (bc_level (lc_syslog config))] else [])
                 in Inr (Inr \<lparr>ls_fileBackends = backends, ls_stdBackends = std, ls_files = openFiles, ls_config = config\<rparr>,
                         g\<lparr>lg_backends := std @ backends\<rparr>)))"

fun close_all :: "nat list \<Rightarrow> log_state \<Rightarrow> log_state" where
  "close_all [] g = g"
| "close_all (f # fs) g =
     (case file_Close f g of (ok, g) \<Rightarrow> close_all fs (if ok then g else g\<lparr>lg_errors := Suc (lg_errors g)\<rparr>))"

definition cleanUp :: "loggingState \<Rightarrow> log_state \<Rightarrow> log_state" where
  "cleanUp s g = close_all (ls_files s) g"

text \<open>The receiver is a copy: what it assigns to its fields is lost when it returns.\<close>

definition reopen :: "log_env \<Rightarrow> loggingState \<Rightarrow> log_state \<Rightarrow> log_error option \<times> log_state" where
  "reopen env s g =
     (case createFileLoggers env (lc_files (ls_config s)) g of
        (Inl err, g) \<Rightarrow> (Some err, g\<lparr>lg_errors := Suc (lg_errors g)\<rparr>)
      | (Inr (b, f), g) \<Rightarrow> (None, (cleanUp s g)\<lparr>lg_backends := ls_stdBackends s @ b\<rparr>))"

section \<open>Rotation\<close>

text \<open>
  The descriptors that are open are distinct and were given out before. Opening the files of
  a configuration adds as many fresh descriptors as it has files, or, on an error, none.
\<close>

definition log_inv :: "log_state \<Rightarrow> bool" where
  "log_inv g \<longleftrightarrow> distinct (lg_open g) \<and> (\<forall>f\<in>set (lg_open g). f < lg_next g)"

definition can_log :: "log_env \<Rightarrow> string \<Rightarrow> bool" where
  "can_log env name \<longleftrightarrow> (lo_exists env (filepath_Clean name) \<or> lo_create env (filepath_Clean name)) \<and>
     lo_open env (filepath_Clean name)"

fun backends_from :: "nat \<Rightarrow> fileConfig list \<Rightarrow> log_backend list" where
  "backends_from n [] = []"
| "backends_from n (f # fs) = FileBackend n (fc_level f) # backends_from (Suc n) fs"

lemma createFileLogger_eq:
  "can_log env (fc_name f) \<Longrightarrow> createFileLogger env f g =
     (Inr (FileBackend (lg_next g) (fc_level f), lg_next g),
      g\<lparr>lg_open := lg_open g @ [lg_next g], lg_next := Suc (lg_next g)\<rparr>)"
  by (auto simp: createFileLogger_def createLogFile_def can_log_def Let_def)

lemma createFileLogger_fails:
  "\<not> can_log env (fc_name f) \<Longrightarrow> \<exists>e. createFileLogger env f g = (Inl e, g)"
  by (auto simp: createFileLogger_def createLogFile_def can_log_def Let_def)

lemma file_loggers_ok:
  assumes "list_all (\<lambda>f. can_log env (fc_name f)) fs"
  shows "file_loggers env fs bs os g =
    (Inr (bs @ backends_from (lg_next g) fs, os @ [lg_next g ..< lg_next g + length fs]),
     g\<lparr>lg_open := lg_open g @ [lg_next g ..< lg_next g + length fs], lg_next := lg_next g + length fs\<rparr>)"
  using assms
proof (induction fs arbitrary: bs os g)
  case (Cons f fs)
  have "[lg_next g ..< lg_next g + length (f # fs)] = lg_next g # [Suc (lg_next g) ..< Suc (lg_next g) + length fs]"
    by (simp add: upt_conv_Cons del: upt_Suc)
  with Cons show ?case by (simp add: createFileLogger_eq del: upt_Suc)
qed simp

lemma close_opened_ok:
  "distinct os \<Longrightarrow> set os \<subseteq> set (lg_open g) \<Longrightarrow>
     close_opened os err g = (err, g\<lparr>lg_open := filter (\<lambda>f. f \<notin> set os) (lg_open g)\<rparr>)"
proof (induction os arbitrary: g)
  case (Cons f os)
  then have "set os \<subseteq> set (lg_open (g\<lparr>lg_open := removeAll f (lg_open g)\<rparr>))" by auto
  with Cons show ?case
    by (auto simp: file_Close_def removeAll_filter_not_eq intro!: arg_cong [where f = "\<lambda>l. g\<lparr>lg_open := l\<rparr>"] filter_cong)
qed simp

text \<open>When one of the files cannot be opened, those already opened are closed again.\<close>

lemma file_loggers_fails:
  assumes "\<not> list_all (\<lambda>f. can_log env (fc_name f)) fs" and "log_inv g" and "lg_open g = old @ os"
  shows "\<exists>e n. file_loggers env fs bs os g = (Inl e, g\<lparr>lg_open := old, lg_next := n\<rparr>)"
  using assms
proof (induction fs arbitrary: bs os g)
  case (Cons f fs)
  show ?case
  proof (cases "can_log env (fc_name f)")
    case True
    let ?g = "g\<lparr>lg_open := lg_open g @ [lg_next g], lg_next := Suc (lg_next g)\<rparr>"
    have "log_inv ?g" using Cons.prems(2) by (auto simp: log_inv_def less_Suc_eq)
    moreover have "lg_open ?g = old @ (os @ [lg_next g])" using Cons.prems(3) by simp
    ultimately show ?thesis
      using Cons.IH [of ?g "os @ [lg_next g]" "bs @ [FileBackend (lg_next g) (fc_level f)]"] Cons.prems(1) True
      by (auto simp: createFileLogger_eq)
  next
    case False
    obtain e where e: "createFileLogger env f g = (Inl e, g)" using createFileLogger_fails [OF False] by blast
    have d: "distinct os" "set os \<subseteq> set (lg_open g)" "set old \<inter> set os = {}"
      using Cons.prems(2,3) by (auto simp: log_inv_def)
    have "filter (\<lambda>f. f \<notin> set os) (lg_open g) = old"
      using Cons.prems(3) d(3) by (auto simp: filter_id_conv filter_empty_conv)
    with e close_opened_ok [OF d(1,2), of e] show ?thesis
      by (intro exI [of _ e] exI [of _ "lg_next g"]) (cases g; simp)
  qed
qed simp

lemma close_all_open: "lg_open (close_all fs g) = filter (\<lambda>f. f \<notin> set fs) (lg_open g)"
  by (induction fs arbitrary: g) (auto simp: file_Close_def removeAll_filter_not_eq intro!: filter_cong)

lemma close_all_next [simp]: "lg_next (close_all fs g) = lg_next g"
  by (induction fs arbitrary: g) (auto simp: file_Close_def)

text \<open>What \<open>main\<close> does at each SIGHUP, always with the state that \<open>loggerInit\<close> returned.\<close>

primrec rotations :: "log_env \<Rightarrow> loggingState \<Rightarrow> nat \<Rightarrow> log_state \<Rightarrow> log_state" where
  "rotations env s 0 g = g"
| "rotations env s (Suc n) g = snd (reopen env s (rotations env s n g))"

lemma loggerInit_ok:
  assumes "loggerInit env cfg g0 = Inr (Inr s, g)" and "log_inv g0"
  shows "list_all (\<lambda>f. can_log env (fc_name f)) (lc_files (ls_config s)) \<and>
    ls_files s = [lg_next g0 ..< lg_next g] \<and> lg_next g = lg_next g0 + length (lc_files (ls_config s)) \<and>
    lg_open g = lg_open g0 @ ls_files s \<and> (\<forall>f l. FileBackend f l \<notin> set (ls_stdBackends s))"
proof -
  from assms(1) obtain config where c: "parseLogConfig cfg = Inr config"
    by (auto simp: loggerInit_def split: sum.splits)
  have all: "list_all (\<lambda>f. can_log env (fc_name f)) (lc_files config)"
  proof (rule ccontr)
    assume "\<not> ?thesis"
    from file_loggers_fails [OF this assms(2), of "lg_open g0" "[]" "[]"] obtain e g' where
      "createFileLoggers env (lc_files config) g0 = (Inl e, g')" by (auto simp: createFileLoggers_def)
    with c assms(1) show False by (simp add: loggerInit_def)
  qed
  with c assms(1) show ?thesis
    by (auto simp: loggerInit_def createFileLoggers_def file_loggers_ok Let_def split: if_splits)
qed

lemma reopen_ok:
  assumes "list_all (\<lambda>f. can_log env (fc_name f)) (lc_files (ls_config s))"
  shows "\<exists>g'. reopen env s g = (None, g') \<and> lg_next g' = lg_next g + length (lc_files (ls_config s)) \<and>
    lg_open g' = filter (\<lambda>f. f \<notin> set (ls_files s)) (lg_open g @ [lg_next g ..< lg_next g + length (lc_files (ls_config s))]) \<and>
    lg_backends g' = ls_stdBackends s @ backends_from (lg_next g) (lc_files (ls_config s))"
  using assms by (simp add: reopen_def createFileLoggers_def file_loggers_ok cleanUp_def close_all_open)

lemma rotations_open:
  assumes "loggerInit env cfg g0 = Inr (Inr s, g)" and "log_inv g0"
  shows "lg_open (rotations env s (Suc n) g) =
      lg_open g0 @ [lg_next g ..< lg_next g + Suc n * length (lc_files (ls_config s))] \<and>
    lg_next (rotations env s (Suc n) g) = lg_next g + Suc n * length (lc_files (ls_config s))"
proof -
  let ?k = "length (lc_files (ls_config s))"
  note I = loggerInit_ok [OF assms]
  have old: "filter (\<lambda>f. f \<notin> set (ls_files s)) (lg_open g0) = lg_open g0"
    using I assms(2) by (auto simp: log_inv_def filter_id_conv)
  have new: "filter (\<lambda>f. f \<notin> set (ls_files s)) [lg_next g ..< m] = [lg_next g ..< m]" for m
    using I by (auto simp: filter_id_conv)
  show ?thesis
  proof (induction n)
    case 0
    obtain g' where "reopen env s g = (None, g')" "lg_next g' = lg_next g + ?k"
      "lg_open g' = filter (\<lambda>f. f \<notin> set (ls_files s)) (lg_open g @ [lg_next g ..< lg_next g + ?k])"
      using reopen_ok I by blast
    moreover have "filter (\<lambda>f. f \<notin> set (ls_files s)) (ls_files s) = []" by (simp add: filter_empty_conv)
    ultimately show ?case using I old new by simp
  next
    case (Suc n)
    let ?g = "rotations env s (Suc n) g"
    obtain g' where g': "reopen env s ?g = (None, g')" "lg_next g' = lg_next ?g + ?k"
      "lg_open g' = filter (\<lambda>f. f \<notin> set (ls_files s)) (lg_open ?g @ [lg_next ?g ..< lg_next ?g + ?k])"
      using reopen_ok I by blast
    have nx: "lg_next ?g = lg_next g + Suc n * ?k" and op: "lg_open ?g = lg_open g0 @ [lg_next g ..< lg_next ?g]"
      using Suc by simp_all
    have "[lg_next g ..< lg_next ?g + ?k] = [lg_next g ..< lg_next ?g] @ [lg_next ?g ..< lg_next ?g + ?k]"
      by (rule upt_add_eq_append) (simp only: nx le_add1)
    then have "lg_open ?g @ [lg_next ?g ..< lg_next ?g + ?k] = lg_open g0 @ [lg_next g ..< lg_next ?g + ?k]"
      unfolding op by simp
    with g'(3) old new [of "lg_next ?g + ?k"] have "lg_open g' = lg_open g0 @ [lg_next g ..< lg_next ?g + ?k]"
      by (simp only: filter_append)
    moreover have "lg_next ?g + ?k = lg_next g + Suc (Suc n) * ?k" using nx by simp
    ultimately show ?case using g'(1,2) by (simp only: rotations.simps(2) [of env s "Suc n"] snd_conv)
  qed
qed

section \<open>Properties\<close>

text \<open>
  After any positive number of log rotations, the loggers write to the files opened by
  the last one, all of which are open. But the files that earlier rotations opened are not
  closed, only those of the start are: with \<open>k\<close> log files, \<open>n\<close> rotations leave \<open>n * k\<close> of
  their descriptors open.
\<close>

theorem log_rotation:
  assumes "loggerInit env cfg g0 = Inr (Inr s, g)" and "log_inv g0"
  shows "(\<forall>f l. FileBackend f l \<in> set (lg_backends (rotations env s (Suc n) g)) \<longrightarrow> f \<in> set (lg_open (rotations env s (Suc n) g))) \<and>
    length (lg_open (rotations env s (Suc n) g)) = length (lg_open g0) + Suc n * length (lc_files (ls_config s))"
proof -
  note R = rotations_open [OF assms]
  let ?g = "rotations env s n g" and ?k = "length (lc_files (ls_config s))"
  have "FileBackend f l \<in> set (backends_from m fs) \<Longrightarrow> m \<le> f \<and> f < m + length fs" for f l m and fs :: "fileConfig list"
    by (induction fs arbitrary: m) fastforce+
  moreover obtain g' where "reopen env s ?g = (None, g')"
    "lg_backends g' = ls_stdBackends s @ backends_from (lg_next ?g) (lc_files (ls_config s))"
    using reopen_ok loggerInit_ok [OF assms] by blast
  moreover have "lg_next ?g = lg_next g + n * ?k"
    using R [of "n - 1"] by (cases n) simp_all
  moreover have "\<forall>f l. FileBackend f l \<notin> set (ls_stdBackends s)" using loggerInit_ok [OF assms] by blast
  ultimately show ?thesis using R [of n] by fastforce
qed

definition ex_log_env :: log_env where
  "ex_log_env = \<lparr>lo_exists = (\<lambda>_. False), lo_create = (\<lambda>_. True), lo_open = (\<lambda>_. True), lo_syslog = True\<rparr>"

definition ex_log_state :: log_state where
  "ex_log_state = \<lparr>lg_open = [], lg_next = 0, lg_backends = [], lg_errors = 0\<rparr>"

theorem log_rotation_witness:
  "\<exists>s g. loggerInit ex_log_env ''file:a@1,file:b@2,stderr@0'' ex_log_state = Inr (Inr s, g) \<and>
     length (lg_open (rotations ex_log_env s 3 g)) = 6"
proof -
  have p: "parseLogConfig ''file:a@1,file:b@2,stderr@0'' = Inr \<lparr>lc_files = [\<lparr>fc_name = ''a'', fc_level = INFO\<rparr>,
      \<lparr>fc_name = ''b'', fc_level = DEBUG\<rparr>], lc_syslog = \<lparr>bc_enabled = False, bc_level = CRITICAL\<rparr>,
      lc_stderr = \<lparr>bc_enabled = True, bc_level = WARNING\<rparr>\<rparr>"
    by code_simp
  have "\<exists>s g. loggerInit ex_log_env ''file:a@1,file:b@2,stderr@0'' ex_log_state = Inr (Inr s, g) \<and> length (lc_files (ls_config s)) = 2"
    by (simp add: loggerInit_def p createFileLoggers_def createFileLogger_def createLogFile_def ex_log_env_def ex_log_state_def)
  then obtain s g where i: "loggerInit ex_log_env ''file:a@1,file:b@2,stderr@0'' ex_log_state = Inr (Inr s, g)"
    "length (lc_files (ls_config s)) = 2" by blast
  have "log_inv ex_log_state" by (simp add: log_inv_def ex_log_state_def)
  from log_rotation [OF i(1) this, of 2] i show ?thesis
    by (auto simp: ex_log_state_def numeral_3_eq_3 numeral_2_eq_2 simp del: rotations.simps)
qed

text \<open>The fragments of a log configuration, their text and their effect.\<close>

datatype log_part = FilePart string nat | SyslogPart nat | StderrPart nat

fun part_text :: "log_part \<Rightarrow> string" where
  "part_text (FilePart name l) = ''file:'' @ name @ ''@'' @ Itoa l"
| "part_text (SyslogPart l) = ''syslog@'' @ Itoa l"
| "part_text (StderrPart l) = ''stderr@'' @ Itoa l"

definition level_of :: "nat \<Rightarrow> log_level" where
  "level_of l = (if l = 0 then WARNING else if l = 1 then INFO else DEBUG)"

fun apply_part :: "log_part \<Rightarrow> logConfig \<Rightarrow> logConfig" where
  "apply_part (FilePart name l) c = c\<lparr>lc_files := lc_files c @ [\<lparr>fc_name = name, fc_level = level_of l\<rparr>]\<rparr>"
| "apply_part (SyslogPart l) c = c\<lparr>lc_syslog := \<lparr>bc_enabled = True, bc_level = level_of l\<rparr>\<rparr>"
| "apply_part (StderrPart l) c = c\<lparr>lc_stderr := \<lparr>bc_enabled = True, bc_level = level_of l\<rparr>\<rparr>"

fun part_ok :: "log_part \<Rightarrow> bool" where
  "part_ok (FilePart name l) \<longleftrightarrow> name \<noteq> [] \<and> CHR ''@'' \<notin> set name \<and> CHR '','' \<notin> set name \<and> l \<le> 2"
| "part_ok (SyslogPart l) \<longleftrightarrow> l \<le> 2"
| "part_ok (StderrPart l) \<longleftrightarrow> l \<le> 2"

lemma small_level: "l \<le> 2 \<Longrightarrow> l = 0 \<or> l = 1 \<or> l = (2 :: nat)"
  by auto

lemma parseLogLevel_Itoa: "l \<le> 2 \<Longrightarrow> parseLogLevel (Itoa l) = Inr (level_of l)"
proof -
  have "parseLogLevel (Itoa 0) = Inr (level_of 0)" "parseLogLevel (Itoa 1) = Inr (level_of 1)"
    "parseLogLevel (Itoa 2) = Inr (level_of 2)" by code_simp+
  then show "l \<le> 2 \<Longrightarrow> parseLogLevel (Itoa l) = Inr (level_of l)" using small_level by blast
qed

lemma level_at_Itoa: "l \<le> 2 \<Longrightarrow> level_at (Itoa l) = Some (Itoa l)"
proof -
  have "level_at (Itoa 0) = Some (Itoa 0)" "level_at (Itoa 1) = Some (Itoa 1)" "level_at (Itoa 2) = Some (Itoa 2)"
    by code_simp+
  then show "l \<le> 2 \<Longrightarrow> level_at (Itoa l) = Some (Itoa l)" using small_level by blast
qed

lemma fileRe_at_part:
  "part_ok (FilePart name l) \<Longrightarrow> leftmost fileRe_at (part_text (FilePart name l)) = Some (name, Itoa l)"
proof -
  assume ok: "part_ok (FilePart name l)"
  then have "takeWhile (\<lambda>c. c \<noteq> CHR ''@'') (name @ CHR ''@'' # Itoa l) = name" by (auto simp: takeWhile_tail)
  with ok show ?thesis by (simp add: fileRe_at_def level_at_Itoa)
qed

lemma boolRe_at_part:
  assumes "l \<le> 2"
  shows "leftmost fileRe_at (''syslog@'' @ Itoa l) = None" "leftmost boolRe_at (''syslog@'' @ Itoa l) = Some (''syslog'', Itoa l)"
    "leftmost fileRe_at (''stderr@'' @ Itoa l) = None" "leftmost boolRe_at (''stderr@'' @ Itoa l) = Some (''stderr'', Itoa l)"
proof -
  have "list_all (\<lambda>l. leftmost fileRe_at (''syslog@'' @ Itoa l) = None \<and>
      leftmost boolRe_at (''syslog@'' @ Itoa l) = Some (''syslog'', Itoa l) \<and>
      leftmost fileRe_at (''stderr@'' @ Itoa l) = None \<and>
      leftmost boolRe_at (''stderr@'' @ Itoa l) = Some (''stderr'', Itoa l)) [0, 1, 2]"
    by code_simp
  moreover have "l \<in> set [0, 1, 2]" using small_level [OF assms] by auto
  ultimately show "leftmost fileRe_at (''syslog@'' @ Itoa l) = None" "leftmost boolRe_at (''syslog@'' @ Itoa l) = Some (''syslog'', Itoa l)"
    "leftmost fileRe_at (''stderr@'' @ Itoa l) = None" "leftmost boolRe_at (''stderr@'' @ Itoa l) = Some (''stderr'', Itoa l)"
    by (auto simp only: list_all_iff)
qed

lemma parse_part_text:
  assumes ok: "part_ok p"
  shows "parse_part (part_text p) c = Inr (apply_part p c)"
proof (cases p)
  case (FilePart name l)
  with ok fileRe_at_part [of name l] show ?thesis
    by (simp add: parse_part_def parseLogLevel_Itoa del: part_text.simps)
next
  case (SyslogPart l)
  with ok have "l \<le> 2" by simp
  with SyslogPart show ?thesis
    unfolding parse_part_def SyslogPart part_text.simps boolRe_at_part(1,2) [OF \<open>l \<le> 2\<close>] by (simp add: parseLogLevel_Itoa)
next
  case (StderrPart l)
  with ok have "l \<le> 2" by simp
  with StderrPart show ?thesis
    unfolding parse_part_def StderrPart part_text.simps boolRe_at_part(3,4) [OF \<open>l \<le> 2\<close>] by (simp add: parseLogLevel_Itoa)
qed

lemma parse_parts_text: "list_all part_ok ps \<Longrightarrow> parse_parts (map part_text ps) c = Inr (fold apply_part ps c)"
  by (induction ps arbitrary: c) (simp_all add: parse_part_text)

lemma Split_Join_with:
  "ps \<noteq> [] \<Longrightarrow> \<forall>p\<in>set ps. c \<notin> set p \<Longrightarrow> Split (Join_with c ps) c = ps"
proof (induction ps)
  case (Cons p ps)
  show ?case
  proof (cases ps)
    case Nil
    with Cons.prems show ?thesis by (simp add: Join_with_def Split_no_sep)
  next
    case (Cons q qs)
    then have "Join_with c (p # ps) = p @ c # Join_with c ps" by (simp add: Join_with_def)
    with Cons.IH Cons.prems Cons show ?thesis by (simp add: Split_append_sep Split_no_sep)
  qed
qed simp

lemma part_text_no_comma: "part_ok p \<Longrightarrow> CHR '','' \<notin> set (part_text p)"
proof -
  have "list_all (\<lambda>l. CHR '','' \<notin> set (Itoa l)) [0, 1, 2]" by code_simp
  then have "l \<le> 2 \<Longrightarrow> CHR '','' \<notin> set (Itoa l)" for l using small_level [of l] by auto
  then show "part_ok p \<Longrightarrow> CHR '','' \<notin> set (part_text p)" by (cases p) auto
qed

text \<open>
  C33. A log configuration written from fragments, log files with names that are not empty and
  have no at sign and no comma, syslog and standard error, each with a level of 0, 1 or 2, is
  read back as exactly those fragments: every file in its order, the last word on syslog and
  standard error.
\<close>

theorem log_config_roundtrip:
  assumes "ps \<noteq> []" and "list_all part_ok ps"
  shows "parseLogConfig (Join_with CHR '','' (map part_text ps)) = Inr (fold apply_part ps no_log)"
proof -
  have "Split (Join_with CHR '','' (map part_text ps)) CHR '','' = map part_text ps"
    using assms part_text_no_comma by (intro Split_Join_with) (auto simp: list_all_iff)
  then show ?thesis by (simp add: parseLogConfig_def parse_parts_text [OF assms(2)])
qed

theorem log_config_roundtrip_witness:
  "parseLogConfig (Join_with CHR '','' [part_text (FilePart ''/var/log/leng.log'' 1), part_text (StderrPart 2)]) =
     Inr (fold apply_part [FilePart ''/var/log/leng.log'' 1, StderrPart 2] no_log)"
  using log_config_roundtrip [of "[FilePart ''/var/log/leng.log'' 1, StderrPart 2]"] by simp

end
