(* ===== verification/Leng_Main.thy ===== *)
theory Leng_Main
  imports Doh_Server Api Logger
begin

text \<open>
  The server and the main program (src/server.go, src/main.go): how the parts are put
  together at the start, at a reload of the block list, at a reload of the configuration
  and at the end. The record \<open>process\<close> is the state of the whole program; \<open>main_event\<close> lists
  what the select statement of \<open>main\<close> waits for. \<open>main_env\<close> holds what is outside: the file
  systems, the sockets, and the parsers of other packages. It may be another one at every
  event.

  A goroutine that still has to store a reply when \<open>Run\<close> makes a new event loop stores it in
  the cache of the old one, which nothing reads any more, so such goroutines are forgotten
  there. The activation goroutine is a flag here; theory \<open>Shutdown\<close> has its handshake with
  \<open>main\<close>.
\<close>

section \<open>The server\<close>

record dns_Server =
  ds_Addr :: string
  ds_Net :: string
  ds_UDPSize :: nat
  ds_ReadTimeout :: duration
  ds_WriteTimeout :: duration

record Server =
  srv_host :: string
  srv_rTimeout :: duration
  srv_wTimeout :: duration
  srv_udpServer :: "dns_Server option"
  srv_tcpServer :: "dns_Server option"
  srv_httpServer :: "ServerHTTPS option"
  srv_listening :: "(string \<times> string) list"

record 're main_env =
  me_NewRR :: "string \<Rightarrow> newrr"
  me_ord :: "record_groups \<Rightarrow> record_groups"
  me_compile :: "string \<Rightarrow> 're option"
  me_matches :: "'re \<Rightarrow> string \<Rightarrow> bool"
  me_fs :: "(string \<times> string) list \<Rightarrow> upd_env"
  me_docker :: bool
  me_listen :: "string \<Rightarrow> string \<Rightarrow> bool"
  me_parse :: "byte list \<Rightarrow> toml_expr list \<times> bool"
  me_tls :: tls_files
  me_file :: "string \<Rightarrow> config_file"
  me_log :: log_env

text \<open>A listener whose address is taken logs that and ends; the others go on.\<close>

definition Server_Run ::
  "'re main_env \<Rightarrow> Config \<Rightarrow> 're MemoryBlockCache \<Rightarrow> Server \<times> 're world \<Rightarrow> go_panic + Server \<times> 're world" where
  "Server_Run env config blockCache = (\<lambda>(s, w).
     go_bind (NewEventLoop (me_NewRR env) (me_ord env) config blockCache (rrs w) (mets w)) (\<lambda>(el, h, met).
       let tcp = \<lparr>ds_Addr = srv_host s, ds_Net = ''tcp'', ds_UDPSize = 0, ds_ReadTimeout = srv_rTimeout s,
                  ds_WriteTimeout = srv_wTimeout s\<rparr>;
           udp = \<lparr>ds_Addr = srv_host s, ds_Net = ''udp'', ds_UDPSize = 65535, ds_ReadTimeout = srv_rTimeout s,
                  ds_WriteTimeout = srv_wTimeout s\<rparr>;
           doh = DohServer config;
           http = (if Doh_Enabled doh
                   then Some (fst (NewServerHTTPS (Doh_Bind doh) (Duration (TimeoutMs doh) Millisecond)
                          (seconds_of_u32 (TTL config)) (parsedTls doh)))
                   else srv_httpServer s);
           starts = (if Doh_Enabled doh then [(''http'', Doh_Bind doh)] else []) @
                    [(''udp'', srv_host s), (''tcp'', srv_host s)]
       in Inr (s\<lparr>srv_udpServer := Some udp, srv_tcpServer := Some tcp, srv_httpServer := http,
                 srv_listening := filter (\<lambda>(net, addr). me_listen env net addr) starts\<rparr>,
               w\<lparr>evl := el, rrs := h, mets := met, pending := []\<rparr>)))"

text \<open>
  \<open>Stop\<close> closes the channel of the event loop, which panics if it was stopped before. Errors
  of the shut-down are logged.
\<close>

definition Server_Stop :: "Server \<times> 're world \<Rightarrow> go_panic + Server \<times> 're world" where
  "Server_Stop = (\<lambda>(s, w).
     if \<not> el_active (evl w) then Inl CloseOfClosedChannel
     else Inr (s\<lparr>srv_listening := []\<rparr>, w\<lparr>evl := (evl w)\<lparr>el_active := False\<rparr>\<rparr>))"

definition ReloadConfig :: "'re main_env \<Rightarrow> Config \<Rightarrow> 're world \<Rightarrow> go_panic + 're world" where
  "ReloadConfig env config w =
     go_bind (NewCustomDNSRecordsFromText (me_NewRR env) (me_ord env) (CustomDNSRecords_texts config) (rrs w) (mets w))
       (\<lambda>(newRecords, h, met).
         go_bind (NewCustomRecordsResolver newRecords) (\<lambda>mux.
           Inr (w\<lparr>evl := (evl w)\<lparr>el_customDns := mux\<rparr>, rrs := h,
                  mets := met\<lparr>CustomDNSConfigReload := Suc (CustomDNSConfigReload met)\<rparr>\<rparr>)))"

section \<open>The main program\<close>

record 're process =
  p_config :: Config
  p_server :: Server
  p_world :: "'re world"
  p_blockCache :: "'re MemoryBlockCache"
  p_apiServer :: "api_server option"
  p_logging :: loggingState
  p_log :: log_state
  p_upd :: upd_state
  p_activation :: bool
  p_exited :: bool

text \<open>
  \<open>logger.Fatal\<close> ends the process. The event loop and the API share the configuration, so
  the address that \<open>StartAPIServer\<close> may change is seen by both.
\<close>

definition reloadBlockCache :: "'re main_env \<Rightarrow> 're process \<Rightarrow> go_panic + 're process" where
  "reloadBlockCache env p =
     go_bind (PerformUpdate (me_compile env) (me_matches env) (me_fs env) (p_config p) True (p_upd p))
       (\<lambda>(blockCache, files, upd).
         go_bind (Server_Stop (p_server p, p_world p)) (\<lambda>sw.
           go_bind (Server_Run env (p_config p) blockCache sw) (\<lambda>(s, w).
             case StartAPIServer (me_docker env) (me_listen env ''tcp'') (p_config p) of
               (config, None) \<Rightarrow> Inl (ExplicitPanic ''Fatal'')
             | (config, Some api) \<Rightarrow>
                 Inr (p\<lparr>p_config := config, p_server := s, p_world := w\<lparr>evl := (evl w)\<lparr>el_config := config\<rparr>\<rparr>,
                        p_blockCache := blockCache, p_apiServer := Some api, p_upd := upd\<rparr>))))"

text \<open>A configuration that cannot be loaded is nil, and \<open>ReloadConfig\<close> reads a field of it.\<close>

definition reloadConfigFromFile :: "'re main_env \<Rightarrow> string \<Rightarrow> 're process \<Rightarrow> go_panic + 're process" where
  "reloadConfigFromFile env configPath p =
     go_bind (LoadConfig (me_parse env) (me_tls env) (me_file env) configPath) (\<lambda>r.
       case r of
         Inl err \<Rightarrow> Inl NilDereference
       | Inr config \<Rightarrow> go_bind (ReloadConfig env config (p_world p)) (\<lambda>w. Inr (p\<lparr>p_world := w\<rparr>)))"

text \<open>The state before \<open>Run\<close>; its event loop stands for the nil pointer, which \<open>Run\<close> replaces.\<close>

definition main_world :: "Config \<Rightarrow> gotime \<Rightarrow> env_event list list \<Rightarrow> 're world" where
  "main_world config now sched =
     \<lparr>evl = \<lparr>el_cache = NewDefault 0, el_negCache = NewDefault 0, el_active = False, el_config = config,
        el_blockCache = \<lparr>Backend = [], Special = None\<rparr>, el_customDns = Map.empty\<rparr>,
      lengActive = True, rrs = [], msgs = [], clock = now,
      mets = metric_Start (HighCardinalityEnabled (Metrics_conf config)) (HistogramsEnabled (Metrics_conf config))
        init_metrics,
      lookups = 0, ids = 0, pending = [], between = sched\<rparr>"

definition main_start ::
  "'re main_env \<Rightarrow> string \<Rightarrow> gotime \<Rightarrow> env_event list list \<Rightarrow> go_panic + 're process" where
  "main_start env configPath now sched =
     go_bind (LoadConfig (me_parse env) (me_tls env) (me_file env) configPath) (\<lambda>r.
      case r of
        Inl err \<Rightarrow> Inl (ExplicitPanic ''Fatal'')
      | Inr config \<Rightarrow>
          go_bind (loggerInit (me_log env) (LogConfig config) \<lparr>lg_open = [], lg_next = 0, lg_backends = [], lg_errors = 0\<rparr>)
            (\<lambda>(logging, g).
              case logging of
                Inl err \<Rightarrow> Inl (ExplicitPanic ''Fatal'')
              | Inr logging \<Rightarrow>
                  let server = \<lparr>srv_host = Bind config, srv_rTimeout = 5 * Second, srv_wTimeout = 5 * Second,
                        srv_udpServer = None, srv_tcpServer = None, srv_httpServer = None, srv_listening = []\<rparr>;
                      blockCache = \<lparr>Backend = [], Special = None\<rparr>
                  in
                  go_bind (Server_Run env config blockCache (server, main_world config now sched)) (\<lambda>(s, w).
                    reloadBlockCache env \<lparr>p_config = config, p_server = s, p_world = w, p_blockCache = blockCache,
                      p_apiServer = None, p_logging = logging, p_log = g,
                      p_upd = \<lparr>timesSeen = (\<lambda>_. 0), whitelist = (\<lambda>_. False)\<rparr>,
                      p_activation = True, p_exited = False\<rparr>)))"

datatype main_event = Interrupt | SIGHUP | SIGUSR1 | ReloadRequested

definition main_step :: "'re main_env \<Rightarrow> string \<Rightarrow> main_event \<Rightarrow> 're process \<Rightarrow> go_panic + 're process" where
  "main_step env configPath ev p =
     (case ev of
        Interrupt \<Rightarrow> Inr (p\<lparr>p_activation := False, p_log := cleanUp (p_logging p) (p_log p), p_exited := True\<rparr>)
      | SIGHUP \<Rightarrow>
          (case reopen (me_log env) (p_logging p) (p_log p) of
             (None, g) \<Rightarrow> Inr (p\<lparr>p_log := g\<rparr>)
           | (Some err, g) \<Rightarrow> Inr (p\<lparr>p_log := g\<lparr>lg_errors := Suc (lg_errors g)\<rparr>\<rparr>))
      | SIGUSR1 \<Rightarrow> reloadConfigFromFile env configPath p
      | ReloadRequested \<Rightarrow> reloadBlockCache env p)"

section \<open>Well-formed states\<close>

text \<open>The order in which Go ranges over a map is some permutation of its entries.\<close>

definition permutes_groups :: "(record_groups \<Rightarrow> record_groups) \<Rightarrow> bool" where
  "permutes_groups ord \<longleftrightarrow> (\<forall>m. mset (ord m) = mset m)"

lemma records_loop_heap: "records_loop NewRR ts (m, h) = Inr (m', h') \<Longrightarrow> prefix h h'"
proof (induction ts arbitrary: m h)
  case (Cons t ts)
  then show ?case
    by (auto simp: Let_def split: newrr.splits if_splits) (metis append_prefixD)
qed simp

lemma register_records_ran: "register_records rs mux = Inr mux' \<Longrightarrow> ran mux' \<subseteq> ran mux \<union> set rs"
proof (induction rs arbitrary: mux)
  case (Cons r rs)
  then have "register_records rs (mux(CanonicalName (rec_name r) \<mapsto> r)) = Inr mux'"
    by (auto simp: ServeMux_Handle_def split: if_splits)
  from Cons.IH [OF this] show ?case by (auto simp: ran_def split: if_splits)
qed simp

lemma custom_mux_refs:
  assumes "NewCustomDNSRecordsFromText NewRR ord texts h met = Inr (records, h', met')"
    and "NewCustomRecordsResolver records = Inr mux" and "permutes_groups ord"
  shows "(\<forall>r\<in>custom_refs mux. r < length h') \<and> heap_ext h h'"
proof -
  obtain g where g: "records_loop NewRR texts ([], h) = Inr (g, h')"
    and recs: "records = map (\<lambda>(name, rrs). \<lparr>rec_name = name, rec_answer = rrs\<rparr>) (ord g)"
    using assms(1) by (auto simp: NewCustomDNSRecordsFromText_def go_bind_Inr_iff NewCustomDNSRecords_def)
  have "groups_ok [] h" by (simp add: groups_ok_def group_of_def refs_ok_def)
  from records_loop_groups [OF this g] have ok: "groups_ok g h'" by simp
  have "set (ord g) = set g" using assms(3) by (metis permutes_groups_def set_mset_mset)
  moreover have "refs_ok rs h'" if "(n, rs) \<in> set g" for n rs
  proof -
    have "group_of g n = rs" using that ok by (simp add: group_of_def groups_ok_def)
    with ok show ?thesis by (auto simp: groups_ok_def)
  qed
  ultimately have "\<forall>r\<in>set records. refs_ok (rec_answer r) h'" by (auto simp: recs)
  moreover have "ran mux \<subseteq> set records"
    using register_records_ran [of records Map.empty mux] assms(2) by (simp add: NewCustomRecordsResolver_def)
  moreover obtain t where "h' = h @ t" using records_loop_heap [OF g] by (auto simp: prefix_def)
  ultimately show ?thesis
    by (fastforce simp: custom_refs_def refs_ok_def list_all_iff heap_ext_append)
qed

lemma Server_Run_ok:
  assumes "Server_Run env config bc (s, w) = Inr (s', w')" and "permutes_groups (me_ord env)"
    and "\<forall>m\<in>set (msgs w). refs_ok (Answer m) (rrs w)"
  shows "world_ok w' \<and> el_active (evl w') \<and> el_config (evl w') = config \<and> el_blockCache (evl w') = bc \<and>
    lengActive w' = lengActive w"
proof -
  from assms(1) obtain records h met mux where
    n: "NewCustomDNSRecordsFromText (me_NewRR env) (me_ord env) (CustomDNSRecords_texts config) (rrs w) (mets w)
      = Inr (records, h, met)" and m: "NewCustomRecordsResolver records = Inr mux"
    and w': "w' = w\<lparr>evl := \<lparr>el_cache = NewDefault (Maxcount (Upstream_config config)),
        el_negCache = NewDefault (Maxcount (Upstream_config config)), el_active = True, el_config = config,
        el_blockCache = bc, el_customDns = mux\<rparr>, rrs := h, mets := met, pending := []\<rparr>"
    by (auto simp: Server_Run_def NewEventLoop_def go_bind_Inr_iff Let_def)
  from custom_mux_refs [OF n m assms(2)] assms(3) show ?thesis
    by (auto simp: w' world_ok_def new_cache_ok intro: refs_ok_heap_ext)
qed

lemma ReloadConfig_ok:
  assumes "ReloadConfig env config w = Inr w'" and "permutes_groups (me_ord env)" and "world_ok w"
  shows "world_ok w' \<and> (\<exists>mux. evl w' = (evl w)\<lparr>el_customDns := mux\<rparr>) \<and> lengActive w' = lengActive w \<and>
    msgs w' = msgs w \<and> pending w' = pending w \<and> heap_ext (rrs w) (rrs w')"
proof -
  from assms(1) obtain records h met mux where
    n: "NewCustomDNSRecordsFromText (me_NewRR env) (me_ord env) (CustomDNSRecords_texts config) (rrs w) (mets w)
      = Inr (records, h, met)" and m: "NewCustomRecordsResolver records = Inr mux"
    and w': "w' = w\<lparr>evl := (evl w)\<lparr>el_customDns := mux\<rparr>, rrs := h,
      mets := met\<lparr>CustomDNSConfigReload := Suc (CustomDNSConfigReload met)\<rparr>\<rparr>"
    by (auto simp: ReloadConfig_def go_bind_Inr_iff)
  note C = custom_mux_refs [OF n m assms(2)]
  have "world_ok (w\<lparr>rrs := h\<rparr>)" using world_ok_heap assms(3) C by blast
  with C have "world_ok w'" by (auto simp: w' world_ok_def)
  with C show ?thesis by (auto simp: w')
qed

lemma doRequest_keeps:
  assumes ok: "world_ok w" and q: "Question req \<noteq> []" and run: "doRequest env Net wr req w = Inr (wr', w')"
  shows "world_ok w' \<and> el_active (evl w') = el_active (evl w) \<and> el_config (evl w') = el_config (evl w) \<and>
    el_blockCache (evl w') = el_blockCache (evl w) \<and> lengActive w' = lengActive w"
proof -
  obtain resp s b c w1 where rf: "responseFor env Net req (w_local wr) (w_remote wr) w = Inr ((resp, s, b, c), w1)"
    using run by (auto simp: doRequest_def go_bind_Inr_iff)
  have R: "stage_ok w (resp, s, b, c) w1" using responseFor_ok [OF ok rf] by simp
  show ?thesis
  proof (cases resp)
    case None
    then have "\<not> s" using R by (simp add: stage_ok_def)
    with doRequest_failure [of env Net req wr w b c w1] rf None run q obtain met where "w' = w1\<lparr>mets := met\<rparr>" by auto
    with R show ?thesis by (simp add: stage_ok_def ext_def)
  next
    case (Some r)
    then have s: "s" "r < length (msgs w1)" "world_ok w1" using R by (simp_all add: stage_ok_def)
    with rf Some doRequest_success [of env Net req wr w r b c w1] run have
      "follow_rounds (unat (FollowCnameDepth (el_config (evl w1)))) env Net req (w_local wr) (w_remote wr) r w1 = Inr w'"
      by (cases "follow_rounds (unat (FollowCnameDepth (el_config (evl w1)))) env Net req (w_local wr) (w_remote wr) r w1") auto
    from follow_rounds_ok [OF s(3,2) this] R show ?thesis by (simp add: follow_ok_def stage_ok_def ext_def)
  qed
qed

section \<open>Reachable states\<close>

text \<open>
  The runs of the program: it starts, handles the events of \<open>main\<close> and the requests of DNS
  clients and of the API in any order, while time passes, background goroutines run, and
  the schedule of the next yields is chosen anew. Packages whose behaviour is fixed, here
  that of regular expressions, are a parameter of the whole run.
\<close>

inductive leng_run :: "(string \<Rightarrow> 're option) \<Rightarrow> string \<Rightarrow> 're process \<Rightarrow> bool" for compile configPath where
  starts: "permutes_groups (me_ord env) \<Longrightarrow> me_compile env = compile \<Longrightarrow>
    main_start env configPath now sched = Inr p \<Longrightarrow> leng_run compile configPath p"
| main_loop: "leng_run compile configPath p \<Longrightarrow> \<not> p_exited p \<Longrightarrow> permutes_groups (me_ord env) \<Longrightarrow> me_compile env = compile \<Longrightarrow>
    main_step env configPath ev p = Inr p' \<Longrightarrow> leng_run compile configPath p'"
| request: "leng_run compile configPath p \<Longrightarrow> receive m (rrs (p_world p)) = (req, h) \<Longrightarrow> Question m \<noteq> [] \<Longrightarrow>
    enter_loop Net lenv wr req ((p_world p)\<lparr>rrs := h\<rparr>) = Inr (wr', w) \<Longrightarrow> leng_run compile configPath (p\<lparr>p_world := w\<rparr>)"
| api_request: "leng_run compile configPath p \<Longrightarrow>
    api_handle compile matches ord (p_config p) aenv meth url
      \<lparr>as_blockCache = p_blockCache p, as_personal = personal, as_lengActive = lengActive (p_world p), as_reloads = n\<rparr> = Some (Inr (resp, st)) \<Longrightarrow>
    leng_run compile configPath (p\<lparr>p_blockCache := as_blockCache st,
      p_world := (p_world p)\<lparr>evl := (evl (p_world p))\<lparr>el_blockCache := as_blockCache st\<rparr>\<rparr>\<rparr>)"
| background: "leng_run compile configPath p \<Longrightarrow> leng_run compile configPath (p\<lparr>p_world := env_step e (p_world p)\<rparr>)"
| schedule: "leng_run compile configPath p \<Longrightarrow> leng_run compile configPath (p\<lparr>p_world := (p_world p)\<lparr>between := sched\<rparr>\<rparr>)"

definition process_ok :: "(string \<Rightarrow> 're option) \<Rightarrow> 're process \<Rightarrow> bool" where
  "process_ok compile p \<longleftrightarrow>
     world_ok (p_world p) \<and> el_active (evl (p_world p)) \<and> lengActive (p_world p) \<and>
     el_config (evl (p_world p)) = p_config p \<and> el_blockCache (evl (p_world p)) = p_blockCache p \<and>
     bc_inv compile (p_blockCache p)"

lemma PerformUpdate_inv:
  "PerformUpdate compile matches fs config True st = Inr (c, files, st') \<Longrightarrow> bc_inv compile c"
  using PerformUpdate_phases [of compile matches fs config st c files st'] updateBlockCache_mono by blast

lemma world_ok_msgs: "world_ok w \<Longrightarrow> \<forall>m\<in>set (msgs w). refs_ok (Answer m) (rrs w)"
  by (simp add: world_ok_def)

lemma world_ok_evl [simp]:
  "world_ok (w\<lparr>evl := (evl w)\<lparr>el_config := c\<rparr>\<rparr>) = world_ok w"
  "world_ok (w\<lparr>evl := (evl w)\<lparr>el_blockCache := b\<rparr>\<rparr>) = world_ok w"
  "world_ok (w\<lparr>evl := (evl w)\<lparr>el_active := a\<rparr>\<rparr>) = world_ok w"
  by (simp_all add: world_ok_def)

text \<open>A reload that succeeds has gone through all its parts, and so has a start.\<close>

lemma reloadBlockCache_cases:
  assumes "reloadBlockCache env p = Inr p'"
  obtains config api bc files upd s s' w' where
    "PerformUpdate (me_compile env) (me_matches env) (me_fs env) (p_config p) True (p_upd p) = Inr (bc, files, upd)"
    "Server_Run env (p_config p) bc (s, (p_world p)\<lparr>evl := (evl (p_world p))\<lparr>el_active := False\<rparr>\<rparr>) = Inr (s', w')"
    "StartAPIServer (me_docker env) (me_listen env ''tcp'') (p_config p) = (config, Some api)"
    "p' = p\<lparr>p_config := config, p_server := s', p_world := w'\<lparr>evl := (evl w')\<lparr>el_config := config\<rparr>\<rparr>,
        p_blockCache := bc, p_apiServer := Some api, p_upd := upd\<rparr>"
proof -
  obtain config api where a: "StartAPIServer (me_docker env) (me_listen env ''tcp'') (p_config p) = (config, api)"
    by fastforce
  from assms a obtain bc files upd s w s' w' api' where
    u: "PerformUpdate (me_compile env) (me_matches env) (me_fs env) (p_config p) True (p_upd p) = Inr (bc, files, upd)"
    and st: "Server_Stop (p_server p, p_world p) = Inr (s, w)"
    and r: "Server_Run env (p_config p) bc (s, w) = Inr (s', w')" and a': "api = Some api'"
    and p': "p' = p\<lparr>p_config := config, p_server := s', p_world := w'\<lparr>evl := (evl w')\<lparr>el_config := config\<rparr>\<rparr>,
        p_blockCache := bc, p_apiServer := Some api', p_upd := upd\<rparr>"
    by (cases api) (auto simp: reloadBlockCache_def go_bind_Inr_iff)
  moreover from st have "w = (p_world p)\<lparr>evl := (evl (p_world p))\<lparr>el_active := False\<rparr>\<rparr>"
    by (auto simp: Server_Stop_def split: if_splits)
  ultimately show thesis using that a by metis
qed

lemma main_start_cases:
  assumes "main_start env configPath now sched = Inr p"
  obtains config bc s0 s w p0 where
    "LoadConfig (me_parse env) (me_tls env) (me_file env) configPath = Inr (Inr config)"
    "Server_Run env config bc (s0, main_world config now sched) = Inr (s, w)"
    "reloadBlockCache env p0 = Inr p" "p_world p0 = w" "\<not> p_exited p0"
proof -
  obtain r where r: "LoadConfig (me_parse env) (me_tls env) (me_file env) configPath = Inr r"
    using assms by (auto simp: main_start_def go_bind_Inr_iff)
  with assms obtain config where c: "LoadConfig (me_parse env) (me_tls env) (me_file env) configPath = Inr (Inr config)"
    by (cases r) (simp_all add: main_start_def)
  obtain lg g where l0: "loggerInit (me_log env) (LogConfig config)
      \<lparr>lg_open = [], lg_next = 0, lg_backends = [], lg_errors = 0\<rparr> = Inr (lg, g)"
    using assms c by (auto simp: main_start_def go_bind_Inr_iff)
  with assms c obtain logging where l: "lg = Inr logging" by (cases lg) (auto simp: main_start_def)
  with assms c l0 that show thesis by (fastforce simp: main_start_def go_bind_Inr_iff Let_def)
qed

text \<open>A reload gives a new, active event loop with the new block list, from any well-formed state.\<close>

lemma reloadBlockCache_ok:
  assumes "reloadBlockCache env p = Inr p'" and "permutes_groups (me_ord env)" and "me_compile env = compile"
    and "world_ok (p_world p)" and "lengActive (p_world p)"
  shows "process_ok compile p'"
  using assms(1)
proof (cases rule: reloadBlockCache_cases)
  case (1 config api bc files upd s s' w')
  have "\<forall>m\<in>set (msgs (p_world p)). refs_ok (Answer m) (rrs (p_world p))" using world_ok_msgs [OF assms(4)] .
  then show ?thesis
    using Server_Run_ok [OF 1(2) assms(2)] PerformUpdate_inv [OF 1(1)] assms(3,5) by (simp add: process_ok_def 1(4))
qed

lemma main_start_ok:
  assumes "main_start env configPath now sched = Inr p" and "permutes_groups (me_ord env)" and "me_compile env = compile"
  shows "process_ok compile p"
  using assms(1)
proof (cases rule: main_start_cases)
  case (1 config bc s0 s w p0)
  have "\<forall>m\<in>set (msgs (main_world config now sched :: 'a world)). refs_ok (Answer m) (rrs (main_world config now sched :: 'a world))"
    by (simp add: main_world_def)
  from Server_Run_ok [OF 1(2) assms(2) this] 1(4) reloadBlockCache_ok [OF 1(3) assms(2,3)] show ?thesis
    by (simp add: main_world_def)
qed

lemma api_set_inv:
  assumes "api_set compile env k st = Inr (resp, st')" and "bc_inv compile (as_blockCache st)"
  shows "bc_inv compile (as_blockCache st')"
proof (cases "snd (MemoryBlockCache_Get k (as_blockCache st)) = Some (main_KeyNotFound k)")
  case True
  obtain c where "MemoryBlockCache_Set compile k True (as_blockCache st) = Inr c" "bc_inv compile c"
    using bc.put_ok [OF assms(2)] by blast
  with True assms(1) show ?thesis by (auto simp: api_set_def)
next
  case False
  with rewrite_keeps_blockCache [OF False, of compile env] assms(1) bc.inv_rem [OF assms(2)] show ?thesis by auto
qed

lemma api_handle_inv:
  assumes "api_handle compile matches ord config env meth url st = Some (Inr (resp, st'))"
    and "bc_inv compile (as_blockCache st)"
  shows "bc_inv compile (as_blockCache st')"
proof -
  have "st' = st \<or> as_blockCache st' = as_blockCache st \<or> (\<exists>k. api_set compile env k st = Inr (resp, st')) \<or>
      (\<exists>k. as_blockCache st' = MemoryBlockCache_Remove k (as_blockCache st))"
    using assms(1)
    by (auto simp: api_handle_def api_blockcache_def api_exists_def api_get_def api_length_def api_remove_def
        api_personal_def api_update_def api_active_def Let_def split: if_splits list.splits prod.splits)
  with assms(2) api_set_inv bc.inv_rem show ?thesis by metis
qed

lemma reloadConfigFromFile_cases:
  assumes "reloadConfigFromFile env configPath p = Inr p'"
  obtains config w where "ReloadConfig env config (p_world p) = Inr w" and "p' = p\<lparr>p_world := w\<rparr>"
proof -
  obtain r where "LoadConfig (me_parse env) (me_tls env) (me_file env) configPath = Inr r"
    and r: "(case r of Inl err \<Rightarrow> Inl NilDereference
      | Inr config \<Rightarrow> go_bind (ReloadConfig env config (p_world p)) (\<lambda>w. Inr (p\<lparr>p_world := w\<rparr>))) = Inr p'"
    using assms by (auto simp: reloadConfigFromFile_def go_bind_Inr_iff)
  with that show thesis by (cases r) (auto simp: go_bind_Inr_iff)
qed

lemma reloadConfigFromFile_ok:
  assumes "reloadConfigFromFile env configPath p = Inr p'" and "permutes_groups (me_ord env)" and "process_ok compile p"
  shows "process_ok compile p'"
proof -
  from assms(1) obtain config w where r: "ReloadConfig env config (p_world p) = Inr w" and p': "p' = p\<lparr>p_world := w\<rparr>"
    by (rule reloadConfigFromFile_cases)
  from assms(3) have "world_ok (p_world p)" by (simp add: process_ok_def)
  from ReloadConfig_ok [OF r assms(2) this] assms(3) show ?thesis by (auto simp: process_ok_def p')
qed

lemma main_step_ok:
  assumes "main_step env configPath ev p = Inr p'" and "permutes_groups (me_ord env)" and "me_compile env = compile"
    and "process_ok compile p"
  shows "process_ok compile p'"
proof (cases ev)
  case SIGUSR1
  with assms reloadConfigFromFile_ok show ?thesis by (auto simp: main_step_def)
next
  case ReloadRequested
  with assms reloadBlockCache_ok [OF _ assms(2,3), of p p'] show ?thesis by (simp add: main_step_def process_ok_def)
qed (use assms in \<open>auto simp: main_step_def process_ok_def split: prod.splits option.splits\<close>)

lemma leng_run_ok: "leng_run compile configPath p \<Longrightarrow> process_ok compile p"
proof (induction rule: leng_run.induct)
  case (starts env now sched p)
  then show ?case using main_start_ok by blast
next
  case (main_loop p env ev p')
  then show ?case using main_step_ok by blast
next
  case (request p m req h Net lenv wr wr' w)
  then have "world_ok ((p_world p)\<lparr>rrs := h\<rparr>)" "Question req \<noteq> []"
    using world_ok_receive [of "p_world p" m req h] receive_fields [of m "rrs (p_world p)" req h]
    by (auto simp: process_ok_def)
  moreover have "doRequest lenv Net wr req ((p_world p)\<lparr>rrs := h\<rparr>) = Inr (wr', w)"
    using request by (simp add: enter_loop_def process_ok_def)
  ultimately show ?case using doRequest_keeps request.IH by (fastforce simp: process_ok_def)
next
  case (api_request p matches ord aenv meth url personal n resp st)
  then show ?case using api_handle_inv [OF api_request.hyps(2)] by (simp add: process_ok_def)
next
  case (background p e)
  then show ?case using env_step_ok [of "p_world p" e] by (auto simp: process_ok_def ext_def)
qed (simp add: process_ok_def)

section \<open>Properties\<close>

text \<open>
  C1. Whatever the program has been through since it started (requests of clients and of the
  API, reloads of the block list and of the configuration, log rotations, background work,
  in any order), its state is well formed: the event loop is active and uses the current
  block list and configuration, so a reload never closes a closed channel; and every DNS
  request with a question whose handling ends gets exactly one reply, with its id, its
  question, and the code NOERROR or SERVFAIL.
\<close>

theorem every_run_serves:
  assumes "leng_run compile configPath p"
  shows "process_ok compile p \<and> Server_Stop (p_server p, p_world p) \<noteq> Inl CloseOfClosedChannel \<and>
    (\<forall>m req h q qs env Net wr wr' w. receive m (rrs (p_world p)) = (req, h) \<longrightarrow> Question m = q # qs \<longrightarrow>
      enter_loop Net env wr req ((p_world p)\<lparr>rrs := h\<rparr>) = Inr (wr', w) \<longrightarrow>
      (\<exists>reply. wr' = wr\<lparr>w_written := w_written wr @ [reply], w_closed := True\<rparr> \<and> MsgId reply = MsgId m \<and> Response reply \<and>
        Question reply = [q] \<and> (Rcode reply = RcodeSuccess \<or> Rcode reply = RcodeServerFailure \<and> Answer reply = [])))"
proof -
  have ok: "process_ok compile p" using leng_run_ok [OF assms] .
  moreover have "\<exists>reply. wr' = wr\<lparr>w_written := w_written wr @ [reply], w_closed := True\<rparr> \<and> MsgId reply = MsgId m \<and> Response reply \<and>
        Question reply = [q] \<and> (Rcode reply = RcodeSuccess \<or> Rcode reply = RcodeServerFailure \<and> Answer reply = [])"
    if rc: "receive m (rrs (p_world p)) = (req, h)" and q: "Question m = q # qs"
      and run: "enter_loop Net env wr req ((p_world p)\<lparr>rrs := h\<rparr>) = Inr (wr', w)" for m req h q qs env Net wr wr' w
  proof -
    have w: "world_ok ((p_world p)\<lparr>rrs := h\<rparr>)" using ok world_ok_receive [OF _ rc] by (simp add: process_ok_def)
    have rq: "Question req = q # qs" "MsgId req = MsgId m" using receive_fields [OF rc] q by simp_all
    have "doRequest env Net wr req ((p_world p)\<lparr>rrs := h\<rparr>) = Inr (wr', w)"
      using run ok by (simp add: enter_loop_def process_ok_def)
    from doRequest_reply [OF w rq(1) this] rq(2) show ?thesis by auto
  qed
  ultimately show ?thesis by (auto simp: Server_Stop_def process_ok_def)
qed

text \<open>A machine with an empty disk on which leng runs with its defaults, less the downloads.\<close>

definition ex_main_config :: Config where
  "ex_main_config = parseDefaultConfig\<lparr>Blocking_config := (Blocking_config parseDefaultConfig)\<lparr>Sources := [],
     Blocklist := [''example.com'']\<rparr>\<rparr>"

definition ex_main_document :: "toml_expr list" where
  "ex_main_document = [Table [''Blocking''], KeyValue [''sources''] (VArray []),
     KeyValue [''blocklist''] (VArray [VString ''example.com''])]"

definition ex_main_env :: "unit main_env" where
  "ex_main_env = \<lparr>me_NewRR = (\<lambda>_. RRError), me_ord = (\<lambda>m. m), me_compile = (\<lambda>_. None), me_matches = (\<lambda>_ _. False),
     me_fs = (\<lambda>_. ex_upd_env\<lparr>os_Stat := (\<lambda>_. False)\<rparr>), me_docker = False, me_listen = (\<lambda>_ _. True),
     me_parse = (\<lambda>bs. if bs = [] then (ex_main_document, True) else ([], False)),
     me_tls = \<lparr>LoadX509KeyPair = (\<lambda>_ _. None), ReadFile = (\<lambda>_. None), parse_certs = (\<lambda>_. [])\<rparr>,
     me_file = (\<lambda>_. Contents []), me_log = ex_log_env\<rparr>"

lemma ex_main_config_loads:
  "LoadConfig (me_parse ex_main_env) (me_tls ex_main_env) (me_file ex_main_env) ''leng.toml'' = Inr (Inr ex_main_config)"
proof -
  have "fromParser ex_main_document (Config_value parseDefaultConfig) = Inr (Config_value ex_main_config)"
    by code_simp
  then show ?thesis
    by (simp add: LoadConfig_no_tls decode_Config_def ex_main_env_def Config_of_def Config_value_def Blocking_of_def Blocking_value_def
        Upstream_of_def Upstream_value_def Metrics_of_def Metrics_value_def DohServer_of_def DohServer_value_def TlsConfig_of_def
        TlsConfig_value_def of_value_defs ex_main_config_def parseDefaultConfig_def)
qed

lemma updateBlockCache_nothing: "\<forall>d. \<not> os_Stat env d \<Longrightarrow> updateBlockCache compile matches env wl dirs c = Inr (None, c)"
  by (induction dirs) (simp_all add: Let_def)

lemma ex_main_update:
  "\<exists>c files upd'. PerformUpdate (me_compile ex_main_env) (me_matches ex_main_env) (me_fs ex_main_env) ex_main_config True upd =
     Inr (c, files, upd')"
proof -
  obtain c where c: "bc.load (me_compile ex_main_env) [''example.com''] empty_block_cache = Inr c"
    using bc.load_ok [OF bc_inv_empty] by blast
  have "update (me_compile ex_main_env) (me_fs ex_main_env []) [] [''example.com''] [] ''./sources'' upd empty_block_cache =
      Inr (None, [], upd\<lparr>whitelist := whitelist upd\<rparr>, c)"
    using c by (simp add: update_def set_all_eq fetchSources_def ex_main_env_def ex_upd_env_def Let_def)
  moreover have "\<forall>d. \<not> os_Stat (me_fs ex_main_env fs) d" for fs by (simp add: ex_main_env_def)
  ultimately show ?thesis
    by (simp add: PerformUpdate_def ex_main_config_def parseDefaultConfig_def Let_def updateBlockCache_nothing
        del: updateBlockCache.simps)
qed

lemma ex_Server_Run:
  "\<exists>s' w'. Server_Run ex_main_env ex_main_config bc (s, w) = Inr (s', w') \<and> el_active (evl w') \<and>
     el_customDns (evl w') = Map.empty"
  by (simp add: Server_Run_def NewEventLoop_def NewCustomDNSRecordsFromText_def NewCustomDNSRecords_def
      NewCustomRecordsResolver_def ex_main_env_def ex_main_config_def parseDefaultConfig_def Let_def)

lemma ex_reload:
  assumes "p_config p = ex_main_config" and "el_active (evl (p_world p))"
  shows "\<exists>p'. reloadBlockCache ex_main_env p = Inr p' \<and> p_config p' = ex_main_config \<and>
    el_customDns (evl (p_world p')) = Map.empty"
proof -
  obtain c files upd where u: "PerformUpdate (me_compile ex_main_env) (me_matches ex_main_env) (me_fs ex_main_env)
      ex_main_config True (p_upd p) = Inr (c, files, upd)"
    using ex_main_update by blast
  obtain s w where st: "Server_Stop (p_server p, p_world p) = Inr (s, w)"
    using assms(2) by (simp add: Server_Stop_def)
  obtain s' w' where r: "Server_Run ex_main_env ex_main_config c (s, w) = Inr (s', w')"
    "el_customDns (evl w') = Map.empty" using ex_Server_Run by blast
  have "StartAPIServer (me_docker ex_main_env) (me_listen ex_main_env ''tcp'') ex_main_config =
      (ex_main_config, Some \<lparr>api_Addr = API ex_main_config, ReadHeaderTimeout = Duration (Timeout ex_main_config) Second\<rparr>)"
    by (simp add: StartAPIServer_def ex_main_env_def)
  with u st r assms(1) show ?thesis by (simp add: reloadBlockCache_def)
qed

lemma ex_logging:
  "\<exists>s g'. loggerInit (me_log ex_main_env) (LogConfig ex_main_config) g = Inr (Inr s, g')"
proof -
  have "parseLogConfig ''stderr@2'' = Inr (no_log\<lparr>lc_stderr := \<lparr>bc_enabled = True, bc_level = DEBUG\<rparr>\<rparr>)" by code_simp
  then show ?thesis
    by (simp add: loggerInit_def createFileLoggers_def no_log_def ex_main_config_def parseDefaultConfig_def)
qed

lemma ex_main_starts: "\<exists>p. main_start ex_main_env ''leng.toml'' now sched = Inr p \<and> p_config p = ex_main_config"
proof -
  obtain lg g where l: "loggerInit (me_log ex_main_env) (LogConfig ex_main_config)
      \<lparr>lg_open = [], lg_next = 0, lg_backends = [], lg_errors = 0\<rparr> = Inr (Inr lg, g)"
    using ex_logging by blast
  let ?s = "\<lparr>srv_host = Bind ex_main_config, srv_rTimeout = 5 * Second, srv_wTimeout = 5 * Second,
      srv_udpServer = None, srv_tcpServer = None, srv_httpServer = None, srv_listening = []\<rparr>"
  obtain s w where r: "Server_Run ex_main_env ex_main_config \<lparr>Backend = [], Special = None\<rparr>
      (?s, main_world ex_main_config now sched) = Inr (s, w)" "el_active (evl w)"
    using ex_Server_Run by blast
  let ?p = "\<lparr>p_config = ex_main_config, p_server = s, p_world = w, p_blockCache = \<lparr>Backend = [], Special = None\<rparr>,
      p_apiServer = None, p_logging = lg, p_log = g, p_upd = \<lparr>timesSeen = (\<lambda>_. 0), whitelist = (\<lambda>_. False)\<rparr>,
      p_activation = True, p_exited = False\<rparr>"
  obtain p' where "reloadBlockCache ex_main_env ?p = Inr p'" "p_config p' = ex_main_config"
    using ex_reload [of ?p] r(2) by auto
  with l r(1) show ?thesis by (simp add: main_start_def ex_main_config_loads Let_def)
qed

lemma ex_permutes: "permutes_groups (me_ord ex_main_env)"
  by (simp add: permutes_groups_def ex_main_env_def)

lemma ex_leng_run: "\<exists>p. leng_run (\<lambda>_. None) ''leng.toml'' (p :: unit process) \<and> p_config p = ex_main_config"
  using ex_main_starts leng_run.starts [OF ex_permutes] by (metis ex_main_env_def main_env.select_convs(3))

theorem every_run_serves_witness:
  "\<exists>p :: unit process. leng_run (\<lambda>_. None) ''leng.toml'' p \<and> el_active (evl (p_world p)) \<and>
     Server_Stop (p_server p, p_world p) \<noteq> Inl CloseOfClosedChannel"
  using ex_leng_run every_run_serves unfolding process_ok_def by blast

lemma reload_blocks:
  assumes "reloadBlockCache env p = Inr p'" and "k \<in> set (Blocklist (Blocking_config (p_config p)))"
    and "plain_key k" and "ToLower q = ToLower k"
  shows "MemoryBlockCache_Exists (me_matches env) q (p_blockCache p') \<and>
    Blocking_config (p_config p') = Blocking_config (p_config p) \<and> TTL (p_config p') = TTL (p_config p)"
  using assms(1)
proof (cases rule: reloadBlockCache_cases)
  case (1 config api bc files upd s s' w')
  have "Blocking_config config = Blocking_config (p_config p) \<and> TTL config = TTL (p_config p)"
    using 1(3) by (auto simp: StartAPIServer_def Let_def split: if_splits)
  with update_blocks_configured [OF 1(1) assms(2-4)] show ?thesis by (simp add: 1(4))
qed

text \<open>
  C5. After a reload of the block list that ends well, the next address question for a plain
  name of the configured block list, in any case, is answered with the null route and without
  any upstream lookup, unless a custom record applies or NXDOMAIN blocking is configured.
\<close>

theorem reload_then_null_route:
  assumes "leng_run compile configPath p" and "permutes_groups (me_ord env)" and "me_compile env = compile"
    and "reloadBlockCache env p = Inr p'"
    and "k \<in> set (Blocklist (Blocking_config (p_config p)))" and "plain_key k"
    and "\<not> NXDomain (Blocking_config (p_config p))"
    and "Question req = q # qs" and "ToLower (UnFqdn (q_Name q)) = ToLower k" and "isIPQuery q > 0"
    and "remote_ip Net (w_remote wr) = Inr ip" and "le_matches lenv = me_matches env"
    and "ServeMux_handler (el_customDns (evl (p_world p'))) req = None"
  shows "\<exists>m w'. enter_loop Net lenv wr req (p_world p') = Inr (wr\<lparr>w_written := w_written wr @ [m], w_closed := True\<rparr>, w') \<and>
    lookups w' = lookups (p_world p') \<and> MsgId m = MsgId req \<and> Question m = [q] \<and>
    Answer m = [null_rr (q_Name q) (q_Qtype q) (TTL (p_config p))
      (if q_Qtype q = TypeA then RdA (ParseIP (Nullroute (Blocking_config (p_config p))))
       else RdAAAA (ParseIP (Nullroutev6 (Blocking_config (p_config p)))))]"
proof -
  have "process_ok compile p" using leng_run_ok [OF assms(1)] .
  then have ok: "process_ok compile p'"
    using reloadBlockCache_ok [OF assms(4,2,3)] by (simp add: process_ok_def)
  note B = reload_blocks [OF assms(4-6,9)]
  have "MemoryBlockCache_Exists (le_matches lenv) (UnFqdn (q_Name q)) (el_blockCache (evl (p_world p')))"
    using B ok assms(12) by (simp add: process_ok_def)
  moreover have c: "el_active (evl (p_world p'))" "lengActive (p_world p')"
    "Blocking_config (el_config (evl (p_world p'))) = Blocking_config (p_config p)"
    "TTL (el_config (evl (p_world p'))) = TTL (p_config p)"
    using B ok by (simp_all add: process_ok_def)
  moreover have "\<not> NXDomain (Blocking_config (el_config (evl (p_world p'))))" using assms(7) c(3) by simp
  ultimately have "\<exists>m w'. doRequest lenv Net wr req (p_world p') = Inr (wr\<lparr>w_written := w_written wr @ [m], w_closed := True\<rparr>, w') \<and>
    lookups w' = lookups (p_world p') \<and> MsgId m = MsgId req \<and> Question m = [q] \<and> Rcode m = RcodeSuccess \<and>
    Answer m = [null_rr (q_Name q) (q_Qtype q) (TTL (el_config (evl (p_world p'))))
      (if q_Qtype q = TypeA then RdA (ParseIP (Nullroute (Blocking_config (el_config (evl (p_world p'))))))
       else RdAAAA (ParseIP (Nullroutev6 (Blocking_config (el_config (evl (p_world p')))))))]"
    by (intro doRequest_null_route [OF assms(8,11,13,10)])
  then show ?thesis unfolding c(3,4) enter_loop_def using c(1) by auto
qed

theorem reload_then_null_route_witness:
  "\<exists>p p' :: unit process. \<exists>m w'. leng_run (\<lambda>_. None) ''leng.toml'' p \<and> reloadBlockCache ex_main_env p = Inr p' \<and>
     enter_loop ''udp'' (ex_leng (\<lambda>_. ex_env None (\<lambda>_. ExErr) [])) ex_writer ex_request (p_world p') =
       Inr (ex_writer\<lparr>w_written := [m], w_closed := True\<rparr>, w') \<and> length (Answer m) = 1"
proof -
  obtain p :: "unit process" where run: "leng_run (\<lambda>_. None) ''leng.toml'' p" and cfg: "p_config p = ex_main_config"
    using ex_leng_run by blast
  have ok: "process_ok (\<lambda>_. None) p" using leng_run_ok [OF run] .
  obtain p' where r: "reloadBlockCache ex_main_env p = Inr p'" "el_customDns (evl (p_world p')) = Map.empty"
    using ex_reload [OF cfg] ok by (auto simp: process_ok_def)
  let ?lenv = "ex_leng (\<lambda>_. ex_env None (\<lambda>_. ExErr) [])"
  have k: "plain_key ''example.com''" "ToLower (UnFqdn ''example.com.'') = ToLower ''example.com''" by code_simp+
  have "\<exists>m w'. enter_loop ''udp'' ?lenv ex_writer ex_request (p_world p') =
      Inr (ex_writer\<lparr>w_written := w_written ex_writer @ [m], w_closed := True\<rparr>, w') \<and> length (Answer m) = 1"
    using reload_then_null_route [OF run ex_permutes _ r(1) _ k(1) _ ex_request_Question _ _ ex_writer_fits, of ?lenv] k(2) r(2)
    by (fastforce simp: cfg ex_main_config_def parseDefaultConfig_def ex_main_env_def ex_leng_def no_custom ex_isIPQuery)
  then show ?thesis using run r(1) by (auto simp: ex_writer_def)
qed

text \<open>
  C32. SIGUSR1 with a configuration file that loads replaces the custom records by those of the
  file and nothing else: caches, block list, configuration, messages and pending work stay,
  and records in memory change in nothing. With a file that does not load (text that is not
  TOML, for example) the signal crashes the process, because the nil configuration is used
  in spite of the error; and if the decoder panics, so does the signal.
\<close>

theorem config_reload:
  assumes "process_ok compile p" and "permutes_groups (me_ord env)"
  shows "case LoadConfig (me_parse env) (me_tls env) (me_file env) configPath of
      Inl panic \<Rightarrow> main_step env configPath SIGUSR1 p = Inl panic
    | Inr (Inl err) \<Rightarrow> main_step env configPath SIGUSR1 p = Inl NilDereference
    | Inr (Inr config) \<Rightarrow> (\<forall>p'. main_step env configPath SIGUSR1 p = Inr p' \<longrightarrow> process_ok compile p' \<and>
        (\<exists>w' records h met mux. p' = p\<lparr>p_world := w'\<rparr> \<and>
          NewCustomDNSRecordsFromText (me_NewRR env) (me_ord env) (CustomDNSRecords_texts config)
            (rrs (p_world p)) (mets (p_world p)) = Inr (records, h, met) \<and>
          NewCustomRecordsResolver records = Inr mux \<and> evl w' = (evl (p_world p))\<lparr>el_customDns := mux\<rparr> \<and>
          msgs w' = msgs (p_world p) \<and> pending w' = pending (p_world p) \<and> prefix (rrs (p_world p)) (rrs w')))"
proof (cases "\<exists>config. LoadConfig (me_parse env) (me_tls env) (me_file env) configPath = Inr (Inr config)")
  case False
  then show ?thesis
    by (auto simp: main_step_def reloadConfigFromFile_def split: sum.split)
next
  case True
  then obtain config where Inr: "LoadConfig (me_parse env) (me_tls env) (me_file env) configPath = Inr (Inr config)" by blast
  have "process_ok compile p' \<and> (\<exists>w' records h met mux. p' = p\<lparr>p_world := w'\<rparr> \<and>
          NewCustomDNSRecordsFromText (me_NewRR env) (me_ord env) (CustomDNSRecords_texts config)
            (rrs (p_world p)) (mets (p_world p)) = Inr (records, h, met) \<and>
          NewCustomRecordsResolver records = Inr mux \<and> evl w' = (evl (p_world p))\<lparr>el_customDns := mux\<rparr> \<and>
          msgs w' = msgs (p_world p) \<and> pending w' = pending (p_world p) \<and> prefix (rrs (p_world p)) (rrs w'))"
    if step: "main_step env configPath SIGUSR1 p = Inr p'" for p'
  proof -
    from step have r: "reloadConfigFromFile env configPath p = Inr p'" by (simp add: main_step_def)
    from r Inr obtain records h met mux where
      n: "NewCustomDNSRecordsFromText (me_NewRR env) (me_ord env) (CustomDNSRecords_texts config)
        (rrs (p_world p)) (mets (p_world p)) = Inr (records, h, met)" and m: "NewCustomRecordsResolver records = Inr mux"
      and p': "p' = p\<lparr>p_world := (p_world p)\<lparr>evl := (evl (p_world p))\<lparr>el_customDns := mux\<rparr>, rrs := h,
        mets := met\<lparr>CustomDNSConfigReload := Suc (CustomDNSConfigReload met)\<rparr>\<rparr>\<rparr>"
      by (auto simp: reloadConfigFromFile_def ReloadConfig_def go_bind_Inr_iff)
    have "prefix (rrs (p_world p)) h"
      using n by (auto simp: NewCustomDNSRecordsFromText_def NewCustomDNSRecords_def go_bind_Inr_iff Let_def
          dest: records_loop_heap)
    with n m p' reloadConfigFromFile_ok [OF r assms(2,1)] show ?thesis
      by (intro conjI exI [of _ "p_world p'"] exI [of _ records] exI [of _ h] exI [of _ met] exI [of _ mux]) auto
  qed
  with Inr show ?thesis by simp
qed

theorem config_reload_witness:
  "\<exists>p :: unit process. leng_run (\<lambda>_. None) ''leng.toml'' p \<and>
     main_step (ex_main_env\<lparr>me_file := (\<lambda>_. Contents [0])\<rparr>) ''leng.toml'' SIGUSR1 p = Inl NilDereference"
proof -
  obtain p :: "unit process" where run: "leng_run (\<lambda>_. None) ''leng.toml'' p" using ex_leng_run by blast
  have ok: "process_ok (\<lambda>_. None) p" using leng_run_ok [OF run] .
  let ?env = "ex_main_env\<lparr>me_file := (\<lambda>_. Contents [0])\<rparr>"
  have "permutes_groups (me_ord ?env)" using ex_permutes by simp
  moreover have "LoadConfig (me_parse ?env) (me_tls ?env) (me_file ?env) ''leng.toml'' = Inr (Inl DecodeError)"
    by (simp add: LoadConfig_def decode_Config_def ex_main_env_def Let_def)
  ultimately show ?thesis using config_reload [OF ok, of ?env "''leng.toml''"] run by auto
qed

end
