(* ===== verification/Worker_Pool.thy ===== *)
theory Worker_Pool
  imports Workers Leng_Main
begin

text \<open>
  Requests that are served at the same time (\<open>do\<close> of src/handler.go starts up to 100 workers
  per event loop), together with everything else the program does: the events of \<open>main\<close>, API
  requests, goroutines that store replies, and the passing of time. After a reload of the
  block list the workers and goroutines of the old event loop go on with the old one
  (src/main.go, src/server.go), so the state keeps the old loops; all loops share the heap of
  records and messages, the clock and the metrics.

  A reload is one step: between \<open>Stop\<close> and \<open>Run\<close> the workers of the old loop see none of the
  changes.
\<close>

section \<open>State\<close>

record worker =
  wk_net :: string
  wk_req :: "rref msg"
  wk_wr :: response_writer
  wk_point :: point
  wk_loop :: nat

record 're concurrent =
  cc_process :: "'re process"
  cc_old :: "('re EventLoop \<times> (string \<times> mref) list) list"
  cc_workers :: "worker list"

abbreviation (input) cc_world :: "'re concurrent \<Rightarrow> 're world" where
  "cc_world s \<equiv> p_world (cc_process s)"

text \<open>Event loops are numbered in the order of their creation; the last one is the current one.\<close>

definition loop_world :: "nat \<Rightarrow> 're concurrent \<Rightarrow> 're world" where
  "loop_world k s =
     (if k < length (cc_old s) then (cc_world s)\<lparr>evl := fst (cc_old s ! k), pending := snd (cc_old s ! k)\<rparr>
      else cc_world s)"

definition put_world :: "nat \<Rightarrow> 're world \<Rightarrow> 're concurrent \<Rightarrow> 're concurrent" where
  "put_world k w s =
     (if k < length (cc_old s)
      then s\<lparr>cc_old := (cc_old s)[k := (evl w, pending w)],
             cc_process := (cc_process s)\<lparr>p_world := w\<lparr>evl := evl (cc_world s), pending := pending (cc_world s)\<rparr>\<rparr>\<rparr>
      else s\<lparr>cc_process := (cc_process s)\<lparr>p_world := w\<rparr>\<rparr>)"

definition running :: "nat \<Rightarrow> 're concurrent \<Rightarrow> nat" where
  "running k s = length (filter (\<lambda>wk. wk_loop wk = k \<and> wk_point wk \<noteq> Closed) (cc_workers s))"

section \<open>Steps\<close>

abbreviation (input) "worker_limit \<equiv> (100 :: nat)"

text \<open>\<open>do\<close> received a request and \<open>errGroup.Go\<close> found a free place.\<close>

definition start_worker :: "string \<Rightarrow> rref msg \<Rightarrow> response_writer \<Rightarrow> nat \<Rightarrow> worker" where
  "start_worker Net req wr k =
     \<lparr>wk_net = Net, wk_req = req, wk_wr = wr, wk_point = Begin ForRequest req, wk_loop = k\<rparr>"

definition retire_loop :: "main_event \<Rightarrow> 're concurrent \<Rightarrow> ('re EventLoop \<times> (string \<times> mref) list) list" where
  "retire_loop ev s =
     (if ev = ReloadRequested
      then cc_old s @ [((evl (cc_world s))\<lparr>el_active := False\<rparr>, pending (cc_world s))] else cc_old s)"

inductive conc_step :: "(string \<Rightarrow> 're option) \<Rightarrow> string \<Rightarrow> 're concurrent \<Rightarrow> 're concurrent \<Rightarrow> bool" for compile configPath where
  main_event: "permutes_groups (me_ord env) \<Longrightarrow> me_compile env = compile \<Longrightarrow>
    main_step env configPath ev (cc_process s) = Inr p' \<Longrightarrow>
    conc_step compile configPath s (s\<lparr>cc_process := p', cc_old := retire_loop ev s\<rparr>)"
| arrives: "receive m (rrs (cc_world s)) = (req, h) \<Longrightarrow> Question m \<noteq> [] \<Longrightarrow> el_active (evl (cc_world s)) \<Longrightarrow>
    running (length (cc_old s)) s < worker_limit \<Longrightarrow> w_written wr = [] \<Longrightarrow> \<not> w_closed wr \<Longrightarrow>
    conc_step compile configPath s
      (s\<lparr>cc_process := (cc_process s)\<lparr>p_world := (cc_world s)\<lparr>rrs := h\<rparr>\<rparr>,
         cc_workers := cc_workers s @ [start_worker Net req wr (length (cc_old s))]\<rparr>)"
| works: "i < length (cc_workers s) \<Longrightarrow> wk = cc_workers s ! i \<Longrightarrow>
    worker_step lenv (wk_net wk) (wk_req wk) (wk_point wk) (wk_wr wk) (loop_world (wk_loop wk) s) = Inr (pt, wr, w) \<Longrightarrow>
    conc_step compile configPath s
      ((put_world (wk_loop wk) w s)\<lparr>cc_workers := (cc_workers s)[i := wk\<lparr>wk_point := pt, wk_wr := wr\<rparr>]\<rparr>)"
| background_event: "k \<le> length (cc_old s) \<Longrightarrow>
    conc_step compile configPath s (put_world k (env_step e (loop_world k s)) s)"
| api_call: "api_handle compile matches ord (p_config (cc_process s)) aenv meth url
      \<lparr>as_blockCache = p_blockCache (cc_process s), as_personal = personal, as_lengActive = lengActive (cc_world s),
       as_reloads = n\<rparr> = Some (Inr (resp, st)) \<Longrightarrow>
    conc_step compile configPath s (s\<lparr>cc_process := (cc_process s)\<lparr>p_blockCache := as_blockCache st,
      p_world := (cc_world s)\<lparr>evl := (evl (cc_world s))\<lparr>el_blockCache := as_blockCache st\<rparr>\<rparr>\<rparr>\<rparr>)"

inductive conc_run :: "(string \<Rightarrow> 're option) \<Rightarrow> string \<Rightarrow> 're concurrent \<Rightarrow> bool" for compile configPath where
  starts_up: "permutes_groups (me_ord env) \<Longrightarrow> me_compile env = compile \<Longrightarrow>
    main_start env configPath now [] = Inr p \<Longrightarrow>
    conc_run compile configPath \<lparr>cc_process = p, cc_old = [], cc_workers = []\<rparr>"
| goes_on: "conc_run compile configPath s \<Longrightarrow> \<not> p_exited (cc_process s) \<Longrightarrow> conc_step compile configPath s s' \<Longrightarrow>
    conc_run compile configPath s'"

inductive_cases conc_stepE: "conc_step compile configPath s s'"

text \<open>States that a run can reach from \<open>s\<close>.\<close>

definition conc_later :: "(string \<Rightarrow> 're option) \<Rightarrow> string \<Rightarrow> 're concurrent \<Rightarrow> 're concurrent \<Rightarrow> bool" where
  "conc_later compile configPath =
     (\<lambda>s s'. \<not> p_exited (cc_process s) \<and> conc_step compile configPath s s')\<^sup>*\<^sup>*"

section \<open>Invariant\<close>

definition worker_ok :: "'re concurrent \<Rightarrow> worker \<Rightarrow> bool" where
  "worker_ok s wk \<longleftrightarrow> wk_loop wk \<le> length (cc_old s) \<and> Question (wk_req wk) \<noteq> [] \<and>
     point_ok (wk_req wk) (cc_world s) (wk_point wk) \<and> writer_ok (wk_req wk) (wk_point wk) (wk_wr wk)"

text \<open>No two workers write to the same message.\<close>

definition apart :: "worker list \<Rightarrow> bool" where
  "apart wks \<longleftrightarrow> (\<forall>i j. i < length wks \<and> j < length wks \<and> i \<noteq> j \<longrightarrow>
     owned (wk_point (wks ! i)) \<inter> owned (wk_point (wks ! j)) = {})"

definition conc_ok :: "(string \<Rightarrow> 're option) \<Rightarrow> 're concurrent \<Rightarrow> bool" where
  "conc_ok compile s \<longleftrightarrow> process_ok compile (cc_process s) \<and> (\<forall>k\<le>length (cc_old s). world_ok (loop_world k s)) \<and>
     (\<forall>wk\<in>set (cc_workers s). worker_ok s wk) \<and> apart (cc_workers s) \<and> (\<forall>k. running k s \<le> worker_limit)"

lemma point_ok_cong: "msgs w' = msgs w \<Longrightarrow> rrs w' = rrs w \<Longrightarrow> point_ok req w' pt = point_ok req w pt"
  by (cases pt) (simp_all add: call_ok_def reply_ok_def answer_ok_def)

lemma loop_world_fields [simp]:
  "msgs (loop_world k s) = msgs (cc_world s)" "rrs (loop_world k s) = rrs (cc_world s)"
  "lengActive (loop_world k s) = lengActive (cc_world s)" "loop_world k (s\<lparr>cc_workers := wks\<rparr>) = loop_world k s"
  by (simp_all add: loop_world_def)

lemma put_world_fields [simp]:
  "msgs (cc_world (put_world k w s)) = msgs w" "rrs (cc_world (put_world k w s)) = rrs w"
  "length (cc_old (put_world k w s)) = length (cc_old s)" "cc_workers (put_world k w s) = cc_workers s"
  by (simp_all add: put_world_def)

text \<open>The other loops only see that the shared heap has grown.\<close>

lemma world_ok_shared:
  assumes "world_ok v" and "world_ok w" and "heap_ext (rrs v) (rrs w)" and "length (msgs v) \<le> length (msgs w)"
  shows "world_ok (w\<lparr>evl := evl v, pending := pending v\<rparr>)"
proof -
  have "entries_ok (el_cache (evl v)) (rrs w)" using assms(1,3) entries_ok_heap_ext by (auto simp: world_ok_def)
  moreover have "length (rrs v) \<le> length (rrs w)" using assms(3) by (simp add: heap_ext_def)
  ultimately show ?thesis using assms(1,2,4) by (fastforce simp: world_ok_def list_all_iff)
qed

lemma loop_world_put:
  "k \<le> length (cc_old s) \<Longrightarrow> j \<le> length (cc_old s) \<Longrightarrow> loop_world j (put_world k w s) =
     (if j = k then w else w\<lparr>evl := evl (loop_world j s), pending := pending (loop_world j s)\<rparr>)"
  by (auto simp: loop_world_def put_world_def)

lemma put_world_ok:
  assumes inv: "conc_ok compile s" and k: "k \<le> length (cc_old s)" and w: "world_ok w" "step_keeps A (loop_world k s) w"
  shows "process_ok compile (cc_process (put_world k w s)) \<and>
    (\<forall>j\<le>length (cc_old s). world_ok (loop_world j (put_world k w s)))"
proof -
  have keep: "heap_ext (rrs (cc_world s)) (rrs w)" "length (msgs (cc_world s)) \<le> length (msgs w)"
    "lengActive w = lengActive (cc_world s)"
    using w(2) by (simp_all add: step_keeps_def)
  have all: "\<forall>j\<le>length (cc_old s). world_ok (loop_world j (put_world k w s))"
    using inv w(1) keep world_ok_shared [of "loop_world _ s" w] by (auto simp: loop_world_put [OF k] conc_ok_def)
  moreover have "cc_world (put_world k w s) = loop_world (length (cc_old s)) (put_world k w s)"
    by (simp add: loop_world_def)
  ultimately have "world_ok (cc_world (put_world k w s))" by simp
  then show ?thesis
    using all inv keep w(2) k by (auto simp: conc_ok_def process_ok_def put_world_def loop_world_def step_keeps_def)
qed

lemma worker_world:
  assumes "conc_ok compile s" and "wk \<in> set (cc_workers s)"
  shows "wk_loop wk \<le> length (cc_old s)" "world_ok (loop_world (wk_loop wk) s)" "Question (wk_req wk) \<noteq> []"
    "point_ok (wk_req wk) (loop_world (wk_loop wk) s) (wk_point wk)" "writer_ok (wk_req wk) (wk_point wk) (wk_wr wk)"
  using assms point_ok_cong [of "loop_world (wk_loop wk) s" "cc_world s"] by (auto simp: conc_ok_def worker_ok_def)

text \<open>A worker moves: its own invariant by \<open>worker_step_good\<close>, the others' because they own other messages.\<close>

lemma works_ok:
  assumes inv: "conc_ok compile s" and i: "i < length (cc_workers s)" and wk: "wk = cc_workers s ! i"
    and step: "worker_step lenv (wk_net wk) (wk_req wk) (wk_point wk) (wk_wr wk) (loop_world (wk_loop wk) s) = Inr (pt, wr, w)"
  shows "conc_ok compile ((put_world (wk_loop wk) w s)\<lparr>cc_workers := (cc_workers s)[i := wk\<lparr>wk_point := pt, wk_wr := wr\<rparr>]\<rparr>)"
    (is "conc_ok compile ?s")
proof -
  let ?v = "loop_world (wk_loop wk) s" and ?wks = "(cc_workers s)[i := wk\<lparr>wk_point := pt, wk_wr := wr\<rparr>]"
  have wk_in: "wk \<in> set (cc_workers s)" using i wk by simp
  note W = worker_world [OF inv wk_in]
  from worker_step_good [OF step W(2,3,4,5)] have g: "world_ok w" "step_keeps (owned (wk_point wk)) ?v w"
    "point_ok (wk_req wk) w pt" "owned pt \<subseteq> owned (wk_point wk) \<union> {length (msgs ?v)..<length (msgs w)}"
    and wr: "writer_ok (wk_req wk) pt wr"
    by (simp_all add: good_step_def)
  note P = put_world_ok [OF inv W(1) g(1,2)]
  have apart0: "apart (cc_workers s)" using inv by (simp add: conc_ok_def)
  have other: "owned (wk_point (cc_workers s ! j)) \<inter> owned (wk_point wk) = {}"
    "point_ok (wk_req (cc_workers s ! j)) ?v (wk_point (cc_workers s ! j))"
    "worker_ok s (cc_workers s ! j)"
    if "j < length (cc_workers s)" "j \<noteq> i" for j
  proof -
    show "owned (wk_point (cc_workers s ! j)) \<inter> owned (wk_point wk) = {}"
      using apart0 that i wk unfolding apart_def by blast
    show ok: "worker_ok s (cc_workers s ! j)" using inv that by (simp add: conc_ok_def)
    then show "point_ok (wk_req (cc_workers s ! j)) ?v (wk_point (cc_workers s ! j))"
      using point_ok_cong [of ?v "cc_world s"] by (simp add: worker_ok_def)
  qed
  have "worker_ok ?s (?wks ! j)" if j: "j < length (cc_workers s)" for j
  proof (cases "j = i")
    case True
    then show ?thesis
      using i wk wr g(3) W(1,3) point_ok_cong [of "cc_world ?s" w] by (simp add: worker_ok_def)
  next
    case False
    with other [OF j] point_ok_keeps [OF _ g(2)] have "point_ok (wk_req (cc_workers s ! j)) w (wk_point (cc_workers s ! j))"
      by blast
    then show ?thesis
      using False other(3) [OF j] point_ok_cong [of "cc_world ?s" w] by (simp add: worker_ok_def)
  qed
  then have "\<forall>wk\<in>set ?wks. worker_ok ?s wk" by (metis in_set_conv_nth length_list_update)
  moreover have "owned pt \<inter> owned (wk_point (cc_workers s ! j)) = {}" if "j < length (cc_workers s)" "j \<noteq> i" for j
    using other(1,2) [OF that] g(4) owned_allocated [OF other(2) [OF that]] by fastforce
  then have "apart ?wks" using apart0 i unfolding apart_def by (simp add: nth_list_update) blast
  moreover have "running k ?s \<le> worker_limit" for k
  proof -
    have "wk_point wk = Closed \<Longrightarrow> pt = Closed" using step by (simp add: worker_step_def)
    then have "running k ?s \<le> running k s"
      using filter_update_le [OF i, of "\<lambda>wk. wk_loop wk = k \<and> wk_point wk \<noteq> Closed" "wk\<lparr>wk_point := pt, wk_wr := wr\<rparr>"] wk
      by (auto simp: running_def)
    with inv show ?thesis unfolding conc_ok_def using le_trans by blast
  qed
  ultimately show ?thesis using P by (simp add: conc_ok_def)
qed

text \<open>Other steps leave the workers where they are.\<close>

lemma no_worker_moves:
  assumes inv: "conc_ok compile s" and same: "cc_workers s' = cc_workers s" and old: "length (cc_old s) \<le> length (cc_old s')"
    and keeps: "heap_ext (rrs (cc_world s)) (rrs (cc_world s'))" "msgs (cc_world s') = msgs (cc_world s)"
    and ok: "process_ok compile (cc_process s')" "\<forall>k\<le>length (cc_old s'). world_ok (loop_world k s')"
  shows "conc_ok compile s'"
proof -
  have "point_ok req (cc_world s') pt" if "point_ok req (cc_world s) pt" for req pt
  proof -
    have "point_ok req ((cc_world s)\<lparr>rrs := rrs (cc_world s')\<rparr>) pt"
      by (rule point_ok_keeps [OF that, of "{}"]) (use keeps in \<open>auto simp: step_keeps_def\<close>)
    then show ?thesis using point_ok_cong [of "cc_world s'" "(cc_world s)\<lparr>rrs := rrs (cc_world s')\<rparr>"] keeps(2) by simp
  qed
  then have "\<forall>wk\<in>set (cc_workers s). worker_ok s' wk"
    using inv old by (fastforce simp: conc_ok_def worker_ok_def)
  with inv ok same show ?thesis by (simp add: conc_ok_def running_def)
qed

lemma arrives_ok:
  assumes inv: "conc_ok compile s" and rc: "receive m (rrs (cc_world s)) = (req, h)" and q: "Question m \<noteq> []"
    and room: "running (length (cc_old s)) s < worker_limit" and wr: "w_written wr = []" "\<not> w_closed wr"
  shows "conc_ok compile (s\<lparr>cc_process := (cc_process s)\<lparr>p_world := (cc_world s)\<lparr>rrs := h\<rparr>\<rparr>,
    cc_workers := cc_workers s @ [start_worker Net req wr (length (cc_old s))]\<rparr>)"
proof -
  let ?s = "s\<lparr>cc_process := (cc_process s)\<lparr>p_world := (cc_world s)\<lparr>rrs := h\<rparr>\<rparr>\<rparr>"
  have h: "heap_ext (rrs (cc_world s)) h" using receive_fresh [OF rc] by (auto simp: heap_ext_append)
  have world: "loop_world k ?s = (loop_world k s)\<lparr>rrs := h\<rparr>" for k by (simp add: loop_world_def)
  have "world_ok (loop_world k ?s)" if "k \<le> length (cc_old s)" for k
    using inv that world_ok_heap [of "loop_world k s" h] h by (simp add: world conc_ok_def)
  moreover have "process_ok compile (cc_process ?s)"
    using inv world_ok_heap [OF _ h] by (simp add: conc_ok_def process_ok_def)
  ultimately have "conc_ok compile ?s"
    by (intro no_worker_moves [OF inv]) (use h in auto)
  then show ?thesis
    using q wr room receive_fields [OF rc]
    by (auto simp: conc_ok_def worker_ok_def start_worker_def call_ok_def writer_ok_def apart_def running_def
        nth_append less_Suc_eq)
qed

lemma env_step_mets: "mets (env_step e w) = mets w"
  by (cases e) (simp_all add: cache_goroutine_def split: prod.split)

lemma background_ok:
  assumes inv: "conc_ok compile s" and k: "k \<le> length (cc_old s)"
  shows "conc_ok compile (put_world k (env_step e (loop_world k s)) s)"
proof -
  let ?w = "env_step e (loop_world k s)"
  have ok: "world_ok (loop_world k s)" using inv k by (simp add: conc_ok_def)
  note E = env_step_ok [OF ok, of e]
  have keeps: "step_keeps {} (loop_world k s) ?w" using E by (auto intro: ext_keeps simp: env_step_mets)
  have "msgs ?w = msgs (loop_world k s)" by (cases e) (simp_all add: cache_goroutine_def split: prod.split)
  with put_world_ok [OF inv k _ keeps] E keeps show ?thesis
    by (intro no_worker_moves [OF inv]) (auto simp: step_keeps_def)
qed

lemma Server_Run_shared:
  assumes "Server_Run env config bc (s, w) = Inr (s', w')" and "permutes_groups (me_ord env)"
  shows "msgs w' = msgs w \<and> heap_ext (rrs w) (rrs w')"
proof -
  from assms(1) obtain records h met mux where
    n: "NewCustomDNSRecordsFromText (me_NewRR env) (me_ord env) (CustomDNSRecords_texts config) (rrs w) (mets w)
      = Inr (records, h, met)" and m: "NewCustomRecordsResolver records = Inr mux" and "msgs w' = msgs w" "rrs w' = h"
    by (auto simp: Server_Run_def NewEventLoop_def go_bind_Inr_iff Let_def)
  with custom_mux_refs [OF n m assms(2)] show ?thesis by simp
qed

lemma main_step_shared:
  assumes step: "main_step env configPath ev p = Inr p'" and ord: "permutes_groups (me_ord env)"
    and ok: "world_ok (p_world p)"
  shows "msgs (p_world p') = msgs (p_world p) \<and> heap_ext (rrs (p_world p)) (rrs (p_world p'))"
proof (cases ev)
  case SIGUSR1
  with step obtain config w where "ReloadConfig env config (p_world p) = Inr w" "p' = p\<lparr>p_world := w\<rparr>"
    by (auto simp: main_step_def elim: reloadConfigFromFile_cases)
  with ReloadConfig_ok [OF _ ord ok] show ?thesis by simp
next
  case ReloadRequested
  with step have "reloadBlockCache env p = Inr p'" by (simp add: main_step_def)
  then show ?thesis
  proof (cases rule: reloadBlockCache_cases)
    case (1 config api bc files upd s s' w')
    with Server_Run_shared [OF 1(2) ord] show ?thesis by simp
  qed
qed (use step in \<open>auto simp: main_step_def split: prod.splits option.splits\<close>)

lemma main_event_ok:
  assumes inv: "conc_ok compile s" and env: "permutes_groups (me_ord env)" "me_compile env = compile"
    and step: "main_step env configPath ev (cc_process s) = Inr p'"
  shows "conc_ok compile (s\<lparr>cc_process := p', cc_old := retire_loop ev s\<rparr>)" (is "conc_ok compile ?s")
proof -
  have p: "process_ok compile (cc_process s)" using inv by (simp add: conc_ok_def)
  then have w: "world_ok (cc_world s)" by (simp add: process_ok_def)
  have p': "process_ok compile p'" using main_step_ok [OF step env p] .
  then have w': "world_ok (p_world p')" by (simp add: process_ok_def)
  note sh = main_step_shared [OF step env(1) w]
  have "world_ok (loop_world k ?s)" if k: "k \<le> length (retire_loop ev s)" for k
  proof -
    let ?v = "(cc_world s)\<lparr>evl := (evl (cc_world s))\<lparr>el_active := False\<rparr>\<rparr>"
    have "world_ok (loop_world k s)" if "k < length (cc_old s)" using inv that by (simp add: conc_ok_def)
    then have old: "world_ok ((p_world p')\<lparr>evl := fst (cc_old s ! k), pending := snd (cc_old s ! k)\<rparr>)"
      if "k < length (cc_old s)"
      using that world_ok_shared [of "loop_world k s" "p_world p'"] w' sh by (simp add: loop_world_def)
    have "world_ok ?v" using w by simp
    then have "world_ok ((p_world p')\<lparr>evl := evl ?v, pending := pending ?v\<rparr>)"
      using world_ok_shared [of ?v "p_world p'"] w' sh by simp
    with old w' k show ?thesis by (auto simp: loop_world_def retire_loop_def nth_append less_Suc_eq)
  qed
  then show ?thesis
    using p' sh by (intro no_worker_moves [OF inv]) (auto simp: retire_loop_def)
qed

lemma api_call_ok:
  assumes inv: "conc_ok compile s" and call: "api_handle compile matches ord (p_config (cc_process s)) aenv meth url
      \<lparr>as_blockCache = p_blockCache (cc_process s), as_personal = personal, as_lengActive = lengActive (cc_world s),
       as_reloads = n\<rparr> = Some (Inr (resp, st))"
  shows "conc_ok compile (s\<lparr>cc_process := (cc_process s)\<lparr>p_blockCache := as_blockCache st,
      p_world := (cc_world s)\<lparr>evl := (evl (cc_world s))\<lparr>el_blockCache := as_blockCache st\<rparr>\<rparr>\<rparr>\<rparr>)" (is "conc_ok compile ?s")
proof -
  have "bc_inv compile (as_blockCache st)" using api_handle_inv [OF call] inv by (simp add: conc_ok_def process_ok_def)
  moreover have "world_ok (loop_world k ?s) = world_ok (loop_world k s)" for k by (simp add: loop_world_def)
  ultimately show ?thesis
    using inv by (intro no_worker_moves [OF inv]) (auto simp: conc_ok_def process_ok_def)
qed

lemma conc_step_ok: "conc_step compile configPath s s' \<Longrightarrow> conc_ok compile s \<Longrightarrow> conc_ok compile s'"
  by (erule conc_stepE) (blast intro: main_event_ok arrives_ok works_ok background_ok api_call_ok)+

lemma conc_run_ok: "conc_run compile configPath s \<Longrightarrow> conc_ok compile s"
proof (induction rule: conc_run.induct)
  case (starts_up env now p)
  then have "process_ok compile p" using main_start_ok by blast
  then show ?case by (simp add: conc_ok_def loop_world_def process_ok_def apart_def running_def)
qed (blast intro: conc_step_ok)

section \<open>A request served alone\<close>

text \<open>
  The schedule \<open>between\<close> of theory \<open>Event_Loop\<close> plays no part here: it is empty, so that a
  worker that runs alone behaves as \<open>doRequest\<close> without interruptions.
\<close>

lemma finish_reply_between: "finish_reply r ip ans w = Inr (ans', w') \<Longrightarrow> between w' = between w"
  by (cases ans) (auto simp: finish_reply_def Let_def go_bind_Inr_iff split: option.splits)

lemma lookup_call_between: "lookup_call env Net r w = Inr (res, w') \<Longrightarrow> between w' = between w"
  by (clarsimp simp: lookup_call_def Let_def go_bind_Inr_iff) (auto split: sum.split_asm prod.split_asm)

lemma worker_step_between:
  assumes "worker_step env Net req pt wr w = Inr (pt', wr', w')"
  shows "between w' = between w"
  using assms finish_reply_between lookup_call_between
  by (cases pt) (fastforce simp: step_defs returning_step_def append_step_def cache_failure_def go_bind_Inr_iff Let_def alloc_msg_def
      split: option.splits list.splits if_splits prod.splits sum.splits nat.splits caller.splits bool.splits)+

lemma Server_Run_between: "Server_Run env config bc (s, w) = Inr (s', w') \<Longrightarrow> between w' = between w"
  by (auto simp: Server_Run_def go_bind_Inr_iff Let_def)

lemma reload_between:
  assumes "reloadBlockCache env p = Inr p'"
  shows "between (p_world p') = between (p_world p)"
  using assms by (cases rule: reloadBlockCache_cases) (auto dest: Server_Run_between)

lemma ReloadConfig_between: "ReloadConfig env config w = Inr w' \<Longrightarrow> between w' = between w"
  by (auto simp: ReloadConfig_def go_bind_Inr_iff)

lemma main_step_between: "main_step env configPath ev p = Inr p' \<Longrightarrow> between (p_world p') = between (p_world p)"
  by (cases ev) (auto simp: main_step_def reload_between dest: ReloadConfig_between elim!: reloadConfigFromFile_cases
      split: prod.splits option.splits)

lemma main_start_between:
  assumes "main_start env configPath now sched = Inr p"
  shows "between (p_world p) = sched"
  using assms by (cases rule: main_start_cases) (auto simp: main_world_def dest!: reload_between Server_Run_between)

lemma env_step_between: "between (env_step e w) = between w"
  by (cases e) (simp_all add: cache_goroutine_def split: prod.split)

lemma loop_world_between [simp]:
  "between (loop_world k s) = between (cc_world s)" "between (cc_world (put_world k w s)) = between w"
  by (simp_all add: loop_world_def put_world_def)

lemma conc_run_between: "conc_run compile configPath s \<Longrightarrow> between (cc_world s) = []"
proof (induction rule: conc_run.induct)
  case (goes_on s s')
  from goes_on(3,4) show ?case
    by (cases rule: conc_step.cases) (auto simp: env_step_between dest: main_step_between worker_step_between)
qed (simp add: main_start_between)

lemma runs_to_end:
  assumes "conc_run compile configPath s" and "\<not> p_exited (cc_process s)" and "i < length (cc_workers s)"
    and "cc_workers s ! i = wk" and "wk_loop wk = length (cc_old s)" and "wk_point wk = pt" and "wk_wr wk = wr"
    and "cc_world s = w" and "wk_net wk = Net" and "wk_req wk = req" and "run_worker lenv Net req pt wr w = Inr (wr', w')"
  shows "\<exists>s'. conc_run compile configPath s' \<and> conc_later compile configPath s s' \<and>
    cc_process s' = (cc_process s)\<lparr>p_world := w'\<rparr> \<and> cc_old s' = cc_old s \<and>
    cc_workers s' = (cc_workers s)[i := wk\<lparr>wk_point := Closed, wk_wr := wr'\<rparr>]"
  using assms
proof (induction lenv Net req pt wr w arbitrary: s wk rule: run_worker.induct)
  case (1 lenv Net req pt wr w)
  show ?case
  proof (cases "pt = Closed")
    case True
    then have "wr' = wr" "w' = w" using 1(12) by simp_all
    moreover have "wk\<lparr>wk_point := Closed, wk_wr := wr\<rparr> = wk" using True 1(7,8) by (cases wk) simp
    then have "(cc_workers s)[i := wk\<lparr>wk_point := Closed, wk_wr := wr\<rparr>] = cc_workers s"
      using 1(5) list_update_id by metis
    ultimately show ?thesis using 1(2,9) by (intro exI [of _ s]) (simp add: conc_later_def)
  next
    case False
    have y: "(if yields pt then yield w else w) = w" using conc_run_between [OF 1(2)] 1(9) by simp
    from False 1(12) y obtain pt1 wr1 w1 where st: "worker_step lenv Net req pt wr w = Inr (pt1, wr1, w1)"
      and run: "run_worker lenv Net req pt1 wr1 w1 = Inr (wr', w')"
      by (auto simp: run_step go_bind_Inr_iff)
    let ?wk = "wk\<lparr>wk_point := pt1, wk_wr := wr1\<rparr>"
    let ?s = "(put_world (wk_loop wk) w1 s)\<lparr>cc_workers := (cc_workers s)[i := ?wk]\<rparr>"
    have c: "conc_step compile configPath s ?s"
      using conc_step.works [OF 1(4) 1(5) [symmetric], of lenv pt1 wr1 w1] st 1(6-11) by (simp add: loop_world_def)
    from 1(2,3) c have s: "conc_run compile configPath ?s" by (rule conc_run.goes_on)
    have ps: "cc_process ?s = (cc_process s)\<lparr>p_world := w1\<rparr>" "cc_old ?s = cc_old s"
      using 1(6) by (simp_all add: put_world_def)
    have "\<exists>s'. conc_run compile configPath s' \<and> conc_later compile configPath ?s s' \<and>
        cc_process s' = (cc_process ?s)\<lparr>p_world := w'\<rparr> \<and> cc_old s' = cc_old ?s \<and> cc_workers s' = (cc_workers ?s)[i := ?wk\<lparr>wk_point := Closed, wk_wr := wr'\<rparr>]"
      by (rule 1(1) [OF False _ refl refl s]) (use st y ps run 1(3,4,6,10,11) in simp_all)
    moreover have "conc_later compile configPath s s'" if "conc_later compile configPath ?s s'" for s'
      using that c 1(3) unfolding conc_later_def by (metis (no_types, lifting) converse_rtranclp_into_rtranclp)
    ultimately show ?thesis by (auto simp: ps)
  qed
qed

lemma pool_serves_alone:
  assumes "conc_run compile configPath s" and "\<not> p_exited (cc_process s)"
    and "receive m (rrs (cc_world s)) = (req, h)" and "Question m \<noteq> []"
    and "running (length (cc_old s)) s < 100" and "w_written wr = []" and "\<not> w_closed wr"
    and "doRequest lenv Net wr req ((cc_world s)\<lparr>rrs := h\<rparr>) = Inr (wr', w')"
  shows "\<exists>s'. conc_run compile configPath s' \<and> cc_process s' = (cc_process s)\<lparr>p_world := w'\<rparr> \<and> cc_old s' = cc_old s \<and>
    cc_workers s' = cc_workers s @ [(start_worker Net req wr (length (cc_old s)))\<lparr>wk_point := Closed, wk_wr := wr'\<rparr>]"
proof -
  let ?wk = "start_worker Net req wr (length (cc_old s))"
  let ?s = "s\<lparr>cc_process := (cc_process s)\<lparr>p_world := (cc_world s)\<lparr>rrs := h\<rparr>\<rparr>, cc_workers := cc_workers s @ [?wk]\<rparr>"
  have "el_active (evl (cc_world s))" using conc_run_ok [OF assms(1)] by (simp add: conc_ok_def process_ok_def)
  with assms(3-7) have "conc_step compile configPath s ?s" by (intro conc_step.arrives)
  with assms(1,2) have run: "conc_run compile configPath ?s" by (rule conc_run.goes_on)
  have "run_worker lenv Net req (Begin ForRequest req) wr ((cc_world s)\<lparr>rrs := h\<rparr>) = Inr (wr', w')"
    using assms(8) by (simp add: run_worker_doRequest)
  from runs_to_end [OF run _ _ _ _ _ _ _ _ _ this, of "length (cc_workers s)" ?wk] assms(2) show ?thesis
    by (auto simp: start_worker_def)
qed

section \<open>A blocked name among other requests\<close>

lemma no_move_sealed:
  assumes "sealed x (cc_world (s :: 're concurrent)) pt wr" and "heap_ext (rrs (cc_world s)) (rrs (w :: 're world))" and "msgs w = msgs (cc_world s)"
  shows "sealed x w pt wr"
  by (rule sealed_grows [OF assms(1,2)]) (simp_all add: assms(3))

lemma works_sealed:
  assumes inv: "conc_ok compile s" and i: "i < length (cc_workers s)" "sealed x (cc_world s) (wk_point (cc_workers s ! i)) (wk_wr (cc_workers s ! i))"
    and x: "isA x" and j: "j < length (cc_workers s)" "wk = cc_workers s ! j"
    and step: "worker_step lenv (wk_net wk) (wk_req wk) (wk_point wk) (wk_wr wk) (loop_world (wk_loop wk) s) = Inr (pt, wr, w)"
  shows "case (cc_workers s)[j := wk\<lparr>wk_point := pt, wk_wr := wr\<rparr>] ! i of wk' \<Rightarrow> sealed x w (wk_point wk') (wk_wr wk')"
proof -
  let ?v = "loop_world (wk_loop wk) s"
  have "wk \<in> set (cc_workers s)" using j by simp
  note W = worker_world [OF inv this]
  have s: "sealed x ?v (wk_point (cc_workers s ! i)) (wk_wr (cc_workers s ! i))"
    by (rule no_move_sealed [OF i(2)]) simp_all
  show ?thesis
  proof (cases "i = j")
    case True
    then have "sealed x w pt wr"
      using sealed_step [OF step _ x] s W(5) j(2) by (simp add: writer_ok_def)
    with True j show ?thesis by simp
  next
    case False
    have k: "step_keeps (owned (wk_point wk)) ?v w"
      using worker_step_good [OF step W(2,3,4,5)] by (simp add: good_step_def)
    have "apart (cc_workers s)" using inv by (simp add: conc_ok_def)
    then have "owned (wk_point (cc_workers s ! i)) \<inter> owned (wk_point wk) = {}"
      using i(1) j False unfolding apart_def by blast
    then have "sealed x w (wk_point (cc_workers s ! i)) (wk_wr (cc_workers s ! i))"
      using k by (intro sealed_grows [OF s]) (auto simp: step_keeps_def)
    with False show ?thesis by simp
  qed
qed

lemma conc_step_sealed:
  assumes step: "conc_step compile configPath s s'" and inv: "conc_ok compile s" and x: "isA x"
    and i: "i < length (cc_workers s)" "sealed x (cc_world s) (wk_point (cc_workers s ! i)) (wk_wr (cc_workers s ! i))"
  shows "i < length (cc_workers s') \<and> sealed x (cc_world s') (wk_point (cc_workers s' ! i)) (wk_wr (cc_workers s' ! i))"
  using step
proof (cases rule: conc_step.cases)
  case (main_event env ev p')
  have "world_ok (cc_world s)" using inv by (simp add: conc_ok_def process_ok_def)
  from main_step_shared [OF main_event(4,2) this] no_move_sealed [OF i(2)] i(1) show ?thesis by (simp add: main_event(1))
next
  case (arrives m req h wr Net)
  have "heap_ext (rrs (cc_world s)) h" using receive_fresh [OF arrives(2)] by (auto simp: heap_ext_append)
  with no_move_sealed [OF i(2)] i(1) show ?thesis by (simp add: arrives(1) nth_append)
next
  case (works j wk lenv pt wr w)
  note S = works_sealed [OF inv i x works(2-4)]
  have "sealed x (cc_world (put_world (wk_loop wk) w s)) p r = sealed x w p r" for p r
    using sealed_grows [of x w p r "cc_world (put_world (wk_loop wk) w s)"] sealed_grows [of x "cc_world (put_world (wk_loop wk) w s)" p r w]
    by auto
  with S i(1) show ?thesis by (simp add: works(1))
next
  case (background_event k e)
  let ?w = "env_step e (loop_world k s)"
  have "world_ok (loop_world k s)" using inv background_event(2) by (simp add: conc_ok_def)
  then have "heap_ext (rrs (cc_world s)) (rrs ?w)" using env_step_ok [of "loop_world k s" e] by (simp add: ext_def)
  moreover have "msgs ?w = msgs (cc_world s)" by (cases e) (simp_all add: cache_goroutine_def split: prod.split)
  ultimately show ?thesis
    using no_move_sealed [OF i(2), of "cc_world (put_world k ?w s)"] i(1) by (simp add: background_event(1))
next
  case (api_call matches ord aenv meth url personal n resp st)
  with no_move_sealed [OF i(2)] i(1) show ?thesis by simp
qed

lemma blocked_step_seals:
  assumes "worker_step lenv Net req (CheckBlocked ForRequest r q ip) wr w = Inr (pt, wr', w')" and "isIPQuery q > 0"
    and "lengActive w" and "MemoryBlockCache_Exists (le_matches lenv) (UnFqdn (q_Name q)) (el_blockCache (evl w))"
    and "\<not> NXDomain (Blocking_config (el_config (evl w)))" and "Question r = q # qs"
    and x: "x = null_rr (q_Name q) (q_Qtype q) (TTL (el_config (evl w)))
      (if q_Qtype q = TypeA then RdA (ParseIP (Nullroute (Blocking_config (el_config (evl w)))))
       else RdAAAA (ParseIP (Nullroutev6 (Blocking_config (el_config (evl w))))))"
  shows "sealed x w' pt wr' \<and> isA x"
proof -
  have "blockedResponseFor (el_config (evl w)) r (isIPQuery q) (rrs w) = Inr (new_Msg\<lparr>Answer := [length (rrs w)]\<rparr>, rrs w @ [x])"
    using assms(5,6) ip_query_cases [OF assms(2)] by (auto simp: x blockedResponseFor_def Let_def)
  then have "pt = Deferred ForRequest r ip (Some (length (msgs w)), True, True, False)"
    "w' = w\<lparr>rrs := rrs w @ [x], msgs := msgs w @ [new_Msg\<lparr>Answer := [length (rrs w)]\<rparr>]\<rparr>"
    using assms(1-4) by (auto simp: worker_step_def go_quiet_Inr check_blocked_step_def question_key_def alloc_msg_def)
  moreover have "isA x" using ip_query_cases [OF assms(2)] by (auto simp: x isA_def null_rr_def)
  ultimately show ?thesis by (simp add: holds_only_def)
qed

section \<open>Properties\<close>

text \<open>
  C2. However the workers of any number of requests interleave with each other, with
  background goroutines, API requests, signals and reloads, a worker writes nothing before
  its end, and then exactly one reply: to its own request, with its id and question, with
  code NOERROR, or SERVFAIL and no answer. No two workers write to the same message, and no
  event loop ever has more than 100 of them running.
\<close>

theorem concurrent_replies_match:
  assumes run: "conc_run compile configPath s"
  shows "(\<forall>wk\<in>set (cc_workers s).
      if wk_point wk = Closed
      then w_closed (wk_wr wk) \<and> (\<exists>m. w_written (wk_wr wk) = [m] \<and> replies_to (wk_req wk) m \<and>
        (Rcode m = RcodeSuccess \<or> Rcode m = RcodeServerFailure \<and> Answer m = []))
      else \<not> w_closed (wk_wr wk) \<and> w_written (wk_wr wk) = []) \<and>
    apart (cc_workers s) \<and> (\<forall>k. running k s \<le> 100)"
  using conc_run_ok [OF run] by (simp add: conc_ok_def worker_ok_def writer_ok_def)


text \<open>
  C4. A blocked name stays blocked among any number of other requests: once a worker looks up
  an address question for a name that the block list of its event loop matches, then
  whatever other workers, background goroutines, API requests and reloads do afterwards,
  the reply it ends with has exactly one record, the configured null route for the asked name
  and type (up to its time to live).
\<close>

theorem concurrent_blocked_null_routed:
  assumes "conc_run compile configPath s" and "i < length (cc_workers s)" and "wk = cc_workers s ! i"
    and "wk_point wk = CheckBlocked ForRequest (wk_req wk) q ip" and "Question (wk_req wk) = q # qs" and "isIPQuery q > 0"
    and "w = loop_world (wk_loop wk) s"
    and "MemoryBlockCache_Exists (le_matches lenv) (UnFqdn (q_Name q)) (el_blockCache (evl w))"
    and "\<not> NXDomain (Blocking_config (el_config (evl w)))"
    and "worker_step lenv (wk_net wk) (wk_req wk) (wk_point wk) (wk_wr wk) w = Inr (pt, wr, w')"
    and "conc_later compile configPath
      ((put_world (wk_loop wk) w' s)\<lparr>cc_workers := (cc_workers s)[i := wk\<lparr>wk_point := pt, wk_wr := wr\<rparr>]\<rparr>) s'"
    and "wk_point (cc_workers s' ! i) = Closed"
  shows "\<exists>m a. w_written (wk_wr (cc_workers s' ! i)) = [m] \<and> Answer m = [a] \<and>
    set_Ttl 0 a = set_Ttl 0 (null_rr (q_Name q) (q_Qtype q) (TTL (el_config (evl w)))
      (if q_Qtype q = TypeA then RdA (ParseIP (Nullroute (Blocking_config (el_config (evl w)))))
       else RdAAAA (ParseIP (Nullroutev6 (Blocking_config (el_config (evl w)))))))"
proof -
  let ?s1 = "(put_world (wk_loop wk) w' s)\<lparr>cc_workers := (cc_workers s)[i := wk\<lparr>wk_point := pt, wk_wr := wr\<rparr>]\<rparr>"
  let ?x = "null_rr (q_Name q) (q_Qtype q) (TTL (el_config (evl w)))
      (if q_Qtype q = TypeA then RdA (ParseIP (Nullroute (Blocking_config (el_config (evl w)))))
       else RdAAAA (ParseIP (Nullroutev6 (Blocking_config (el_config (evl w))))))"
  have ok: "conc_ok compile s" using conc_run_ok [OF assms(1)] .
  then have "lengActive w" by (simp add: assms(7) conc_ok_def process_ok_def)
  then have x: "sealed ?x w' pt wr" "isA ?x"
    using blocked_step_seals [OF _ assms(6) _ assms(8,9,5) refl] assms(4,10) by auto
  have inv1: "conc_ok compile ?s1" using works_ok [OF ok assms(2,3)] assms(7,10) by blast
  have "sealed ?x (cc_world ?s1) pt wr" by (rule sealed_grows [OF x(1)]) simp_all
  then have seal1: "i < length (cc_workers ?s1) \<and> sealed ?x (cc_world ?s1) (wk_point (cc_workers ?s1 ! i)) (wk_wr (cc_workers ?s1 ! i))"
    using assms(2) by simp
  have "conc_ok compile s' \<and> i < length (cc_workers s') \<and>
      sealed ?x (cc_world s') (wk_point (cc_workers s' ! i)) (wk_wr (cc_workers s' ! i))"
    using assms(11) unfolding conc_later_def
  proof (induction rule: rtranclp_induct)
    case base
    with inv1 seal1 show ?case by blast
  next
    case (step t u)
    then show ?case using conc_step_ok conc_step_sealed [OF _ _ x(2)] by blast
  qed
  with assms(12) show ?thesis by (simp add: wrote_only_def)
qed

lemma ex_conc_run:
  "\<exists>s :: unit concurrent. conc_run (\<lambda>_. None) ''leng.toml'' s \<and> cc_workers s = [] \<and> length (cc_old s) = 1 \<and>
     \<not> p_exited (cc_process s) \<and> el_config (evl (cc_world s)) = ex_main_config \<and>
     el_customDns (evl (cc_world s)) = Map.empty \<and> lengActive (cc_world s) \<and>
     MemoryBlockCache_Exists (\<lambda>_ _. False) (UnFqdn ''example.com.'') (el_blockCache (evl (cc_world s)))"
proof -
  have env: "permutes_groups (me_ord ex_main_env)" "me_compile ex_main_env = (\<lambda>_. None)"
    using ex_permutes by (simp_all add: ex_main_env_def)
  obtain p where st: "main_start ex_main_env ''leng.toml'' 0 [] = Inr p" and cfg: "p_config p = ex_main_config"
    using ex_main_starts by blast
  let ?s = "\<lparr>cc_process = p, cc_old = [], cc_workers = []\<rparr>"
  have run: "conc_run (\<lambda>_. None) ''leng.toml'' ?s" using conc_run.starts_up [OF env st] .
  have ex: "\<not> p_exited p" using st by (cases rule: main_start_cases) (auto elim: reloadBlockCache_cases)
  have "el_active (evl (p_world p))" using conc_run_ok [OF run] by (simp add: conc_ok_def process_ok_def)
  then obtain p' where r: "reloadBlockCache ex_main_env p = Inr p'" "p_config p' = ex_main_config"
    "el_customDns (evl (p_world p')) = Map.empty"
    using ex_reload [OF cfg] by blast
  let ?s' = "?s\<lparr>cc_process := p', cc_old := retire_loop ReloadRequested ?s\<rparr>"
  have "conc_step (\<lambda>_. None) ''leng.toml'' ?s ?s'"
    using conc_step.main_event [OF env, of "''leng.toml''" ReloadRequested ?s p'] r(1) by (simp add: main_step_def)
  with run ex have run': "conc_run (\<lambda>_. None) ''leng.toml'' ?s'" by (auto intro: conc_run.goes_on)
  have ok: "process_ok (\<lambda>_. None) p'" using conc_run_ok [OF run'] by (simp add: conc_ok_def)
  have ex': "\<not> p_exited p'" using r(1) ex by (auto elim: reloadBlockCache_cases)
  have k: "plain_key ''example.com''" "ToLower (UnFqdn ''example.com.'') = ToLower ''example.com''" by code_simp+
  have "MemoryBlockCache_Exists (me_matches ex_main_env) (UnFqdn ''example.com.'') (p_blockCache p')"
    using reload_blocks [OF r(1) _ k] by (simp add: cfg ex_main_config_def)
  then have "MemoryBlockCache_Exists (\<lambda>_ _. False) (UnFqdn ''example.com.'') (el_blockCache (evl (p_world p')))"
    using ok by (simp add: ex_main_env_def process_ok_def)
  with run' r ex' ok show ?thesis by (intro exI [of _ ?s']) (simp add: retire_loop_def process_ok_def)
qed

lemma ex_null_route:
  assumes "el_config (evl w) = ex_main_config" and "el_customDns (evl w) = Map.empty" and "lengActive (w :: unit world)"
    and "MemoryBlockCache_Exists (\<lambda>_ _. False) (UnFqdn ''example.com.'') (el_blockCache (evl w))"
    and "receive (wire [] ex_request) h = (req, h')"
  shows "\<exists>wr' w'. doRequest (ex_leng (\<lambda>_. ex_env None (\<lambda>_. ExErr) [])) ''udp'' ex_writer req w = Inr (wr', w')"
proof -
  have q: "Question req = [\<lparr>q_Name = ''example.com.'', q_Qtype = TypeA, q_Qclass = ClassINET\<rparr>]"
    using receive_fields [OF assms(5)] ex_request_Question by simp
  have "\<not> NXDomain (Blocking_config (el_config (evl w)))"
    by (simp add: assms(1) ex_main_config_def parseDefaultConfig_def)
  with doRequest_null_route [OF q ex_writer_fits, of w "ex_leng (\<lambda>_. ex_env None (\<lambda>_. ExErr) [])"] assms(2-4) show ?thesis
    by (fastforce simp: no_custom ex_isIPQuery ex_leng_def)
qed

lemma ex_conc_request:
  "\<exists>(s :: unit concurrent) req h wr' w'. conc_run (\<lambda>_. None) ''leng.toml'' s \<and> cc_workers s = [] \<and> \<not> p_exited (cc_process s) \<and>
     receive (wire [] ex_request) (rrs (cc_world s)) = (req, h) \<and> running (length (cc_old s)) s < 100 \<and>
     doRequest (ex_leng (\<lambda>_. ex_env None (\<lambda>_. ExErr) [])) ''udp'' ex_writer req ((cc_world s)\<lparr>rrs := h\<rparr>) = Inr (wr', w')"
proof -
  obtain s :: "unit concurrent" where s: "conc_run (\<lambda>_. None) ''leng.toml'' s" "cc_workers s = []" "\<not> p_exited (cc_process s)"
    and w: "el_config (evl (cc_world s)) = ex_main_config" "el_customDns (evl (cc_world s)) = Map.empty" "lengActive (cc_world s)"
      "MemoryBlockCache_Exists (\<lambda>_ _. False) (UnFqdn ''example.com.'') (el_blockCache (evl (cc_world s)))"
    using ex_conc_run by blast
  obtain req h where rc: "receive (wire [] ex_request) (rrs (cc_world s)) = (req, h)" by fastforce
  have "\<exists>wr' w'. doRequest (ex_leng (\<lambda>_. ex_env None (\<lambda>_. ExErr) [])) ''udp'' ex_writer req ((cc_world s)\<lparr>rrs := h\<rparr>) = Inr (wr', w')"
    using ex_null_route [of "(cc_world s)\<lparr>rrs := h\<rparr>", OF _ _ _ _ rc] w by auto
  moreover have "running (length (cc_old s)) s < 100" using s(2) by (simp add: running_def)
  ultimately show ?thesis using s rc by blast
qed

lemma ex_arrival: "Question (wire [] ex_request) \<noteq> []" "w_written ex_writer = []" "\<not> w_closed ex_writer"
  using ex_request_Question by (simp_all add: ex_writer_def)

theorem concurrent_replies_match_witness:
  "\<exists>s :: unit concurrent. conc_run (\<lambda>_. None) ''leng.toml'' s \<and>
     (\<exists>wk1 wk2 m. cc_workers s = [wk1, wk2] \<and> wk_point wk1 = Closed \<and> w_written (wk_wr wk1) = [m] \<and>
        replies_to (wk_req wk1) m \<and> w_written (wk_wr wk2) = [])"
proof -
  obtain s :: "unit concurrent" and req h wr' w' where s: "conc_run (\<lambda>_. None) ''leng.toml'' s" "cc_workers s = []"
      "\<not> p_exited (cc_process s)" "receive (wire [] ex_request) (rrs (cc_world s)) = (req, h)" "running (length (cc_old s)) s < 100"
      "doRequest (ex_leng (\<lambda>_. ex_env None (\<lambda>_. ExErr) [])) ''udp'' ex_writer req ((cc_world s)\<lparr>rrs := h\<rparr>) = Inr (wr', w')"
    using ex_conc_request by blast
  let ?wk = "(start_worker ''udp'' req ex_writer (length (cc_old s)))\<lparr>wk_point := Closed, wk_wr := wr'\<rparr>"
  obtain s1 where r1: "conc_run (\<lambda>_. None) ''leng.toml'' s1" "cc_workers s1 = cc_workers s @ [?wk]"
      "cc_process s1 = (cc_process s)\<lparr>p_world := w'\<rparr>"
    using pool_serves_alone [OF s(1,3,4) ex_arrival(1) s(5) ex_arrival(2,3) s(6)] by blast
  define wk where "wk = ?wk"
  have s1: "conc_run (\<lambda>_. None) ''leng.toml'' s1" "cc_workers s1 = [wk]" "wk_point wk = Closed" "\<not> p_exited (cc_process s1)"
    using r1 s(2,3) by (simp_all add: wk_def)
  obtain req2 h2 where rc2: "receive (wire [] ex_request) (rrs (cc_world s1)) = (req2, h2)" by fastforce
  let ?wk2 = "start_worker ''udp'' req2 ex_writer (length (cc_old s1))"
  let ?s2 = "s1\<lparr>cc_process := (cc_process s1)\<lparr>p_world := (cc_world s1)\<lparr>rrs := h2\<rparr>\<rparr>, cc_workers := cc_workers s1 @ [?wk2]\<rparr>"
  have "el_active (evl (cc_world s1))" using conc_run_ok [OF s1(1)] by (simp add: conc_ok_def process_ok_def)
  then have "conc_step (\<lambda>_. None) ''leng.toml'' s1 ?s2"
    using s1(2,3) ex_arrival by (intro conc_step.arrives [OF rc2]) (simp_all add: running_def)
  with s1(1,4) have run: "conc_run (\<lambda>_. None) ''leng.toml'' ?s2" by (rule conc_run.goes_on)
  have two: "cc_workers ?s2 = [wk, ?wk2]" by (simp add: s1(2))
  have "\<exists>m. w_written (wk_wr wk) = [m] \<and> replies_to (wk_req wk) m"
    using concurrent_replies_match [OF run] s1(3) unfolding two by auto
  moreover have "w_written (wk_wr ?wk2) = []"
    using concurrent_replies_match [OF run] unfolding two by (simp add: start_worker_def)
  ultimately show ?thesis using run two s1(3) by blast
qed

lemma ex_blocked_path:
  assumes run: "conc_run (\<lambda>_. None) ''leng.toml'' (s :: unit concurrent)" "cc_workers s = []" "\<not> p_exited (cc_process s)"
    and nc: "el_customDns (evl (cc_world s)) = Map.empty"
    and rc: "receive (wire [] ex_request) (rrs (cc_world s)) = (req, h)"
    and d: "doRequest lenv ''udp'' ex_writer req ((cc_world s)\<lparr>rrs := h\<rparr>) = Inr (wr', w')"
    and q: "Question req = [q]"
  shows "\<exists>(s1 :: unit concurrent) wk ip pt wr2 w2. conc_run (\<lambda>_. None) ''leng.toml'' s1 \<and> cc_workers s1 = [wk] \<and> wk_req wk = req \<and>
    wk_loop wk = length (cc_old s1) \<and> wk_net wk = ''udp'' \<and> \<not> p_exited (cc_process s1) \<and>
    wk_point wk = CheckBlocked ForRequest req q ip \<and> evl (cc_world s1) = evl (cc_world s) \<and>
    worker_step lenv ''udp'' req (wk_point wk) (wk_wr wk) (cc_world s1) = Inr (pt, wr2, w2) \<and>
    run_worker lenv ''udp'' req pt wr2 w2 = Inr (wr', w')"
proof -
  let ?w = "(cc_world s)\<lparr>rrs := h\<rparr>" and ?wk = "start_worker ''udp'' req ex_writer (length (cc_old s))"
  let ?s0 = "s\<lparr>cc_process := (cc_process s)\<lparr>p_world := ?w\<rparr>, cc_workers := cc_workers s @ [?wk]\<rparr>"
  have "el_active (evl (cc_world s))" using conc_run_ok [OF run(1)] by (simp add: conc_ok_def process_ok_def)
  then have "conc_step (\<lambda>_. None) ''leng.toml'' s ?s0"
    using run(2) ex_arrival by (intro conc_step.arrives [OF rc]) (simp_all add: running_def)
  with run(1,3) have s0: "conc_run (\<lambda>_. None) ''leng.toml'' ?s0" by (rule conc_run.goes_on)
  obtain ip where ip: "remote_ip ''udp'' (w_remote ex_writer) = Inr ip" using ex_writer_fits by blast
  have b: "worker_step lenv ''udp'' req (Begin ForRequest req) ex_writer ?w = Inr (CheckBlocked ForRequest req q ip, ex_writer, ?w)"
    using ip q nc by (simp add: worker_step_def go_quiet_def quiet_def begin_step_def Resolve_None no_custom)
  let ?s1 = "(put_world (wk_loop ?wk) ?w ?s0)\<lparr>cc_workers := (cc_workers ?s0)[0 := ?wk\<lparr>wk_point := CheckBlocked ForRequest req q ip, wk_wr := ex_writer\<rparr>]\<rparr>"
  have "conc_step (\<lambda>_. None) ''leng.toml'' ?s0 ?s1"
    using conc_step.works [of 0 ?s0 ?wk lenv "CheckBlocked ForRequest req q ip" ex_writer ?w] b run(2)
    by (simp add: start_worker_def loop_world_def)
  with s0 run(3) have s1: "conc_run (\<lambda>_. None) ''leng.toml'' ?s1" by (auto intro: conc_run.goes_on)
  have y: "yield ?w = ?w" using conc_run_between [OF run(1)] by simp
  have "run_worker lenv ''udp'' req (CheckBlocked ForRequest req q ip) ex_writer ?w = Inr (wr', w')"
    using d b unfolding run_worker_doRequest [symmetric] by (simp add: run_step [of "Begin ForRequest req"])
  then obtain pt wr2 w2 where "worker_step lenv ''udp'' req (CheckBlocked ForRequest req q ip) ex_writer ?w = Inr (pt, wr2, w2)"
    "run_worker lenv ''udp'' req pt wr2 w2 = Inr (wr', w')"
    by (auto simp: run_step [of "CheckBlocked ForRequest req q ip"] y go_bind_Inr_iff)
  with s1 run(2,3) show ?thesis
    by (intro exI [of _ ?s1] exI [of _ "?wk\<lparr>wk_point := CheckBlocked ForRequest req q ip, wk_wr := ex_writer\<rparr>"] exI [of _ ip]
        exI [of _ pt] exI [of _ wr2] exI [of _ w2])
      (simp add: start_worker_def put_world_def)
qed


theorem concurrent_blocked_null_routed_witness:
  "\<exists>(s1 :: unit concurrent) (s' :: unit concurrent) m. conc_run (\<lambda>_. None) ''leng.toml'' s1 \<and>
     wk_point (cc_workers s' ! 0) = Closed \<and> w_written (wk_wr (cc_workers s' ! 0)) = [m] \<and> length (Answer m) = 1"
proof -
  let ?lenv = "ex_leng (\<lambda>_. ex_env None (\<lambda>_. ExErr) [])" and ?q = "\<lparr>q_Name = ''example.com.'', q_Qtype = TypeA, q_Qclass = ClassINET\<rparr>"
  obtain s :: "unit concurrent" where s: "conc_run (\<lambda>_. None) ''leng.toml'' s" "cc_workers s = []" "\<not> p_exited (cc_process s)"
    and w: "el_config (evl (cc_world s)) = ex_main_config" "el_customDns (evl (cc_world s)) = Map.empty" "lengActive (cc_world s)"
      "MemoryBlockCache_Exists (\<lambda>_ _. False) (UnFqdn ''example.com.'') (el_blockCache (evl (cc_world s)))"
    using ex_conc_run by blast
  obtain req h where rc: "receive (wire [] ex_request) (rrs (cc_world s)) = (req, h)" by fastforce
  have q: "Question req = [?q]" using receive_fields [OF rc] ex_request_Question by simp
  obtain wr' w' where d: "doRequest ?lenv ''udp'' ex_writer req ((cc_world s)\<lparr>rrs := h\<rparr>) = Inr (wr', w')"
    using ex_null_route [of "(cc_world s)\<lparr>rrs := h\<rparr>", OF _ _ _ _ rc] w by auto
  from ex_blocked_path [OF s w(2) rc d q] obtain s1 :: "unit concurrent" and wk ip pt wr2 w2 where
    s1: "conc_run (\<lambda>_. None) ''leng.toml'' s1" "cc_workers s1 = [wk]" "wk_req wk = req" "wk_loop wk = length (cc_old s1)"
      "wk_net wk = ''udp''" "\<not> p_exited (cc_process s1)" "wk_point wk = CheckBlocked ForRequest req ?q ip"
      "evl (cc_world s1) = evl (cc_world s)"
    and st: "worker_step ?lenv ''udp'' req (wk_point wk) (wk_wr wk) (cc_world s1) = Inr (pt, wr2, w2)"
    and run: "run_worker ?lenv ''udp'' req pt wr2 w2 = Inr (wr', w')"
    by blast
  have lw: "loop_world (wk_loop wk) s1 = cc_world s1" using s1(4) by (simp add: loop_world_def)
  have i: "0 < length (cc_workers s1)" "wk = cc_workers s1 ! 0" using s1(2) by simp_all
  have st': "worker_step ?lenv (wk_net wk) (wk_req wk) (wk_point wk) (wk_wr wk) (cc_world s1) = Inr (pt, wr2, w2)"
    using st s1(3,5) by simp
  let ?wk2 = "wk\<lparr>wk_point := pt, wk_wr := wr2\<rparr>"
  let ?s2 = "(put_world (wk_loop wk) w2 s1)\<lparr>cc_workers := (cc_workers s1)[0 := ?wk2]\<rparr>"
  have "conc_step (\<lambda>_. None) ''leng.toml'' s1 ?s2"
    by (rule conc_step.works [OF i]) (use st' lw in simp)
  with s1(1,6) have r2: "conc_run (\<lambda>_. None) ''leng.toml'' ?s2" by (rule conc_run.goes_on)
  obtain s' where s': "conc_later (\<lambda>_. None) ''leng.toml'' ?s2 s'"
    "cc_workers s' = (cc_workers ?s2)[0 := ?wk2\<lparr>wk_point := Closed, wk_wr := wr'\<rparr>]"
    using runs_to_end [OF r2 _ _ _ _ _ _ _ _ _ run, of 0 ?wk2] s1(2-6) by (auto simp: put_world_def)
  have pt: "wk_point wk = CheckBlocked ForRequest (wk_req wk) ?q ip" "Question (wk_req wk) = [?q]" using s1(3,7) q by simp_all
  have b: "MemoryBlockCache_Exists (le_matches ?lenv) (UnFqdn (q_Name ?q)) (el_blockCache (evl (cc_world s1)))"
    using w(4) s1(8) by (simp add: ex_leng_def)
  have n: "\<not> NXDomain (Blocking_config (el_config (evl (cc_world s1))))"
    using w(1) s1(8) by (simp add: ex_main_config_def parseDefaultConfig_def)
  have c: "wk_point (cc_workers s' ! 0) = Closed" using s'(2) s1(2) by simp
  have "isIPQuery ?q > 0" by (simp add: ex_isIPQuery)
  from concurrent_blocked_null_routed [OF s1(1) i pt this lw [symmetric] b n st' s'(1) c]
  have "\<exists>m. w_written (wk_wr (cc_workers s' ! 0)) = [m] \<and> length (Answer m) = 1" by auto
  with s1(1) c show ?thesis by blast
qed

end
