(* ===== verification/Dns_Names.thy ===== *)
theory Dns_Names
  imports Rr_Text
begin

text \<open>
  Domain names on the wire: \<open>packDomainName\<close> and \<open>UnpackDomainName\<close> of src/vendor/github.com/miekg/dns,
  through which every name that leng receives or sends goes. A name in memory is text in
  which a dot ends a label and special bytes are escaped; on the wire it is a sequence of
  counted labels, and may end with a pointer to a name elsewhere in the message.

  A packer writes into a buffer of length \<open>cap\<close>; the bytes before its offset are a list, and
  writing at the offset appends to it. Messages of leng are not compressed (no code sets
  \<open>Compress\<close>), so \<open>packDomainName\<close> is modelled without its compression map. The library
  removes escapes by shifting the rest of the name to the left; here they are read in place.
\<close>

datatype wire_error =
    ErrBuf | ErrFqdn | ErrRdata | ErrLongDomain | TooManyPointers | WireOverflow
  | BadRdlength | ErrRcode | ErrExtendedRcode | SliceBounds

definition byte_of_char :: "char \<Rightarrow> byte" where
  "byte_of_char c = of_nat (of_char c)"

definition char_of_byte :: "byte \<Rightarrow> char" where
  "char_of_byte b = char_of (unat b)"

section \<open>Packing\<close>

text \<open>
  The loop of \<open>packDomainName\<close>: the rest of the name, the bytes of the current label, whether
  the last byte was a dot, whether this is the first byte.
\<close>

function pack_labels :: "nat \<Rightarrow> string \<Rightarrow> byte list \<Rightarrow> bool \<Rightarrow> bool \<Rightarrow> byte list \<Rightarrow> wire_error + byte list" where
  "pack_labels cap [] label wasDot first out = Inr out"
| "pack_labels cap (c # s) label wasDot first out =
     (if c = backslash then
        (if length out + 1 > cap then Inl ErrBuf
         else if isDDD s then pack_labels cap (drop 3 s) (label @ [byte_of_char (dddToByte s)]) False False out
         else (case s of [] \<Rightarrow> Inr out | d # s \<Rightarrow> pack_labels cap s (label @ [byte_of_char d]) False False out))
      else if c = CHR ''.'' then
        (if first \<and> s \<noteq> [] then Inl ErrRdata
         else if wasDot then Inl ErrRdata
         else if length label \<ge> 64 then Inl ErrRdata
         else if length out + 1 + length label > cap then Inl ErrBuf
         else pack_labels cap s [] True False (out @ of_nat (length label) # label))
      else pack_labels cap s (label @ [byte_of_char c]) False False out)"
  by pat_completeness auto
termination
  by (relation "measure (\<lambda>(cap, s, label, wasDot, first, out). length s)") auto

text \<open>The final zero is written, or counted only, when the buffer is full.\<close>

definition packDomainName :: "nat \<Rightarrow> string \<Rightarrow> byte list \<Rightarrow> wire_error + byte list" where
  "packDomainName cap s out =
     (if s = [] then Inr out
      else if \<not> IsFqdn s then Inl ErrFqdn
      else case pack_labels cap s [] False True out of
        Inl e \<Rightarrow> Inl e
      | Inr out \<Rightarrow> if s = ''.'' then Inr out else Inr (out @ [0]))"

function escapedNameLen :: "string \<Rightarrow> nat" where
  "escapedNameLen [] = 0"
| "escapedNameLen (c # s) =
     (if c \<noteq> backslash then Suc (escapedNameLen s)
      else if isDDD s then Suc (escapedNameLen (drop 3 s))
      else (case s of [] \<Rightarrow> 0 | d # s \<Rightarrow> Suc (escapedNameLen s)))"
  by pat_completeness auto
termination
  by (relation "measure length") auto

definition domainNameLen :: "string \<Rightarrow> nat" where
  "domainNameLen s =
     (if s = [] \<or> s = ''.'' then 1
      else if backslash \<in> set s then escapedNameLen s + 1
      else length s + 1)"

section \<open>Unpacking\<close>

abbreviation (input) "maxDomainNameWireOctets \<equiv> (255 :: nat)"
abbreviation (input) "maxCompressionPointers \<equiv> (126 :: nat)"

definition present_byte :: "byte \<Rightarrow> string" where
  "present_byte b = (let c = char_of_byte b in
     if isDomainNameLabelSpecial c then [backslash, c]
     else if b < 32 \<or> b > 126 then escapeByte c
     else [c])"

definition present_label :: "byte list \<Rightarrow> string" where
  "present_label l = concat (map present_byte l)"

text \<open>
  The loop of \<open>UnpackDomainName\<close>: the offset, the octets that the name may still have, the
  pointers followed, the offset after the first pointer, and the text so far. It ends
  because a label uses up some of the budget and a pointer is counted.
\<close>

unbundle bit_operations_syntax

function unpack_labels :: "byte list \<Rightarrow> nat \<Rightarrow> nat \<Rightarrow> nat \<Rightarrow> nat \<Rightarrow> string \<Rightarrow> wire_error + string \<times> nat" where
  "unpack_labels m off budget ptr off1 s =
     (if off \<ge> length m then Inl ErrBuf
      else let c = unat (m ! off); kind = m ! off AND 0xC0 in
        if kind = 0 then
          (if c = 0 then Inr (if s = [] then ''.'' else s, if ptr = 0 then off + 1 else off1)
           else if off + 1 + c > length m then Inl ErrBuf
           else if budget \<le> c + 1 then Inl ErrLongDomain
           else unpack_labels m (off + 1 + c) (budget - (c + 1)) ptr off1
                  (s @ present_label (take c (drop (off + 1) m)) @ ''.''))
        else if kind = 0xC0 then
          (if off + 1 \<ge> length m then Inl ErrBuf
           else if ptr + 1 > maxCompressionPointers then Inl TooManyPointers
           else unpack_labels m (unat ((m ! off) XOR 0xC0) * 256 + unat (m ! (off + 1))) budget (ptr + 1)
                  (if ptr = 0 then off + 2 else off1) s)
        else Inl ErrRdata)"
  by pat_completeness auto
termination
  by (relation "measure (\<lambda>(m, off, budget, ptr, off1, s). budget + (126 - ptr))") auto

declare unpack_labels.simps [simp del]

definition UnpackDomainName :: "byte list \<Rightarrow> nat \<Rightarrow> wire_error + string \<times> nat" where
  "UnpackDomainName m off = unpack_labels m off maxDomainNameWireOctets 0 0 []"

section \<open>Names as lists of labels\<close>

text \<open>The contract of both directions: a name is a list of labels.\<close>

definition present_name :: "byte list list \<Rightarrow> string" where
  "present_name ls = (if ls = [] then ''.'' else concat (map (\<lambda>l. present_label l @ ''.'') ls))"

definition wire_labels :: "byte list list \<Rightarrow> byte list" where
  "wire_labels ls = concat (map (\<lambda>l. of_nat (length l) # l) ls)"

definition wire_name :: "byte list list \<Rightarrow> byte list" where
  "wire_name ls = wire_labels ls @ [0]"

definition name_octets :: "byte list list \<Rightarrow> nat" where
  "name_octets ls = sum_list (map (\<lambda>l. length l + 1) ls)"

definition name_ok :: "byte list list \<Rightarrow> bool" where
  "name_ok ls \<longleftrightarrow> list_all (\<lambda>l. 0 < length l \<and> length l < 64) ls \<and> name_octets ls < 255"

text \<open>The text of a name as the unpacker writes it.\<close>

definition canonical :: "string \<Rightarrow> bool" where
  "canonical s \<longleftrightarrow> (\<exists>ls. name_ok ls \<and> s = present_name ls)"

lemma length_wire_labels: "length (wire_labels ls) = name_octets ls"
  by (induction ls) (simp_all add: wire_labels_def name_octets_def)

lemma length_wire_name: "length (wire_name ls) = name_octets ls + 1"
  by (simp add: wire_name_def length_wire_labels)

lemma unat_byte: "unat (b :: byte) < 256"
  using unsigned_less [of b, where ?'a = nat] by simp

lemma char_of_byte_inverse [simp]: "byte_of_char (char_of_byte b) = b"
  using unat_byte [of b] by (simp add: byte_of_char_def char_of_byte_def)

lemma of_char_byte: "(of_char (char_of_byte b) :: nat) = unat b"
  using unat_byte [of b] by (simp add: char_of_byte_def)

lemma digit_isDigit: "n < 10 \<Longrightarrow> isDigit (digit n)"
  by (simp add: isDigit_def dec_value_def digit_def Let_def)

lemma of_char_digit: "n < 10 \<Longrightarrow> (of_char (digit n) :: nat) = 48 + n"
  by (simp add: digit_def)

lemma escapeByte_digits:
  "\<exists>x y z. escapeByte c = [backslash, x, y, z] \<and> isDDD (x # y # z # s) \<and> dddToByte (x # y # z # s) = c"
proof -
  define n where "n = (of_char c :: nat)"
  have n: "n < 256" "char_of n = c" by (simp_all add: n_def)
  then have b: "n div 100 < 10" "n div 10 mod 10 < 10" "n mod 10 < 10" by auto
  have e: "escapeByte c = [backslash, digit (n div 100), digit (n div 10 mod 10), digit (n mod 10)]"
    by (simp add: escapeByte_def n_def Let_def)
  have "n div 100 = n div 10 div 10" by (simp add: div_mult2_eq [symmetric])
  then have "n div 100 * 100 + n div 10 mod 10 * 10 + n mod 10 = n"
    using div_mult_mod_eq [of n 10] div_mult_mod_eq [of "n div 10" 10] by linarith
  then have "dddToByte (digit (n div 100) # digit (n div 10 mod 10) # digit (n mod 10) # s) = c"
    using n b by (simp add: dddToByte_def of_char_digit)
  moreover have "isDDD (digit (n div 100) # digit (n div 10 mod 10) # digit (n mod 10) # s)"
    using b by (simp add: isDDD_def digit_isDigit)
  ultimately show ?thesis using e by blast
qed

lemma special_not_digit: "isDomainNameLabelSpecial c \<Longrightarrow> \<not> isDDD (c # s)"
  by (auto simp: isDomainNameLabelSpecial_def isDDD_def isDigit_def dec_value_def)

text \<open>Each byte is one of an escaped special, three digits, or itself.\<close>

lemma present_byte_cases:
  obtains (special) "present_byte b = [backslash, char_of_byte b]" "isDomainNameLabelSpecial (char_of_byte b)"
  | (digits) "present_byte b = escapeByte (char_of_byte b)" "\<not> isDomainNameLabelSpecial (char_of_byte b)"
  | (plain) "present_byte b = [char_of_byte b]" "\<not> isDomainNameLabelSpecial (char_of_byte b)"
  by (cases "isDomainNameLabelSpecial (char_of_byte b)"; cases "b < 32 \<or> b > 126") (auto simp: present_byte_def)

lemma pack_byte:
  assumes "length out < cap"
  shows "pack_labels cap (present_byte b @ s) label wd first out = pack_labels cap s (label @ [b]) False False out"
proof (cases b rule: present_byte_cases)
  case special
  with assms special_not_digit [OF special(2), of s] show ?thesis by simp
next
  case digits
  from escapeByte_digits [of "char_of_byte b" s] obtain x y z where
    "present_byte b @ s = backslash # x # y # z # s" "isDDD (x # y # z # s)" "dddToByte (x # y # z # s) = char_of_byte b"
    using digits(1) by auto
  with assms show ?thesis by simp
next
  case plain
  then have "char_of_byte b \<noteq> backslash" "char_of_byte b \<noteq> CHR ''.''" by (auto simp: isDomainNameLabelSpecial_def)
  with plain show ?thesis by simp
qed

lemma pack_label:
  assumes "length out < cap"
  shows "l \<noteq> [] \<Longrightarrow> pack_labels cap (present_label l @ s) label wd first out = pack_labels cap s (label @ l) False False out"
proof (induction l arbitrary: label wd first)
  case (Cons b l)
  show ?case
  proof (cases "l = []")
    case True
    then show ?thesis using pack_byte [OF assms, of b s] by (simp add: present_label_def)
  next
    case False
    then show ?thesis
      using Cons.IH [OF False] pack_byte [OF assms, of b "present_label l @ s"] by (simp add: present_label_def)
  qed
qed simp

lemma pack_labels_wire:
  "list_all (\<lambda>l. 0 < length l \<and> length l < 64) ls \<Longrightarrow> length out + name_octets ls \<le> cap \<Longrightarrow>
   pack_labels cap (concat (map (\<lambda>l. present_label l @ ''.'') ls)) [] wd first out = Inr (out @ wire_labels ls)"
proof (induction ls arbitrary: wd first out)
  case (Cons l ls)
  let ?s = "concat (map (\<lambda>l. present_label l @ ''.'') ls)"
  have l: "l \<noteq> []" "length l < 64" "length out < cap" "length out + 1 + length l + name_octets ls \<le> cap"
    using Cons.prems by (auto simp: name_octets_def)
  have "pack_labels cap (present_label l @ ''.'' @ ?s) [] wd first out = pack_labels cap (''.'' @ ?s) l False False out"
    using pack_label [OF l(3,1), of "''.'' @ ?s" "[]"] by simp
  also have "\<dots> = pack_labels cap ?s [] True False (out @ of_nat (length l) # l)" using l by simp
  also have "\<dots> = Inr ((out @ of_nat (length l) # l) @ wire_labels ls)" using Cons l by (intro Cons.IH) simp_all
  finally show ?case by (simp add: wire_labels_def)
qed (simp add: wire_labels_def)

text \<open>The dot at the end of a presented name is never escaped.\<close>

lemma trailing_app:
  "trailing_backslashes (s @ [c]) = (if c = backslash then Suc (trailing_backslashes s) else 0)"
  by (simp add: trailing_backslashes_def)

lemma trailing_byte:
  assumes "even (trailing_backslashes s)"
  shows "even (trailing_backslashes (s @ present_byte b))"
proof (cases b rule: present_byte_cases)
  case special
  then have "s @ present_byte b = (s @ [backslash]) @ [char_of_byte b]" by simp
  then show ?thesis using assms unfolding trailing_app by (simp only: trailing_app) simp
next
  case digits
  from escapeByte_digits [of "char_of_byte b" "[]"] obtain x y z where
    e: "escapeByte (char_of_byte b) = [backslash, x, y, z]" "isDDD [x, y, z]" by blast
  then have "z \<noteq> backslash" by (auto simp: isDDD_def isDigit_def dec_value_def)
  then show ?thesis using digits(1) e(1) trailing_app [of "s @ [backslash, x, y]" z] by simp
next
  case plain
  then have "char_of_byte b \<noteq> backslash" by (auto simp: isDomainNameLabelSpecial_def)
  then show ?thesis using plain(1) trailing_app [of s "char_of_byte b"] by simp
qed

lemma trailing_label: "even (trailing_backslashes (s @ ''.'' @ present_label l))" "even (trailing_backslashes (present_label l))"
proof -
  have *: "even (trailing_backslashes (t @ present_label l))" if "even (trailing_backslashes t)" for t
    using that
  proof (induction l rule: rev_induct)
    case (snoc b l)
    then show ?case using trailing_byte [of "t @ present_label l" b] by (simp add: present_label_def)
  qed (simp add: present_label_def)
  have "trailing_backslashes (s @ ''.'') = 0" "trailing_backslashes [] = 0" by (simp_all add: trailing_backslashes_def)
  then show "even (trailing_backslashes (s @ ''.'' @ present_label l))" "even (trailing_backslashes (present_label l))"
    using * [of "s @ ''.''"] * [of "[]"] by simp_all
qed

lemma IsFqdn_dot: "even (trailing_backslashes s) \<Longrightarrow> IsFqdn (s @ ''.'')"
  by (simp add: IsFqdn_def)

lemma IsFqdn_present: "IsFqdn (present_name ls)"
proof (cases ls rule: rev_cases)
  case Nil
  then show ?thesis by (simp add: present_name_def IsFqdn_def)
next
  case (snoc ks l)
  let ?t = "concat (map (\<lambda>l. present_label l @ ''.'') ks)"
  have "even (trailing_backslashes (?t @ present_label l))"
  proof (cases ks rule: rev_cases)
    case Nil
    then show ?thesis using trailing_label(2) by simp
  next
    case (snoc ks' k)
    then show ?thesis
      using trailing_label(1) [of "concat (map (\<lambda>l. present_label l @ ''.'') ks') @ present_label k" l] by simp
  qed
  from IsFqdn_dot [OF this] show ?thesis using snoc by (simp add: present_name_def)
qed

text \<open>Only the root is presented as a single dot.\<close>

lemma present_byte_not_Nil [simp]: "present_byte b \<noteq> []"
  by (cases b rule: present_byte_cases) (auto simp: escapeByte_def Let_def)

lemma present_label_Nil [simp]: "present_label l = [] \<longleftrightarrow> l = []"
  by (cases l) (simp_all add: present_label_def)

lemma present_name_not_root:
  assumes "name_ok ls" and "ls \<noteq> []"
  shows "present_name ls \<noteq> ''.''" "present_name ls \<noteq> []"
proof -
  obtain l ks where ls: "ls = l # ks" using assms(2) by (cases ls) auto
  then have "present_label l \<noteq> []" using assms(1) by (auto simp: name_ok_def)
  then have "length (present_name ls) > 1" using ls by (cases "present_label l") (auto simp: present_name_def)
  then show "present_name ls \<noteq> ''.''" "present_name ls \<noteq> []" by auto
qed

lemma packDomainName_wire:
  assumes ok: "name_ok ls" and cap: "length out + length (wire_name ls) \<le> cap"
  shows "packDomainName cap (present_name ls) out = Inr (out @ wire_name ls)"
proof (cases "ls = []")
  case True
  then show ?thesis using cap by (simp add: packDomainName_def present_name_def wire_name_def wire_labels_def IsFqdn_def)
next
  case False
  have "pack_labels cap (present_name ls) [] False True out = Inr (out @ wire_labels ls)"
    using pack_labels_wire [of ls out cap False True] ok cap False
    by (simp add: name_ok_def present_name_def length_wire_name)
  then show ?thesis
    using present_name_not_root [OF ok False] IsFqdn_present [of ls] by (simp add: packDomainName_def wire_name_def)
qed

text \<open>The computed length is the length on the wire.\<close>

lemma escapedNameLen_byte: "escapedNameLen (present_byte b @ s) = Suc (escapedNameLen s)"
proof (cases b rule: present_byte_cases)
  case special
  with special_not_digit [OF special(2), of s] show ?thesis by simp
next
  case digits
  from escapeByte_digits [of "char_of_byte b" s] obtain x y z where
    "present_byte b @ s = backslash # x # y # z # s" "isDDD (x # y # z # s)" using digits(1) by auto
  then show ?thesis by simp
next
  case plain
  then have "char_of_byte b \<noteq> backslash" by (auto simp: isDomainNameLabelSpecial_def)
  with plain show ?thesis by simp
qed

lemma escapedNameLen_label: "escapedNameLen (present_label l @ s) = length l + escapedNameLen s"
  by (induction l) (simp_all add: present_label_def escapedNameLen_byte)

lemma escapedNameLen_labels: "escapedNameLen (concat (map (\<lambda>l. present_label l @ ''.'') ls)) = name_octets ls"
  by (induction ls) (simp_all add: escapedNameLen_label name_octets_def)

lemma escapedNameLen_plain: "backslash \<notin> set s \<Longrightarrow> escapedNameLen s = length s"
  by (induction s) auto

lemma domainNameLen_present:
  assumes "name_ok ls"
  shows "domainNameLen (present_name ls) = length (wire_name ls)"
proof (cases "ls = []")
  case True
  then show ?thesis by (simp add: domainNameLen_def present_name_def wire_name_def wire_labels_def)
next
  case False
  then have "escapedNameLen (present_name ls) = name_octets ls" using escapedNameLen_labels by (simp add: present_name_def)
  then show ?thesis
    using present_name_not_root [OF assms False] escapedNameLen_plain [of "present_name ls"]
    by (auto simp: domainNameLen_def length_wire_name)
qed

section \<open>Unpacking what was packed\<close>

lemma bit_C0: "bit (0xC0 :: byte) n \<longleftrightarrow> n = 6 \<or> n = 7"
proof -
  have C0: "(0xC0 :: byte) = push_bit 6 (mask 2)" by (simp add: mask_eq_exp_minus_1)
  show ?thesis unfolding C0 bit_push_bit_iff bit_mask_iff by auto
qed

lemma kind_label: "(b :: byte) AND 0xC0 = 0 \<longleftrightarrow> unat b < 64"
proof -
  have bits: "bit (b AND 0xC0) n \<longleftrightarrow> bit b n \<and> (n = 6 \<or> n = 7)" for n by (simp only: bit_and_iff bit_C0)
  have "b AND 0xC0 = 0 \<longleftrightarrow> \<not> bit b 6 \<and> \<not> bit b 7"
    unfolding bit_eq_iff [of "b AND 0xC0" 0] bits by (auto dest: spec [of _ 6] spec [of _ 7])
  also have "\<dots> \<longleftrightarrow> take_bit 6 b = b"
  proof
    assume "\<not> bit b 6 \<and> \<not> bit b 7"
    moreover have "n < 6 \<or> n = 6 \<or> n = 7 \<or> \<not> bit b n" for n using bit_imp_le_length [of b n] by auto
    ultimately have "bit (take_bit 6 b) n = bit b n" for n unfolding bit_take_bit_iff by metis
    then show "take_bit 6 b = b" unfolding bit_eq_iff [of "take_bit 6 b" b] by blast
  next
    assume "take_bit 6 b = b"
    moreover have "\<not> bit (take_bit 6 b) 6" "\<not> bit (take_bit 6 b) 7" unfolding bit_take_bit_iff by simp_all
    ultimately show "\<not> bit b 6 \<and> \<not> bit b 7" by simp
  qed
  also have "\<dots> \<longleftrightarrow> unat b < 64"
  proof -
    have "take_bit 6 b = b \<longleftrightarrow> unat (take_bit 6 b) = unat b" by (metis unsigned_word_eqI)
    also have "unat (take_bit 6 b) = unat b mod 64" unfolding unsigned_take_bit_eq by (simp add: take_bit_eq_mod)
    finally show ?thesis by (metis mod_less mod_less_divisor zero_less_numeral)
  qed
  finally show ?thesis .
qed

lemma unpack_labels_wire:
  "list_all (\<lambda>l. 0 < length l \<and> length l < 64) ls \<Longrightarrow> name_octets ls < budget \<Longrightarrow>
   unpack_labels (pre @ wire_name ls @ post) (length pre) budget 0 off1 s =
     Inr (if s = [] \<and> ls = [] then ''.'' else s @ concat (map (\<lambda>l. present_label l @ ''.'') ls),
          length pre + length (wire_name ls))"
proof (induction ls arbitrary: pre budget s)
  case Nil
  then show ?case by (simp add: unpack_labels.simps wire_name_def wire_labels_def)
next
  case (Cons l ls)
  let ?m = "pre @ wire_name (l # ls) @ post"
  let ?pre = "pre @ of_nat (length l) # l"
  have m: "?m = ?pre @ wire_name ls @ post" by (simp add: wire_name_def wire_labels_def)
  have l: "0 < length l" "length l < 64" "length l + 1 < budget" "name_octets ls < budget - (length l + 1)"
    using Cons.prems by (auto simp: name_octets_def)
  have n: "?m ! length pre = of_nat (length l)" "unat (of_nat (length l) :: byte) = length l"
    using l(2) by (simp_all add: wire_name_def wire_labels_def unat_of_nat)
  have "unpack_labels ?m (length pre) budget 0 off1 s = unpack_labels ?m (length ?pre) (budget - (length l + 1)) 0 off1
      (s @ present_label l @ ''.'')"
    using l n unfolding m by (subst unpack_labels.simps) (simp add: Let_def kind_label nth_append)
  also have "\<dots> = Inr ((s @ present_label l @ ''.'') @ concat (map (\<lambda>l. present_label l @ ''.'') ls), length ?pre + length (wire_name ls))"
    unfolding m using Cons.IH [OF _ l(4), of ?pre "s @ present_label l @ ''.''"] Cons.prems(1) by simp
  finally show ?case by (simp add: wire_name_def wire_labels_def)
qed

lemma UnpackDomainName_wire:
  "name_ok ls \<Longrightarrow> UnpackDomainName (pre @ wire_name ls @ post) (length pre) = Inr (present_name ls, length pre + length (wire_name ls))"
  using unpack_labels_wire [of ls 255 pre post 0 "[]"] by (simp add: UnpackDomainName_def name_ok_def present_name_def)

section \<open>Unpacking arbitrary bytes\<close>

lemma present_labels_snoc:
  "concat (map (\<lambda>l. present_label l @ ''.'') (ls @ [l])) = concat (map (\<lambda>l. present_label l @ ''.'') ls) @ present_label l @ ''.''"
  by simp

lemma unpack_labels_canonical:
  assumes "unpack_labels m off budget ptr off1 s = Inr (r, off')"
    and "list_all (\<lambda>l. 0 < length l \<and> length l < 64) ls" and "s = concat (map (\<lambda>l. present_label l @ ''.'') ls)"
    and "name_octets ls + budget = 255" and "0 < budget" and "0 < ptr \<Longrightarrow> start < off1 \<and> off1 \<le> length m" and "ptr = 0 \<Longrightarrow> start \<le> off"
  shows "\<exists>ls. name_ok ls \<and> r = present_name ls \<and> start < off' \<and> off' \<le> length m"
  using assms
proof (induction m off budget ptr off1 s arbitrary: ls rule: unpack_labels.induct)
  case (1 m off budget ptr off1 s)
  let ?c = "unat (m ! off)"
  have off: "off < length m" using 1(3) by (subst (asm) unpack_labels.simps) (auto split: if_splits)
  consider (stop) "m ! off AND 0xC0 = 0" "?c = 0" | (label) "m ! off AND 0xC0 = 0" "?c \<noteq> 0" | (pointer) "m ! off AND 0xC0 = 0xC0"
    using 1(3) off by (subst (asm) unpack_labels.simps) (auto simp: Let_def split: if_splits)
  then show ?case
  proof cases
    case stop
    then have "r = (if s = [] then ''.'' else s)" "off' = (if ptr = 0 then off + 1 else off1)"
      using 1(3) off by (subst (asm) unpack_labels.simps; auto simp: Let_def)+
    moreover have "s = [] \<longleftrightarrow> ls = []" unfolding 1(5) by (cases ls) simp_all
    moreover have "name_ok ls" using 1(4,6,7) by (simp add: name_ok_def)
    ultimately show ?thesis using 1(5,8,9) off by (intro exI [of _ ls]) (auto simp: present_name_def)
  next
    case label
    let ?l = "take ?c (drop (off + 1) m)"
    have c: "off + 1 + ?c \<le> length m" "?c + 1 < budget"
      and rec: "unpack_labels m (off + 1 + ?c) (budget - (?c + 1)) ptr off1 (s @ present_label ?l @ ''.'') = Inr (r, off')"
      using 1(3) off label by (subst (asm) unpack_labels.simps; auto simp: Let_def split: if_splits)+
    have "length ?l = ?c" "0 < ?c" "?c < 64" using c(1) label kind_label by auto
    then show ?thesis
      using off label c rec 1(4-9) by (intro 1(1) [where ls = "ls @ [?l]"]) (auto simp: name_octets_def)
  next
    case pointer
    let ?off = "unat (m ! off XOR 0xC0) * 256 + unat (m ! (off + 1))"
    have k: "(0xC0 :: byte) \<noteq> 0" by simp
    have c: "off + 1 < length m" "ptr + 1 \<le> 126"
      and rec: "unpack_labels m ?off budget (ptr + 1) (if ptr = 0 then off + 2 else off1) s = Inr (r, off')"
      using 1(3) off pointer by (subst (asm) unpack_labels.simps; auto simp: Let_def split: if_splits)+
    show ?thesis
      by (rule 1(2) [OF _ refl refl _ _ _ _ rec 1(4-7)]) (use off pointer c 1(8,9) k in auto)
  qed
qed

text \<open>A hostile message cannot make the unpacker produce anything but a well-formed name.\<close>

lemma UnpackDomainName_canonical:
  assumes "UnpackDomainName m off = Inr (s, off')"
  shows "canonical s" "off < off'" "off' \<le> length m"
proof -
  obtain ls where "name_ok ls" "s = present_name ls" "off < off'" "off' \<le> length m"
    using unpack_labels_canonical [OF assms [unfolded UnpackDomainName_def], of "[]" off] by (auto simp: name_octets_def)
  then show "canonical s" "off < off'" "off' \<le> length m" by (auto simp: canonical_def)
qed

end
