(* ===== verification/Dns_Wire.thy ===== *)
theory Dns_Wire
  imports Dns_Names
begin

text \<open>
  Messages on the wire: \<open>Pack\<close> and \<open>Unpack\<close> of src/vendor/github.com/miekg/dns (msg.go,
  msg_helpers.go, edns.go), with the header, questions, the records that leng makes or looks
  into (A, AAAA, CNAME), and the extended response code of EDNS. The data of all other record
  types is text in this development; its wire form is the parameter \<open>other_rdata\<close>. Packing
  with compression, which leng never asks for, is a parameter too.
\<close>

unbundle bit_operations_syntax

record other_rdata =
  od_len :: "u16 \<Rightarrow> string \<Rightarrow> nat"
  od_pack :: "u16 \<Rightarrow> string \<Rightarrow> byte list option"
  od_unpack :: "u16 \<Rightarrow> byte list \<Rightarrow> nat \<Rightarrow> (string \<times> nat) option"
  od_zero :: "u16 \<Rightarrow> string"

section \<open>Numbers\<close>

definition be16 :: "u16 \<Rightarrow> byte list" where
  "be16 w = [ucast (drop_bit 8 w), ucast w]"

definition be32 :: "u32 \<Rightarrow> byte list" where
  "be32 w = [ucast (drop_bit 24 w), ucast (drop_bit 16 w), ucast (drop_bit 8 w), ucast w]"

definition packUint16 :: "nat \<Rightarrow> u16 \<Rightarrow> byte list \<Rightarrow> wire_error + byte list" where
  "packUint16 cap w out = (if length out + 2 > cap then Inl WireOverflow else Inr (out @ be16 w))"

definition packUint32 :: "nat \<Rightarrow> u32 \<Rightarrow> byte list \<Rightarrow> wire_error + byte list" where
  "packUint32 cap w out = (if length out + 4 > cap then Inl WireOverflow else Inr (out @ be32 w))"

definition unpackUint16 :: "byte list \<Rightarrow> nat \<Rightarrow> wire_error + u16 \<times> nat" where
  "unpackUint16 m off =
     (if off + 2 > length m then Inl WireOverflow
      else Inr (push_bit 8 (ucast (m ! off)) OR ucast (m ! (off + 1)), off + 2))"

definition unpackUint32 :: "byte list \<Rightarrow> nat \<Rightarrow> wire_error + u32 \<times> nat" where
  "unpackUint32 m off =
     (if off + 4 > length m then Inl WireOverflow
      else Inr (push_bit 24 (ucast (m ! off)) OR push_bit 16 (ucast (m ! (off + 1))) OR
                push_bit 8 (ucast (m ! (off + 2))) OR ucast (m ! (off + 3)), off + 4))"

section \<open>Packing\<close>

fun pack_all :: "('a \<Rightarrow> byte list \<Rightarrow> wire_error + byte list) \<Rightarrow> 'a list \<Rightarrow> byte list \<Rightarrow> wire_error + byte list" where
  "pack_all f [] out = Inr out"
| "pack_all f (x # xs) out = go_bind (f x out) (pack_all f xs)"

definition Question_pack :: "nat \<Rightarrow> dns_question \<Rightarrow> byte list \<Rightarrow> wire_error + byte list" where
  "Question_pack cap q out =
     go_bind (packDomainName cap (q_Name q) out) (\<lambda>out.
       go_bind (packUint16 cap (q_Qtype q) out) (packUint16 cap (q_Qclass q)))"

definition packHeader :: "nat \<Rightarrow> rr_header \<Rightarrow> byte list \<Rightarrow> wire_error + byte list" where
  "packHeader cap h out =
     (if length out = cap then Inr out
      else go_bind (packDomainName cap (Hdr_Name h) out) (\<lambda>out.
        go_bind (packUint16 cap (Rrtype h) out) (\<lambda>out.
          go_bind (packUint16 cap (Class h) out) (\<lambda>out.
            go_bind (packUint32 cap (Ttl h) out) (packUint16 cap 0)))))"

definition ip_bytes :: "ip option \<Rightarrow> byte list" where
  "ip_bytes a = (case a of None \<Rightarrow> [] | Some bs \<Rightarrow> bs)"

text \<open>\<open>To4\<close> of an address that is not IPv4 is nil, and copying nil leaves the zeros of the buffer.\<close>

definition packDataA :: "nat \<Rightarrow> ip option \<Rightarrow> byte list \<Rightarrow> wire_error + byte list" where
  "packDataA cap a out =
     (let bs = ip_bytes a in
      if length bs = 4 \<or> length bs = 16 then
        (if length out + 4 > cap then Inl WireOverflow
         else Inr (out @ (case To4 bs of None \<Rightarrow> [0, 0, 0, 0] | Some v4 \<Rightarrow> v4)))
      else if bs = [] then Inr out
      else Inl WireOverflow)"

definition packDataAAAA :: "nat \<Rightarrow> ip option \<Rightarrow> byte list \<Rightarrow> wire_error + byte list" where
  "packDataAAAA cap a out =
     (let bs = ip_bytes a in
      if length bs = 16 then (if length out + 16 > cap then Inl WireOverflow else Inr (out @ bs))
      else if bs = [] then Inr out
      else Inl WireOverflow)"

definition rdata_pack :: "other_rdata \<Rightarrow> nat \<Rightarrow> rr \<Rightarrow> byte list \<Rightarrow> wire_error + byte list" where
  "rdata_pack od cap r out =
     (case Rdata r of
        RdA a \<Rightarrow> packDataA cap a out
      | RdAAAA a \<Rightarrow> packDataAAAA cap a out
      | RdCNAME target \<Rightarrow> packDomainName cap target out
      | RdOther txt \<Rightarrow>
          (case od_pack od (Rrtype (Hdr r)) txt of
             None \<Rightarrow> Inl ErrRdata
           | Some bs \<Rightarrow> if length out + length bs > cap then Inl WireOverflow else Inr (out @ bs)))"

definition packRR :: "other_rdata \<Rightarrow> nat \<Rightarrow> rr \<Rightarrow> byte list \<Rightarrow> wire_error + byte list" where
  "packRR od cap r out =
     go_bind (packHeader cap (Hdr r) out) (\<lambda>hdr.
       go_bind (rdata_pack od cap r hdr) (\<lambda>out.
         let headerEnd = length hdr; rdlength = length out - headerEnd in
         if rdlength \<ge> 2 ^ 16 then Inl ErrRdata
         else Inr (out[headerEnd - 2 := be16 (of_nat rdlength) ! 0, headerEnd - 1 := be16 (of_nat rdlength) ! 1])))"

definition rr_len :: "other_rdata \<Rightarrow> rr \<Rightarrow> nat" where
  "rr_len od r = domainNameLen (Hdr_Name (Hdr r)) + 10 +
     (case Rdata r of
        RdA a \<Rightarrow> if ip_bytes a \<noteq> [] then 4 else 0
      | RdAAAA a \<Rightarrow> if ip_bytes a \<noteq> [] then 16 else 0
      | RdCNAME target \<Rightarrow> domainNameLen target
      | RdOther txt \<Rightarrow> od_len od (Rrtype (Hdr r)) txt)"

definition msg_len :: "other_rdata \<Rightarrow> rr msg \<Rightarrow> nat" where
  "msg_len od m = 12 + sum_list (map (\<lambda>q. domainNameLen (q_Name q) + 4) (Question m)) +
     sum_list (map (rr_len od) (Answer m)) + sum_list (map (rr_len od) (Ns m)) + sum_list (map (rr_len od) (Extra m))"

text \<open>The place of the OPT record, looked for from the end of the additional section.\<close>

definition IsEdns0 :: "rr msg \<Rightarrow> nat option" where
  "IsEdns0 m = find (\<lambda>i. Rrtype (Hdr (Extra m ! i)) = TypeOPT) (rev [0..<length (Extra m)])"

definition SetExtendedRcode :: "u16 \<Rightarrow> u32 \<Rightarrow> u32" where
  "SetExtendedRcode v ttl = (ttl AND 0x00FFFFFF) OR push_bit 24 (ucast (drop_bit 4 v))"

definition ExtendedRcode :: "u32 \<Rightarrow> int" where
  "ExtendedRcode ttl = push_bit 4 (uint (drop_bit 24 (ttl AND 0xFF000000)))"

definition set_opt :: "rr msg \<Rightarrow> rr msg" where
  "set_opt m =
     (case IsEdns0 m of
        None \<Rightarrow> m
      | Some i \<Rightarrow> m\<lparr>Extra := (Extra m)[i :=
          set_Ttl (SetExtendedRcode (word_of_int (Rcode m)) (Ttl (Hdr (Extra m ! i)))) (Extra m ! i)]\<rparr>)"

definition flag :: "nat \<Rightarrow> bool \<Rightarrow> u16" where
  "flag n b = (if b then push_bit n 1 else 0)"

definition header_bits :: "rr msg \<Rightarrow> u16" where
  "header_bits m =
     push_bit 11 (word_of_int (Opcode m)) OR word_of_int (Rcode m AND 0xF) OR flag 15 (Response m) OR
     flag 10 (Authoritative m) OR flag 9 (Truncated m) OR flag 8 (RecursionDesired m) OR
     flag 7 (RecursionAvailable m) OR flag 6 (Zero m) OR flag 5 (AuthenticatedData m) OR flag 4 (CheckingDisabled m)"

definition Header_pack :: "nat \<Rightarrow> rr msg \<Rightarrow> wire_error + byte list" where
  "Header_pack cap m =
     pack_all (packUint16 cap)
       [MsgId m, header_bits m, of_nat (length (Question m)), of_nat (length (Answer m)),
        of_nat (length (Ns m)), of_nat (length (Extra m))] []"

definition packBuffer :: "other_rdata \<Rightarrow> rr msg \<Rightarrow> wire_error + byte list" where
  "packBuffer od m =
     (if Rcode m < 0 \<or> Rcode m > 0xFFF then Inl ErrRcode
      else if IsEdns0 m = None \<and> Rcode m > 0xF then Inl ErrExtendedRcode
      else let m = set_opt m; cap = msg_len od m + 1 in
        go_bind (Header_pack cap m) (\<lambda>out.
          go_bind (pack_all (Question_pack cap) (Question m) out) (\<lambda>out.
            go_bind (pack_all (packRR od cap) (Answer m) out) (\<lambda>out.
              go_bind (pack_all (packRR od cap) (Ns m) out) (\<lambda>out.
                go_bind (pack_all (packRR od cap) (Extra m) out) (\<lambda>out.
                  if length out > cap then Inl SliceBounds else Inr out))))))"

definition isCompressible :: "rr msg \<Rightarrow> bool" where
  "isCompressible m \<longleftrightarrow> length (Question m) > 1 \<or> Answer m \<noteq> [] \<or> Ns m \<noteq> [] \<or> Extra m \<noteq> []"

definition Msg_Pack :: "other_rdata \<Rightarrow> (rr msg \<Rightarrow> wire_error + byte list) \<Rightarrow> rr msg \<Rightarrow> wire_error + byte list" where
  "Msg_Pack od compressed m = (if Compress m \<and> isCompressible m then compressed m else packBuffer od m)"

section \<open>Unpacking\<close>

text \<open>
  A question that ends with the message is accepted without type and class; the error of an
  incomplete class is dropped, because it sets the offset to the end.
\<close>

definition unpackQuestion :: "byte list \<Rightarrow> nat \<Rightarrow> wire_error + dns_question \<times> nat" where
  "unpackQuestion m off =
     go_bind (UnpackDomainName m off) (\<lambda>(name, off).
       if off = length m then Inr (\<lparr>q_Name = name, q_Qtype = 0, q_Qclass = 0\<rparr>, off)
       else go_bind (unpackUint16 m off) (\<lambda>(t, off).
         if off = length m then Inr (\<lparr>q_Name = name, q_Qtype = t, q_Qclass = 0\<rparr>, off)
         else case unpackUint16 m off of
           Inl _ \<Rightarrow> Inr (\<lparr>q_Name = name, q_Qtype = t, q_Qclass = 0\<rparr>, length m)
         | Inr (c, off) \<Rightarrow> Inr (\<lparr>q_Name = name, q_Qtype = t, q_Qclass = c\<rparr>, off)))"

text \<open>The counts of the header cannot be trusted: reading ends when the offset does not grow.\<close>

fun unpack_all :: "(byte list \<Rightarrow> nat \<Rightarrow> wire_error + 'a \<times> nat) \<Rightarrow> nat \<Rightarrow> byte list \<Rightarrow> nat \<Rightarrow> wire_error + 'a list \<times> nat" where
  "unpack_all f 0 m off = Inr ([], off)"
| "unpack_all f (Suc n) m off =
     go_bind (f m off) (\<lambda>(x, off').
       if off' = off then Inr ([], off)
       else go_bind (unpack_all f n m off') (\<lambda>(xs, off). Inr (x # xs, off)))"

definition unpack_questions :: "nat \<Rightarrow> byte list \<Rightarrow> nat \<Rightarrow> wire_error + dns_question list \<times> nat" where
  "unpack_questions = unpack_all unpackQuestion"

text \<open>The header of a record, the offset after it, and the message up to the end of the record.\<close>

definition unpackHeader :: "byte list \<Rightarrow> nat \<Rightarrow> wire_error + rr_header \<times> nat \<times> byte list" where
  "unpackHeader m off =
     (if off = length m then Inr (\<lparr>Hdr_Name = [], Rrtype = 0, Class = 0, Ttl = 0, Rdlength = 0\<rparr>, off, m)
      else go_bind (UnpackDomainName m off) (\<lambda>(name, off).
        go_bind (unpackUint16 m off) (\<lambda>(t, off).
          go_bind (unpackUint16 m off) (\<lambda>(c, off).
            go_bind (unpackUint32 m off) (\<lambda>(ttl, off).
              go_bind (unpackUint16 m off) (\<lambda>(rdlength, off).
                if off + unat rdlength > length m then Inl WireOverflow
                else Inr (\<lparr>Hdr_Name = name, Rrtype = t, Class = c, Ttl = ttl, Rdlength = rdlength\<rparr>,
                          off, take (off + unat rdlength) m)))))))"

definition unpack_addr :: "nat \<Rightarrow> byte list \<Rightarrow> nat \<Rightarrow> wire_error + ip \<times> nat" where
  "unpack_addr n m off = (if off + n > length m then Inl WireOverflow else Inr (take n (drop off m), off + n))"

definition zero_rdata :: "other_rdata \<Rightarrow> u16 \<Rightarrow> rdata" where
  "zero_rdata od t =
     (if t = TypeA then RdA None else if t = TypeAAAA then RdAAAA None
      else if t = TypeCNAME then RdCNAME [] else RdOther (od_zero od t))"

definition rdata_unpack :: "other_rdata \<Rightarrow> u16 \<Rightarrow> byte list \<Rightarrow> nat \<Rightarrow> wire_error + rdata \<times> nat" where
  "rdata_unpack od t m off =
     (if t = TypeA then go_bind (unpack_addr 4 m off) (\<lambda>(a, off). Inr (RdA (Some a), off))
      else if t = TypeAAAA then go_bind (unpack_addr 16 m off) (\<lambda>(a, off). Inr (RdAAAA (Some a), off))
      else if t = TypeCNAME then go_bind (UnpackDomainName m off) (\<lambda>(s, off). Inr (RdCNAME s, off))
      else case od_unpack od t m off of None \<Rightarrow> Inl ErrRdata | Some (s, off) \<Rightarrow> Inr (RdOther s, off))"

definition UnpackRRWithHeader :: "other_rdata \<Rightarrow> rr_header \<Rightarrow> byte list \<Rightarrow> nat \<Rightarrow> wire_error + rr \<times> nat" where
  "UnpackRRWithHeader od h m off =
     (if off > length m then Inl BadRdlength
      else let rdend = off + unat (Rdlength h) in
        if rdend > length m then Inl BadRdlength
        else if Rdlength h = 0 then Inr (\<lparr>Hdr = h, Rdata = zero_rdata od (Rrtype h)\<rparr>, off)
        else go_bind (rdata_unpack od (Rrtype h) m off) (\<lambda>(d, off).
          if off \<noteq> rdend then Inl BadRdlength else Inr (\<lparr>Hdr = h, Rdata = d\<rparr>, off)))"

definition UnpackRR :: "other_rdata \<Rightarrow> byte list \<Rightarrow> nat \<Rightarrow> wire_error + rr \<times> nat" where
  "UnpackRR od m off = go_bind (unpackHeader m off) (\<lambda>(h, off, m). UnpackRRWithHeader od h m off)"

definition unpackRRslice :: "other_rdata \<Rightarrow> nat \<Rightarrow> byte list \<Rightarrow> nat \<Rightarrow> wire_error + rr list \<times> nat" where
  "unpackRRslice od = unpack_all (UnpackRR od)"

definition setHdr :: "u16 \<Rightarrow> u16 \<Rightarrow> rr msg" where
  "setHdr i bits = new_Msg\<lparr>MsgId := i, Response := bits AND push_bit 15 1 \<noteq> 0,
     Opcode := uint (drop_bit 11 bits AND 0xF), Authoritative := bits AND push_bit 10 1 \<noteq> 0,
     Truncated := bits AND push_bit 9 1 \<noteq> 0, RecursionDesired := bits AND push_bit 8 1 \<noteq> 0,
     RecursionAvailable := bits AND push_bit 7 1 \<noteq> 0, Zero := bits AND push_bit 6 1 \<noteq> 0,
     AuthenticatedData := bits AND push_bit 5 1 \<noteq> 0, CheckingDisabled := bits AND push_bit 4 1 \<noteq> 0,
     Rcode := uint (bits AND 0xF)\<rparr>"

definition unpackMsgHdr :: "byte list \<Rightarrow> wire_error + u16 list \<times> nat" where
  "unpackMsgHdr m = unpack_all unpackUint16 6 m 0"

definition set_rcode :: "rr msg \<Rightarrow> rr msg" where
  "set_rcode m = (case IsEdns0 m of None \<Rightarrow> m
     | Some i \<Rightarrow> m\<lparr>Rcode := Rcode m OR ExtendedRcode (Ttl (Hdr (Extra m ! i)))\<rparr>)"

text \<open>A header without anything after it is a message.\<close>

definition Msg_Unpack :: "other_rdata \<Rightarrow> byte list \<Rightarrow> wire_error + rr msg" where
  "Msg_Unpack od m =
     go_bind (unpackMsgHdr m) (\<lambda>(ws, off).
       let dns = setHdr (ws ! 0) (ws ! 1) in
       if off = length m then Inr dns
       else go_bind (unpack_questions (unat (ws ! 2)) m off) (\<lambda>(qs, off).
         go_bind (unpackRRslice od (unat (ws ! 3)) m off) (\<lambda>(an, off).
           go_bind (unpackRRslice od (unat (ws ! 4)) m off) (\<lambda>(ns, off).
             go_bind (unpackRRslice od (unat (ws ! 5)) m off) (\<lambda>(ex, off).
               Inr (set_rcode (dns\<lparr>Question := qs, Answer := an, Ns := ns, Extra := ex\<rparr>)))))))"

section \<open>Numbers round trip\<close>

lemma be16_roundtrip: "push_bit 8 (ucast (ucast (drop_bit 8 w) :: byte)) OR ucast (ucast w :: byte) = (w :: u16)"
proof (rule bit_word_eqI)
  fix n
  assume "n < LENGTH(16)"
  then show "bit (push_bit 8 (ucast (ucast (drop_bit 8 w) :: byte)) OR ucast (ucast w :: byte) :: u16) n = bit w n"
    by (auto simp: bit_or_iff bit_push_bit_iff bit_ucast_iff bit_drop_bit_eq)
qed

lemma unpackUint16_be16: "unpackUint16 (pre @ be16 w @ post) (length pre) = Inr (w, length pre + 2)"
  using be16_roundtrip [of w] by (simp add: unpackUint16_def be16_def nth_append)

lemma be32_roundtrip:
  "push_bit 24 (ucast (ucast (drop_bit 24 w) :: byte)) OR push_bit 16 (ucast (ucast (drop_bit 16 w) :: byte)) OR
   push_bit 8 (ucast (ucast (drop_bit 8 w) :: byte)) OR ucast (ucast w :: byte) = (w :: u32)" (is "?l = w")
proof (rule bit_word_eqI)
  fix n
  assume n: "n < LENGTH(32)"
  consider "n < 8" | "8 \<le> n" "n < 16" | "16 \<le> n" "n < 24" | "24 \<le> n" by linarith
  then show "bit ?l n = bit w n"
    by cases (use n in \<open>auto simp: bit_or_iff bit_push_bit_iff bit_ucast_iff bit_drop_bit_eq\<close>)
qed

lemma unpackUint32_be32: "unpackUint32 (pre @ be32 w @ post) (length pre) = Inr (w, length pre + 4)"
  using be32_roundtrip [of w] by (simp add: unpackUint32_def be32_def nth_append)


section \<open>Sections of a message\<close>

text \<open>
  The contract of the items of a section: an item that is \<open>ok\<close> has a wire form, not longer than
  announced, that the packer writes and the unpacker reads as \<open>sent\<close> item wherever it stands.
\<close>

locale wire_item =
  fixes pack :: "nat \<Rightarrow> 'a \<Rightarrow> byte list \<Rightarrow> wire_error + byte list"
    and unpack :: "byte list \<Rightarrow> nat \<Rightarrow> wire_error + 'a \<times> nat"
    and len :: "'a \<Rightarrow> nat" and ok :: "'a \<Rightarrow> bool" and sent :: "'a \<Rightarrow> 'a"
  assumes item: "ok x \<Longrightarrow> \<exists>bs. bs \<noteq> [] \<and> length bs \<le> len x \<and>
      (\<forall>cap out. length out + length bs \<le> cap \<longrightarrow> pack cap x out = Inr (out @ bs)) \<and>
      (\<forall>pre post. unpack (pre @ bs @ post) (length pre) = Inr (sent x, length pre + length bs))"
begin

lemma items:
  assumes "list_all ok xs"
  shows "\<exists>bs. length xs \<le> length bs \<and> length bs \<le> sum_list (map len xs) \<and>
    (\<forall>cap out. length out + length bs \<le> cap \<longrightarrow> pack_all (pack cap) xs out = Inr (out @ bs)) \<and>
    (\<forall>pre post. unpack_all unpack (length xs) (pre @ bs @ post) (length pre) = Inr (map sent xs, length pre + length bs))"
  using assms
proof (induction xs)
  case Nil
  then show ?case by (intro exI [of _ "[]"]) simp
next
  case (Cons x xs)
  obtain b where b: "b \<noteq> []" "length b \<le> len x" "\<And>cap out. length out + length b \<le> cap \<Longrightarrow> pack cap x out = Inr (out @ b)"
    "\<And>pre post. unpack (pre @ b @ post) (length pre) = Inr (sent x, length pre + length b)"
    using item [of x] Cons.prems by auto
  obtain bs where bs: "length xs \<le> length bs" "length bs \<le> sum_list (map len xs)"
    "\<And>cap out. length out + length bs \<le> cap \<Longrightarrow> pack_all (pack cap) xs out = Inr (out @ bs)"
    "\<And>pre post. unpack_all unpack (length xs) (pre @ bs @ post) (length pre) = Inr (map sent xs, length pre + length bs)"
    using Cons by auto
  have "unpack_all unpack (length (x # xs)) (pre @ (b @ bs) @ post) (length pre) = Inr (map sent (x # xs), length pre + length (b @ bs))" for pre post
    using b(1) b(4) [of pre "bs @ post"] bs(4) [of "pre @ b" post] by simp
  moreover have "length (x # xs) \<le> length (b @ bs)" using b(1) bs(1) by (cases b) auto
  ultimately show ?case using b bs by (intro exI [of _ "b @ bs"]) auto
qed

end

text \<open>The six numbers of the header are such items.\<close>

interpretation u16s: wire_item packUint16 unpackUint16 "\<lambda>_. 2" "\<lambda>_. True" "\<lambda>w. w"
proof
  fix w :: u16
  have "be16 w \<noteq> []" "length (be16 w) = 2" by (simp_all add: be16_def)
  then show "\<exists>bs. bs \<noteq> [] \<and> length bs \<le> 2 \<and>
      (\<forall>cap out. length out + length bs \<le> cap \<longrightarrow> packUint16 cap w out = Inr (out @ bs)) \<and>
      (\<forall>pre post. unpackUint16 (pre @ bs @ post) (length pre) = Inr (w, length pre + length bs))"
    using unpackUint16_be16 by (intro exI [of _ "be16 w"]) (simp add: packUint16_def)
qed

definition question_ok :: "dns_question \<Rightarrow> bool" where
  "question_ok q \<longleftrightarrow> canonical (q_Name q)"

lemma take_append_length: "take (length xs + n) (xs @ ys) = xs @ take n ys"
  by simp

interpretation questions: wire_item Question_pack unpackQuestion "\<lambda>q. domainNameLen (q_Name q) + 4" question_ok "\<lambda>q. q"
proof
  fix q
  assume "question_ok q"
  then obtain ls where ls: "name_ok ls" "q_Name q = present_name ls" by (auto simp: question_ok_def canonical_def)
  let ?bs = "wire_name ls @ be16 (q_Qtype q) @ be16 (q_Qclass q)"
  have p: "Question_pack cap q out = Inr (out @ ?bs)" if "length out + length ?bs \<le> cap" for cap out
    using that packDomainName_wire [OF ls(1), of out cap] by (simp add: Question_pack_def ls(2) packUint16_def be16_def)
  have u: "unpackQuestion (pre @ ?bs @ post) (length pre) = Inr (q, length pre + length ?bs)" for pre post
    using UnpackDomainName_wire [OF ls(1), of pre "be16 (q_Qtype q) @ be16 (q_Qclass q) @ post"]
      unpackUint16_be16 [of "pre @ wire_name ls" "q_Qtype q" "be16 (q_Qclass q) @ post"]
      unpackUint16_be16 [of "pre @ wire_name ls @ be16 (q_Qtype q)" "q_Qclass q" post]
    by (simp add: unpackQuestion_def ls(2) be16_def add.commute [of 2])
  show "\<exists>bs. bs \<noteq> [] \<and> length bs \<le> domainNameLen (q_Name q) + 4 \<and>
      (\<forall>cap out. length out + length bs \<le> cap \<longrightarrow> Question_pack cap q out = Inr (out @ bs)) \<and>
      (\<forall>pre post. unpackQuestion (pre @ bs @ post) (length pre) = Inr (q, length pre + length bs))"
    using p u domainNameLen_present [OF ls(1)] by (intro exI [of _ ?bs]) (simp add: ls(2) be16_def)
qed


section \<open>Records round trip\<close>

text \<open>What the wire form of the other record types promises.\<close>

definition other_ok :: "other_rdata \<Rightarrow> u16 \<Rightarrow> string \<Rightarrow> bool" where
  "other_ok od t txt \<longleftrightarrow> (\<exists>bs. od_pack od t txt = Some bs \<and> length bs \<le> od_len od t txt \<and> length bs < 2 ^ 16 \<and>
     (if bs = [] then od_zero od t = txt
      else \<forall>pre. od_unpack od t (pre @ bs) (length pre) = Some (txt, length pre + length bs)))"

definition rr_ok :: "other_rdata \<Rightarrow> rr \<Rightarrow> bool" where
  "rr_ok od r \<longleftrightarrow> canonical (Hdr_Name (Hdr r)) \<and> rr_typed r \<and>
     (case Rdata r of
        RdA a \<Rightarrow> (\<forall>bs. a = Some bs \<longrightarrow> To4 bs \<noteq> None)
      | RdAAAA a \<Rightarrow> (\<forall>bs. a = Some bs \<longrightarrow> length bs = 16)
      | RdCNAME target \<Rightarrow> target = [] \<or> canonical target
      | RdOther txt \<Rightarrow> other_ok od (Rrtype (Hdr r)) txt)"

text \<open>What arrives: an IPv4 address in four bytes, and the length of the data filled in.\<close>

definition sent_rdata :: "rdata \<Rightarrow> rdata" where
  "sent_rdata d = (case d of RdA (Some a) \<Rightarrow> RdA (To4 a) | _ \<Rightarrow> d)"

definition rdata_length :: "other_rdata \<Rightarrow> rr \<Rightarrow> nat" where
  "rdata_length od r =
     (case Rdata r of
        RdA a \<Rightarrow> if a = None then 0 else 4
      | RdAAAA a \<Rightarrow> if a = None then 0 else 16
      | RdCNAME target \<Rightarrow> if target = [] then 0 else domainNameLen target
      | RdOther txt \<Rightarrow> length (case od_pack od (Rrtype (Hdr r)) txt of None \<Rightarrow> [] | Some bs \<Rightarrow> bs))"

definition sent_rr :: "other_rdata \<Rightarrow> rr \<Rightarrow> rr" where
  "sent_rr od r = \<lparr>Hdr = (Hdr r)\<lparr>Rdlength := of_nat (rdata_length od r)\<rparr>, Rdata = sent_rdata (Rdata r)\<rparr>"

text \<open>The data of a record, with the bytes \<open>bs\<close> as wire form.\<close>

definition rdata_wire :: "other_rdata \<Rightarrow> rr \<Rightarrow> byte list \<Rightarrow> bool" where
  "rdata_wire od r bs \<longleftrightarrow> length bs = rdata_length od r \<and> length bs < 2 ^ 16 \<and>
     domainNameLen (Hdr_Name (Hdr r)) + 10 + length bs \<le> rr_len od r \<and>
     (\<forall>cap out. length out + length bs \<le> cap \<longrightarrow> rdata_pack od cap r out = Inr (out @ bs)) \<and>
     (if bs = [] then zero_rdata od (Rrtype (Hdr r)) = sent_rdata (Rdata r)
      else \<forall>pre. rdata_unpack od (Rrtype (Hdr r)) (pre @ bs) (length pre) = Inr (sent_rdata (Rdata r), length pre + length bs))"

lemma To4_length: "To4 a = Some b \<Longrightarrow> length b = 4"
  by (auto simp: To4_def split: if_splits)

lemma rdata_wire_ex:
  assumes "rr_ok od r"
  shows "\<exists>bs. rdata_wire od r bs"
proof (cases "Rdata r")
  case (RdA a)
  then have t: "Rrtype (Hdr r) = TypeA" using assms by (simp add: rr_ok_def rr_typed_def)
  show ?thesis
  proof (cases a)
    case None
    with RdA t show ?thesis
      by (intro exI [of _ "[]"]) (simp add: rdata_wire_def rdata_length_def rr_len_def rdata_pack_def packDataA_def ip_bytes_def zero_rdata_def sent_rdata_def)
  next
    case (Some x)
    with RdA assms obtain b where b: "To4 x = Some b" by (auto simp: rr_ok_def)
    then have x: "length x = 4 \<or> length x = 16" "length b = 4" "x \<noteq> []" "b \<noteq> []"
      using To4_length [OF b] by (auto simp: To4_def split: if_splits)
    with RdA t Some b show ?thesis
      by (intro exI [of _ b]) (simp add: rdata_wire_def rdata_length_def rr_len_def rdata_pack_def packDataA_def ip_bytes_def
          rdata_unpack_def unpack_addr_def sent_rdata_def)
  qed
next
  case (RdAAAA a)
  then have t: "Rrtype (Hdr r) = TypeAAAA" using assms by (simp add: rr_ok_def rr_typed_def)
  show ?thesis
  proof (cases a)
    case None
    with RdAAAA t show ?thesis
      by (intro exI [of _ "[]"]) (simp add: rdata_wire_def rdata_length_def rr_len_def rdata_pack_def packDataAAAA_def ip_bytes_def zero_rdata_def sent_rdata_def)
  next
    case (Some x)
    with RdAAAA assms have "length x = 16" "x \<noteq> []" by (auto simp: rr_ok_def)
    with RdAAAA t Some show ?thesis
      by (intro exI [of _ x]) (simp add: rdata_wire_def rdata_length_def rr_len_def rdata_pack_def packDataAAAA_def ip_bytes_def
          rdata_unpack_def unpack_addr_def sent_rdata_def)
  qed
next
  case (RdCNAME target)
  then have t: "Rrtype (Hdr r) = TypeCNAME" using assms by (simp add: rr_ok_def rr_typed_def)
  show ?thesis
  proof (cases "target = []")
    case True
    with RdCNAME t show ?thesis
      by (intro exI [of _ "[]"]) (simp add: rdata_wire_def rdata_length_def rr_len_def rdata_pack_def packDomainName_def zero_rdata_def sent_rdata_def)
  next
    case False
    with RdCNAME assms obtain ls where ls: "name_ok ls" "target = present_name ls" by (auto simp: rr_ok_def canonical_def)
    have l: "length (wire_name ls) < 2 ^ 16" "wire_name ls \<noteq> []"
      using ls(1) by (simp_all add: length_wire_name name_ok_def) (simp add: wire_name_def)
    have u: "UnpackDomainName (pre @ wire_name ls) (length pre) = Inr (present_name ls, length pre + length (wire_name ls))" for pre
      using UnpackDomainName_wire [OF ls(1), of pre "[]"] by simp
    show ?thesis
      using RdCNAME t False l u packDomainName_wire [OF ls(1)] domainNameLen_present [OF ls(1)]
      by (intro exI [of _ "wire_name ls"]) (simp add: ls(2) rdata_wire_def rdata_length_def rr_len_def rdata_pack_def
          rdata_unpack_def sent_rdata_def)
  qed
next
  case (RdOther payload)
  then have t: "Rrtype (Hdr r) \<noteq> TypeA" "Rrtype (Hdr r) \<noteq> TypeAAAA" "Rrtype (Hdr r) \<noteq> TypeCNAME"
    and ok: "other_ok od (Rrtype (Hdr r)) payload"
    using assms by (auto simp: rr_ok_def rr_typed_def)
  from ok obtain bs where "od_pack od (Rrtype (Hdr r)) payload = Some bs" "length bs \<le> od_len od (Rrtype (Hdr r)) payload" "length bs < 2 ^ 16"
    "if bs = [] then od_zero od (Rrtype (Hdr r)) = payload
      else \<forall>pre. od_unpack od (Rrtype (Hdr r)) (pre @ bs) (length pre) = Some (payload, length pre + length bs)"
    unfolding other_ok_def by blast
  with RdOther t show ?thesis
    by (intro exI [of _ bs]) (simp add: rdata_wire_def rdata_length_def rr_len_def rdata_pack_def rdata_unpack_def
        zero_rdata_def sent_rdata_def)
qed


definition header_wire :: "byte list list \<Rightarrow> rr_header \<Rightarrow> u16 \<Rightarrow> byte list" where
  "header_wire ls h n = wire_name ls @ be16 (Rrtype h) @ be16 (Class h) @ be32 (Ttl h) @ be16 n"

lemma length_header_wire: "length (header_wire ls h n) = length (wire_name ls) + 10"
  by (simp add: header_wire_def be16_def be32_def)

lemma packHeader_wire:
  assumes "name_ok ls" and "Hdr_Name h = present_name ls" and "length out + length (header_wire ls h 0) \<le> cap"
  shows "packHeader cap h out = Inr (out @ header_wire ls h 0)"
  using assms(3) packDomainName_wire [OF assms(1), of out cap]
  by (simp add: packHeader_def assms(2) header_wire_def packUint16_def packUint32_def be16_def be32_def)

lemma unpackHeader_wire:
  assumes ls: "name_ok ls" "Hdr_Name h = present_name ls" and n: "unat n = length bs"
  shows "unpackHeader (pre @ header_wire ls h n @ bs @ post) (length pre) =
    Inr (h\<lparr>Rdlength := n\<rparr>, length (pre @ header_wire ls h n), pre @ header_wire ls h n @ bs)"
proof -
  let ?m = "pre @ header_wire ls h n @ bs @ post"
  let ?p1 = "pre @ wire_name ls" let ?p2 = "?p1 @ be16 (Rrtype h)" let ?p3 = "?p2 @ be16 (Class h)" let ?p4 = "?p3 @ be32 (Ttl h)"
  have l: "length ?p2 = length ?p1 + 2" "length ?p3 = length ?p2 + 2" "length ?p4 = length ?p3 + 4" by (simp_all add: be16_def be32_def)
  have "UnpackDomainName ?m (length pre) = Inr (present_name ls, length ?p1)"
    using UnpackDomainName_wire [OF ls(1), of pre] by (simp add: header_wire_def)
  moreover have "unpackUint16 ?m (length ?p1) = Inr (Rrtype h, length ?p2)"
    using unpackUint16_be16 [of ?p1 "Rrtype h"] unfolding l by (simp add: header_wire_def)
  moreover have "unpackUint16 ?m (length ?p2) = Inr (Class h, length ?p3)"
    using unpackUint16_be16 [of ?p2 "Class h"] unfolding l by (simp add: header_wire_def)
  moreover have "unpackUint32 ?m (length ?p3) = Inr (Ttl h, length ?p4)"
    using unpackUint32_be32 [of ?p3 "Ttl h"] unfolding l by (simp add: header_wire_def)
  moreover have "unpackUint16 ?m (length ?p4) = Inr (n, length (pre @ header_wire ls h n))"
    using unpackUint16_be16 [of ?p4 n "bs @ post"] by (simp add: header_wire_def be16_def be32_def)
  moreover have "length pre \<noteq> length ?m" by (simp add: length_header_wire)
  moreover have "take (length (pre @ header_wire ls h n) + length bs) ?m = pre @ header_wire ls h n @ bs" by simp
  moreover have "\<not> length ?m < length (pre @ header_wire ls h n) + length bs" by simp
  ultimately show ?thesis using ls(2) n unfolding unpackHeader_def by (simp del: take_append length_append)
qed

lemma patch_rdlength:
  "(out @ header_wire ls h 0 @ bs)[length (out @ header_wire ls h 0) - 2 := be16 n ! 0, length (out @ header_wire ls h 0) - 1 := be16 n ! 1] =
   out @ header_wire ls h n @ bs"
  by (simp add: header_wire_def be16_def be32_def list_update_append)

lemma packRR_wire:
  assumes ls: "name_ok ls" "Hdr_Name (Hdr r) = present_name ls" and bs: "rdata_wire od r bs"
    and cap: "length out + length (header_wire ls (Hdr r) 0 @ bs) \<le> cap"
  shows "packRR od cap r out = Inr (out @ header_wire ls (Hdr r) (of_nat (length bs)) @ bs)"
proof -
  have "packHeader cap (Hdr r) out = Inr (out @ header_wire ls (Hdr r) 0)"
    using packHeader_wire [OF ls, of out cap] cap by simp
  moreover have "rdata_pack od cap r (out @ header_wire ls (Hdr r) 0) = Inr ((out @ header_wire ls (Hdr r) 0) @ bs)"
    using bs cap unfolding rdata_wire_def by (simp add: add.assoc)
  moreover have "length bs < 2 ^ 16" using bs by (simp add: rdata_wire_def)
  ultimately show ?thesis using patch_rdlength [of out ls "Hdr r" bs "of_nat (length bs)"] by (simp add: packRR_def Let_def)
qed

lemma UnpackRR_wire:
  assumes ls: "name_ok ls" "Hdr_Name (Hdr r) = present_name ls" and bs: "rdata_wire od r bs"
  shows "UnpackRR od (pre @ (header_wire ls (Hdr r) (of_nat (length bs)) @ bs) @ post) (length pre) =
    Inr (sent_rr od r, length pre + length (header_wire ls (Hdr r) (of_nat (length bs)) @ bs))"
proof -
  let ?n = "of_nat (length bs) :: u16" let ?h = "header_wire ls (Hdr r) ?n"
  have n: "unat ?n = length bs" "rdata_length od r = length bs" using bs by (simp_all add: rdata_wire_def unat_of_nat)
  have "?n = 0 \<longleftrightarrow> bs = []" using n(1) by (metis length_0_conv unat_eq_zero)
  moreover have "if bs = [] then zero_rdata od (Rrtype (Hdr r)) = sent_rdata (Rdata r)
      else rdata_unpack od (Rrtype (Hdr r)) ((pre @ ?h) @ bs) (length (pre @ ?h)) =
        Inr (sent_rdata (Rdata r), length (pre @ ?h) + length bs)"
    using bs unfolding rdata_wire_def by metis
  ultimately show ?thesis
    using unpackHeader_wire [OF ls n(1), of pre post] n
    by (simp add: UnpackRR_def UnpackRRWithHeader_def Let_def sent_rr_def split: if_splits)
qed

interpretation rrs: wire_item "packRR od" "UnpackRR od" "rr_len od" "rr_ok od" "sent_rr od" for od
proof
  fix r
  assume ok: "rr_ok od r"
  then obtain ls bs where ls: "name_ok ls" "Hdr_Name (Hdr r) = present_name ls" and bs: "rdata_wire od r bs"
    using rdata_wire_ex [OF ok] by (auto simp: rr_ok_def canonical_def)
  let ?bs = "header_wire ls (Hdr r) (of_nat (length bs)) @ bs"
  have "length ?bs \<le> rr_len od r" "?bs \<noteq> []"
    using bs domainNameLen_present [OF ls(1)] by (simp_all add: rdata_wire_def ls(2) length_header_wire) (simp add: header_wire_def be16_def)
  moreover have "packRR od cap r out = Inr (out @ ?bs)" if "length out + length ?bs \<le> cap" for cap out
    using packRR_wire [OF ls bs, of out cap] that by (simp add: length_header_wire)
  ultimately show "\<exists>bs. bs \<noteq> [] \<and> length bs \<le> rr_len od r \<and>
      (\<forall>cap out. length out + length bs \<le> cap \<longrightarrow> packRR od cap r out = Inr (out @ bs)) \<and>
      (\<forall>pre post. UnpackRR od (pre @ bs @ post) (length pre) = Inr (sent_rr od r, length pre + length bs))"
    using UnpackRR_wire [OF ls bs] by (intro exI [of _ ?bs]) blast
qed


section \<open>The header round trip\<close>

lemma bit_flag: "n < 16 \<Longrightarrow> bit (flag n b) k \<longleftrightarrow> b \<and> k = n"
  by (auto simp: flag_def bit_exp_iff)

lemma bit_small: "0 \<le> (i :: int) \<Longrightarrow> i < 16 \<Longrightarrow> bit i k \<Longrightarrow> k < 4"
proof -
  assume i: "0 \<le> i" "i < 16" "bit i k"
  then have "take_bit 4 i = i" by (simp add: take_bit_int_eq_self)
  with i(3) show "k < 4" by (metis bit_take_bit_iff)
qed

lemma bit_low: "bit (i AND 0xF :: int) k \<longleftrightarrow> bit i k \<and> k < 4"
proof -
  have low: "(0xF :: int) = mask 4" by (simp add: mask_eq_exp_minus_1)
  show ?thesis unfolding low bit_and_iff bit_mask_iff by auto
qed

lemma bit_low_word: "bit (w AND 0xF :: u16) k \<longleftrightarrow> bit w k \<and> k < 4"
proof -
  have low: "(0xF :: u16) = mask 4" by (simp add: mask_eq_exp_minus_1)
  show ?thesis unfolding low bit_and_iff bit_mask_iff by (auto dest: bit_imp_le_length)
qed

lemma bit_header_bits:
  assumes "0 \<le> Opcode m" and "Opcode m < 16"
  shows "bit (header_bits m) k \<longleftrightarrow> k < 4 \<and> bit (Rcode m) k \<or> 11 \<le> k \<and> k < 15 \<and> bit (Opcode m) (k - 11) \<or>
    k = 15 \<and> Response m \<or> k = 10 \<and> Authoritative m \<or> k = 9 \<and> Truncated m \<or> k = 8 \<and> RecursionDesired m \<or>
    k = 7 \<and> RecursionAvailable m \<or> k = 6 \<and> Zero m \<or> k = 5 \<and> AuthenticatedData m \<or> k = 4 \<and> CheckingDisabled m"
proof -
  have "bit (push_bit 11 (word_of_int (Opcode m)) :: u16) k \<longleftrightarrow> 11 \<le> k \<and> k < 15 \<and> bit (Opcode m) (k - 11)"
    using bit_small [OF assms, of "k - 11"] by (auto simp: bit_push_bit_iff bit_word_of_int_iff)
  moreover have "bit (word_of_int (Rcode m AND 0xF) :: u16) k \<longleftrightarrow> k < 4 \<and> bit (Rcode m) k"
    by (auto simp: bit_word_of_int_iff bit_low)
  ultimately show ?thesis unfolding header_bits_def bit_or_iff by (auto simp: bit_flag)
qed

lemma test_flag: "n < 16 \<Longrightarrow> (w :: u16) AND push_bit n 1 \<noteq> 0 \<longleftrightarrow> bit w n"
  by (simp only: bit_iff_and_push_bit_not_eq_0)

lemma setHdr_header_bits:
  assumes "0 \<le> Opcode m" and "Opcode m < 16"
  shows "setHdr (MsgId m) (header_bits m) = m\<lparr>Rcode := Rcode m AND 0xF, Compress := False, Question := [], Answer := [], Ns := [], Extra := []\<rparr>"
proof -
  note b = bit_header_bits [OF assms]
  have "uint (drop_bit 11 (header_bits m) AND 0xF) = Opcode m"
  proof (rule bit_eqI)
    fix k
    show "bit (uint (drop_bit 11 (header_bits m) AND 0xF)) k = bit (Opcode m) k"
      using bit_small [OF assms, of k] by (auto simp: bit_uint_iff bit_low_word bit_drop_bit_eq b)
  qed
  moreover have "uint (header_bits m AND 0xF) = Rcode m AND 0xF"
  proof (rule bit_eqI)
    fix k
    show "bit (uint (header_bits m AND 0xF)) k = bit (Rcode m AND 0xF) k"
      by (auto simp: bit_uint_iff bit_low_word bit_low b)
  qed
  ultimately show ?thesis unfolding setHdr_def
    by (simp only: test_flag b) (simp add: new_Msg_def)
qed

text \<open>The extended response code: four bits in the header, eight in the OPT record.\<close>

lemma bit_ExtendedRcode: "bit (ExtendedRcode w) k \<longleftrightarrow> 4 \<le> k \<and> k < 12 \<and> bit w (20 + k)"
proof -
  have hi: "(0xFF000000 :: u32) = push_bit 24 (mask 8)" by (simp add: mask_eq_exp_minus_1)
  show ?thesis
    unfolding ExtendedRcode_def hi by (auto simp: bit_push_bit_iff bit_uint_iff bit_drop_bit_eq bit_and_iff bit_mask_iff)
qed

lemma extended_rcode_roundtrip:
  assumes "0 \<le> rc" and "rc \<le> 0xFFF"
  shows "(rc AND 0xF) OR ExtendedRcode (SetExtendedRcode (word_of_int rc) ttl) = rc"
proof (rule bit_eqI)
  fix k
  have small: "bit rc n \<Longrightarrow> n < 12" for n
  proof -
    have "take_bit 12 rc = rc" using assms by (simp add: take_bit_int_eq_self)
    then show "bit rc n \<Longrightarrow> n < 12" by (metis bit_take_bit_iff)
  qed
  have lo: "(0x00FFFFFF :: u32) = mask 24" by (simp add: mask_eq_exp_minus_1)
  have ext: "bit (SetExtendedRcode (word_of_int rc) ttl) (24 + j) \<longleftrightarrow> bit rc (4 + j)" if "j < 8" for j
    using that small [of "4 + j"] unfolding SetExtendedRcode_def lo
    by (auto simp: bit_or_iff bit_and_iff bit_mask_iff bit_push_bit_iff bit_ucast_iff bit_drop_bit_eq bit_word_of_int_iff)
  have "bit (SetExtendedRcode (word_of_int rc) ttl) (20 + k) \<longleftrightarrow> bit rc k" if "4 \<le> k" "k < 12"
    using ext [of "k - 4"] that by simp
  then show "bit ((rc AND 0xF) OR ExtendedRcode (SetExtendedRcode (word_of_int rc) ttl)) k = bit rc k"
    using small [of k] unfolding bit_or_iff bit_low bit_ExtendedRcode by (cases "k < 4"; cases "k < 12") auto
qed


section \<open>Messages round trip\<close>

definition msg_ok :: "other_rdata \<Rightarrow> rr msg \<Rightarrow> bool" where
  "msg_ok od m \<longleftrightarrow> \<not> (Compress m \<and> isCompressible m) \<and> 0 \<le> Opcode m \<and> Opcode m < 16 \<and> 0 \<le> Rcode m \<and> Rcode m \<le> 0xFFF \<and>
     (IsEdns0 m = None \<longrightarrow> Rcode m \<le> 0xF) \<and> list_all question_ok (Question m) \<and>
     list_all (rr_ok od) (Answer m) \<and> list_all (rr_ok od) (Ns m) \<and> list_all (rr_ok od) (Extra m) \<and>
     length (Question m) < 2 ^ 16 \<and> length (Answer m) < 2 ^ 16 \<and> length (Ns m) < 2 ^ 16 \<and> length (Extra m) < 2 ^ 16"

definition sent_msg :: "other_rdata \<Rightarrow> rr msg \<Rightarrow> rr msg" where
  "sent_msg od m = (set_opt m)\<lparr>Compress := False, Answer := map (sent_rr od) (Answer m),
     Ns := map (sent_rr od) (Ns m), Extra := map (sent_rr od) (Extra (set_opt m))\<rparr>"

lemma find_cong_set: "(\<And>x. x \<in> set xs \<Longrightarrow> P x = Q x) \<Longrightarrow> find P xs = find Q xs"
  by (induction xs) auto

lemma find_Some_in: "find P xs = Some x \<Longrightarrow> x \<in> set xs \<and> P x"
  by (induction xs) (auto split: if_splits)

lemma IsEdns0_cong:
  assumes "length (Extra m) = length (Extra m')" and "\<And>i. i < length (Extra m) \<Longrightarrow> Rrtype (Hdr (Extra m ! i)) = Rrtype (Hdr (Extra m' ! i))"
  shows "IsEdns0 m = IsEdns0 m'"
  unfolding IsEdns0_def assms(1) [symmetric] by (rule find_cong_set) (simp add: assms(2))

lemma IsEdns0_Some: "IsEdns0 m = Some i \<Longrightarrow> i < length (Extra m)"
  unfolding IsEdns0_def by (drule find_Some_in) simp

lemma set_opt_fields:
  "MsgId (set_opt m) = MsgId m" "header_bits (set_opt m) = header_bits m" "Question (set_opt m) = Question m"
  "Answer (set_opt m) = Answer m" "Ns (set_opt m) = Ns m" "length (Extra (set_opt m)) = length (Extra m)"
  "Opcode (set_opt m) = Opcode m" "Rcode (set_opt m) = Rcode m"
  by (simp_all add: set_opt_def header_bits_def split: option.split)

lemma rr_ok_set_Ttl: "rr_ok od (set_Ttl t r) = rr_ok od r"
  by (cases "Rdata r") (simp_all add: rr_ok_def set_Ttl_def rr_typed_def)

lemma set_opt_ok: "list_all (rr_ok od) (Extra m) \<Longrightarrow> list_all (rr_ok od) (Extra (set_opt m))"
  by (auto simp: set_opt_def list_all_length nth_list_update rr_ok_set_Ttl dest: IsEdns0_Some split: option.split)

lemma unat_count: "n < 2 ^ 16 \<Longrightarrow> unat (of_nat n :: u16) = n"
  by (simp add: unat_of_nat)

text \<open>Reading the extended response code of the message that arrives.\<close>

lemma set_rcode_sent:
  assumes rc: "0 \<le> Rcode m" "Rcode m \<le> 0xFFF" "IsEdns0 m = None \<Longrightarrow> Rcode m \<le> 0xF"
  shows "set_rcode ((sent_msg od m)\<lparr>Rcode := Rcode m AND 0xF\<rparr>) = sent_msg od m"
proof -
  have ty: "Rrtype (Hdr (sent_rr od r)) = Rrtype (Hdr r)" for r by (simp add: sent_rr_def)
  have "IsEdns0 ((sent_msg od m)\<lparr>Rcode := Rcode m AND 0xF\<rparr>) = IsEdns0 m"
    by (rule IsEdns0_cong)
      (auto simp: sent_msg_def set_opt_fields ty set_opt_def nth_list_update set_Ttl_def dest: IsEdns0_Some split: option.split)
  moreover have "Rcode (sent_msg od m) = Rcode m" by (simp add: sent_msg_def set_opt_fields)
  moreover have "Rcode m AND 0xF = Rcode m" if "Rcode m \<le> 0xF"
  proof -
    have low: "(0xF :: int) = mask 4" by (simp add: mask_eq_exp_minus_1)
    show ?thesis unfolding low take_bit_eq_mask [symmetric]
      using rc(1) that by (simp add: take_bit_int_eq_self)
  qed
  moreover have "Ttl (Hdr (Extra (sent_msg od m) ! i)) = SetExtendedRcode (word_of_int (Rcode m)) (Ttl (Hdr (Extra m ! i)))"
    if "IsEdns0 m = Some i" for i
    using that IsEdns0_Some [OF that] by (simp add: sent_msg_def sent_rr_def set_opt_def set_Ttl_def)
  ultimately show ?thesis
    using rc extended_rcode_roundtrip [OF rc(1,2)] by (cases "IsEdns0 m") (simp_all add: set_rcode_def)
qed

text \<open>The wire form of a message, by its parts: header and four sections.\<close>

definition header_words :: "rr msg \<Rightarrow> u16 list" where
  "header_words m = [MsgId m, header_bits m, of_nat (length (Question m)), of_nat (length (Answer m)),
     of_nat (length (Ns m)), of_nat (length (Extra m))]"

definition header_parts :: "rr msg \<Rightarrow> byte list \<Rightarrow> bool" where
  "header_parts m hb \<longleftrightarrow> length hb \<le> 12 \<and> (\<forall>cap\<ge>length hb. Header_pack cap m = Inr hb) \<and>
     (\<forall>post. unpackMsgHdr (hb @ post) = Inr (header_words m, length hb))"

definition question_parts :: "dns_question list \<Rightarrow> byte list \<Rightarrow> bool" where
  "question_parts qs bs \<longleftrightarrow> length qs \<le> length bs \<and> length bs \<le> sum_list (map (\<lambda>q. domainNameLen (q_Name q) + 4) qs) \<and>
     (\<forall>cap out. length out + length bs \<le> cap \<longrightarrow> pack_all (Question_pack cap) qs out = Inr (out @ bs)) \<and>
     (\<forall>pre post. unpack_questions (length qs) (pre @ bs @ post) (length pre) = Inr (qs, length pre + length bs))"

definition rr_parts :: "other_rdata \<Rightarrow> rr list \<Rightarrow> byte list \<Rightarrow> bool" where
  "rr_parts od rs bs \<longleftrightarrow> length rs \<le> length bs \<and> length bs \<le> sum_list (map (rr_len od) rs) \<and>
     (\<forall>cap out. length out + length bs \<le> cap \<longrightarrow> pack_all (packRR od cap) rs out = Inr (out @ bs)) \<and>
     (\<forall>pre post. unpackRRslice od (length rs) (pre @ bs @ post) (length pre) = Inr (map (sent_rr od) rs, length pre + length bs))"

lemma header_parts_ex: "\<exists>hb. header_parts m hb"
proof -
  have w6: "length (header_words m) = 6" by (simp add: header_words_def)
  obtain hb where hb: "length hb \<le> sum_list (map (\<lambda>_. 2) (header_words m))"
    "\<And>cap out. length out + length hb \<le> cap \<Longrightarrow> pack_all (packUint16 cap) (header_words m) out = Inr (out @ hb)"
    "\<And>pre post. unpack_all unpackUint16 (length (header_words m)) (pre @ hb @ post) (length pre) =
      Inr (map (\<lambda>w. w) (header_words m), length pre + length hb)"
    using u16s.items [of "header_words m"] by (auto simp: list_all_iff)
  have "unpackMsgHdr (hb @ post) = Inr (header_words m, length hb)" for post
    using hb(3) [of "[]" post] unfolding w6 unpackMsgHdr_def by simp
  moreover have "Header_pack cap m = Inr hb" if "length hb \<le> cap" for cap
    using hb(2) [of "[]" cap] that unfolding Header_pack_def header_words_def by simp
  ultimately show ?thesis using hb(1) by (auto simp: header_parts_def sum_list_triv w6)
qed

lemma question_parts_ex: "list_all question_ok qs \<Longrightarrow> \<exists>bs. question_parts qs bs"
  using questions.items [of qs] by (simp add: question_parts_def unpack_questions_def)

lemma rr_parts_ex: "list_all (rr_ok od) rs \<Longrightarrow> \<exists>bs. rr_parts od rs bs"
  using rrs.items [of od rs] by (simp add: rr_parts_def unpackRRslice_def)

lemma rr_partsD:
  "rr_parts od rs bs \<Longrightarrow> unpackRRslice od (length rs) (pre @ bs @ post) (length pre) = Inr (map (sent_rr od) rs, length pre + length bs)"
  by (simp add: rr_parts_def)

lemma packBuffer_parts:
  assumes "header_parts (set_opt m) hb" and "question_parts (Question m) bq" and "rr_parts od (Answer m) ba"
    and "rr_parts od (Ns m) bn" and "rr_parts od (Extra (set_opt m)) be"
    and rc: "\<not> (Rcode m < 0 \<or> Rcode m > 0xFFF)" "\<not> (IsEdns0 m = None \<and> Rcode m > 0xF)"
  shows "packBuffer od m = Inr (hb @ bq @ ba @ bn @ be)"
proof -
  define cap where "cap = msg_len od (set_opt m) + 1"
  have "length (hb @ bq @ ba @ bn @ be) < cap"
    using assms(1-5) by (simp add: cap_def msg_len_def set_opt_fields header_parts_def question_parts_def rr_parts_def)
  then show ?thesis
    using assms(1-5) unfolding packBuffer_def if_not_P [OF rc(1)] if_not_P [OF rc(2)] Let_def cap_def [symmetric]
    by (simp add: header_parts_def question_parts_def rr_parts_def set_opt_fields)
qed

text \<open>The parts are read back, also when the header is the whole message.\<close>

lemma Msg_Unpack_parts:
  assumes h: "header_parts m hb" and q: "question_parts (Question m) bq" and a: "rr_parts od (Answer m) ba"
    and n: "rr_parts od (Ns m) bn" and e: "rr_parts od (Extra m) be"
    and l: "length (Question m) < 2 ^ 16" "length (Answer m) < 2 ^ 16" "length (Ns m) < 2 ^ 16" "length (Extra m) < 2 ^ 16"
  shows "Msg_Unpack od (hb @ bq @ ba @ bn @ be) = Inr (set_rcode ((setHdr (MsgId m) (header_bits m))\<lparr>Question := Question m,
    Answer := map (sent_rr od) (Answer m), Ns := map (sent_rr od) (Ns m), Extra := map (sent_rr od) (Extra m)\<rparr>))"
proof -
  have ws: "unat (header_words m ! 2) = length (Question m)" "unat (header_words m ! 3) = length (Answer m)"
    "unat (header_words m ! 4) = length (Ns m)" "unat (header_words m ! 5) = length (Extra m)"
    "header_words m ! 0 = MsgId m" "header_words m ! 1 = header_bits m"
    using l by (simp_all add: header_words_def unat_count)
  have hd: "unpackMsgHdr (hb @ bq @ ba @ bn @ be) = Inr (header_words m, length hb)" using h by (simp add: header_parts_def)
  show ?thesis
  proof (cases "bq @ ba @ bn @ be = []")
    case True
    then have "Question m = []" "Answer m = []" "Ns m = []" "Extra m = []"
      using q a n e by (simp_all add: question_parts_def rr_parts_def)
    moreover have "set_rcode (setHdr i b) = setHdr i b" "(setHdr i b)\<lparr>Question := [], Answer := [], Ns := [], Extra := []\<rparr> = setHdr i b" for i b
      by (simp_all add: set_rcode_def IsEdns0_def setHdr_def new_Msg_def)
    ultimately show ?thesis using True hd ws by (simp add: Msg_Unpack_def Let_def)
  next
    case False
    then have "length hb \<noteq> length (hb @ bq @ ba @ bn @ be)" by auto
    moreover have "unpack_questions (length (Question m)) (hb @ bq @ ba @ bn @ be) (length hb) = Inr (Question m, length (hb @ bq))"
      using q unfolding question_parts_def by simp
    moreover have "unpackRRslice od (length (Answer m)) (hb @ bq @ ba @ bn @ be) (length (hb @ bq)) =
        Inr (map (sent_rr od) (Answer m), length (hb @ bq @ ba))"
      using rr_partsD [OF a, of "hb @ bq" "bn @ be"] by (simp add: add.assoc)
    moreover have "unpackRRslice od (length (Ns m)) (hb @ bq @ ba @ bn @ be) (length (hb @ bq @ ba)) =
        Inr (map (sent_rr od) (Ns m), length (hb @ bq @ ba @ bn))"
      using rr_partsD [OF n, of "hb @ bq @ ba" be] by (simp add: add.assoc)
    moreover have "unpackRRslice od (length (Extra m)) (hb @ bq @ ba @ bn @ be) (length (hb @ bq @ ba @ bn)) =
        Inr (map (sent_rr od) (Extra m), length (hb @ bq @ ba @ bn @ be))"
      using rr_partsD [OF e, of "hb @ bq @ ba @ bn" "[]"] by (simp add: add.assoc)
    ultimately show ?thesis using hd ws unfolding Msg_Unpack_def by (simp del: length_append add: Let_def)
  qed
qed

lemma sent_msg_low:
  "(sent_msg od m)\<lparr>Rcode := c\<rparr> = (set_opt m)\<lparr>Rcode := c, Compress := False, Question := Question m, Answer := map (sent_rr od) (Answer m),
     Ns := map (sent_rr od) (Ns m), Extra := map (sent_rr od) (Extra (set_opt m))\<rparr>"
  using set_opt_fields(3) [of m] by (cases "set_opt m") (simp add: sent_msg_def)

lemma Pack_Unpack:
  assumes ok: "msg_ok od m"
  shows "\<exists>bs. Msg_Pack od compressed m = Inr bs \<and> Msg_Unpack od bs = Inr (sent_msg od m)"
proof -
  let ?m = "set_opt m"
  obtain hb bq ba bn be where parts: "header_parts ?m hb" "question_parts (Question m) bq" "rr_parts od (Answer m) ba"
    "rr_parts od (Ns m) bn" "rr_parts od (Extra ?m) be"
    using header_parts_ex question_parts_ex rr_parts_ex set_opt_ok ok unfolding msg_ok_def by metis
  have "packBuffer od m = Inr (hb @ bq @ ba @ bn @ be)" by (rule packBuffer_parts [OF parts]) (use ok in \<open>auto simp: msg_ok_def\<close>)
  then have "Msg_Pack od compressed m = Inr (hb @ bq @ ba @ bn @ be)" using ok by (auto simp: Msg_Pack_def msg_ok_def)
  moreover have "setHdr (MsgId ?m) (header_bits ?m) =
      ?m\<lparr>Rcode := Rcode ?m AND 0xF, Compress := False, Question := [], Answer := [], Ns := [], Extra := []\<rparr>"
    using ok by (intro setHdr_header_bits) (simp_all add: msg_ok_def set_opt_fields)
  then have "Msg_Unpack od (hb @ bq @ ba @ bn @ be) = Inr (set_rcode ((sent_msg od m)\<lparr>Rcode := Rcode m AND 0xF\<rparr>))"
    using Msg_Unpack_parts [of ?m hb bq od ba bn be] parts ok by (simp add: set_opt_fields msg_ok_def sent_msg_low)
  moreover have "set_rcode ((sent_msg od m)\<lparr>Rcode := Rcode m AND 0xF\<rparr>) = sent_msg od m"
    using ok by (intro set_rcode_sent) (auto simp: msg_ok_def)
  ultimately show ?thesis by simp
qed


section \<open>Unpacking arbitrary messages\<close>

text \<open>
  Not all that the library unpacks it packs again: the value of an SVCB record with an empty
  protocol id, for example, is unpacked but refused by its pack method. What can be sent on is
  therefore said record by record: the data of a type other than A, AAAA and CNAME packs, and
  unpacks to itself.
\<close>

definition repacks :: "other_rdata \<Rightarrow> rr \<Rightarrow> bool" where
  "repacks od r = (case Rdata r of RdOther payload \<Rightarrow> other_ok od (Rrtype (Hdr r)) payload | _ \<Rightarrow> True)"

definition refused :: "other_rdata \<Rightarrow> rr \<Rightarrow> bool" where
  "refused od r = (case Rdata r of RdOther payload \<Rightarrow> od_pack od (Rrtype (Hdr r)) payload = None | _ \<Rightarrow> False)"

definition all_records :: "rr msg \<Rightarrow> rr list" where
  "all_records m = Answer m @ Ns m @ Extra m"

lemma unpack_all_list:
  assumes "unpack_all f n m off = Inr (xs, off')" and "\<And>off x off'. f m off = Inr (x, off') \<Longrightarrow> off' \<noteq> off \<Longrightarrow> P x"
  shows "list_all P xs \<and> length xs \<le> n"
  using assms(1)
proof (induction n arbitrary: off xs)
  case (Suc n)
  then show ?case using assms(2) by (auto simp: go_bind_Inr_iff split: if_splits)
qed simp

lemma unpackQuestion_ok:
  assumes "unpackQuestion m off = Inr (q, off')"
  shows "question_ok q"
proof -
  obtain s off1 where u: "UnpackDomainName m off = Inr (s, off1)"
    using assms by (cases "UnpackDomainName m off") (auto simp: unpackQuestion_def)
  have "q_Name q = s"
  proof (cases "unpackUint16 m off1")
    case (Inl e)
    with assms u show ?thesis by (auto simp: unpackQuestion_def split: if_splits)
  next
    case (Inr x)
    then obtain t off2 where "unpackUint16 m off1 = Inr (t, off2)" by (cases x) simp
    with assms u show ?thesis
      by (cases "unpackUint16 m off2") (auto simp: unpackQuestion_def split: if_splits)
  qed
  then show ?thesis using UnpackDomainName_canonical(1) [OF u] by (simp add: question_ok_def)
qed

lemma rdata_unpack_typed:
  assumes "rdata_unpack od (Rrtype h) m off = Inr (d, off')"
  shows "rr_typed \<lparr>Hdr = h, Rdata = d\<rparr>"
  using assms by (auto simp: rdata_unpack_def rr_typed_def go_bind_Inr_iff split: if_splits option.splits)

lemma zero_rdata_typed: "rr_typed \<lparr>Hdr = h, Rdata = zero_rdata od (Rrtype h)\<rparr>"
  by (simp add: zero_rdata_def rr_typed_def)

lemma UnpackRR_typed:
  assumes "UnpackRR od m off = Inr (r, off')"
  shows "rr_typed r"
  using assms zero_rdata_typed rdata_unpack_typed
  by (auto simp: UnpackRR_def UnpackRRWithHeader_def Let_def go_bind_Inr_iff split: if_splits)

lemma unpackHeader_name:
  "unpackHeader m off = Inr (h, off', m') \<Longrightarrow> off \<noteq> length m \<Longrightarrow> canonical (Hdr_Name h)"
  by (auto simp: unpackHeader_def go_bind_Inr_iff dest: UnpackDomainName_canonical(1) split: if_splits)

lemma UnpackRR_progress:
  assumes u: "UnpackRR od m off = Inr (r, off')" and p: "off' \<noteq> off"
  shows "canonical (Hdr_Name (Hdr r))"
proof (cases "off = length m")
  case True
  with u have "off' = off" by (auto simp: UnpackRR_def unpackHeader_def UnpackRRWithHeader_def split: if_splits)
  with p show ?thesis by simp
next
  case False
  with u show ?thesis
    by (auto simp: UnpackRR_def UnpackRRWithHeader_def Let_def go_bind_Inr_iff dest!: unpackHeader_name split: if_splits)
qed

lemma UnpackRR_ok:
  assumes od: "repacks od r" and u: "UnpackRR od m off = Inr (r, off')" and p: "off' \<noteq> off"
  shows "rr_ok od r"
proof -
  note n = UnpackRR_progress [OF u p] and t = UnpackRR_typed [OF u]
  from u obtain h m' off1 where r: "Hdr r = h" "Rdata r = zero_rdata od (Rrtype h) \<or> (\<exists>off2. rdata_unpack od (Rrtype h) m' off1 = Inr (Rdata r, off2))"
    by (auto simp: UnpackRR_def UnpackRRWithHeader_def Let_def go_bind_Inr_iff split: if_splits) blast
  have "case Rdata r of RdA a \<Rightarrow> (\<forall>bs. a = Some bs \<longrightarrow> To4 bs \<noteq> None) | RdAAAA a \<Rightarrow> (\<forall>bs. a = Some bs \<longrightarrow> length bs = 16)
      | RdCNAME target \<Rightarrow> target = [] \<or> canonical target | RdOther payload \<Rightarrow> other_ok od (Rrtype h) payload"
    using r(2)
  proof
    assume "Rdata r = zero_rdata od (Rrtype h)"
    then show ?thesis using od r(1) by (auto simp: zero_rdata_def repacks_def)
  next
    assume "\<exists>off2. rdata_unpack od (Rrtype h) m' off1 = Inr (Rdata r, off2)"
    then show ?thesis
      using od r(1) by (cases "Rdata r"; auto simp: rdata_unpack_def unpack_addr_def To4_def repacks_def go_bind_Inr_iff
          dest: UnpackDomainName_canonical(1) split: if_splits option.splits; blast)
  qed
  with n t r(1) show ?thesis by (cases "Rdata r") (simp_all add: rr_ok_def)
qed


lemma set_rcode_fields:
  "Question (set_rcode m) = Question m" "Answer (set_rcode m) = Answer m" "Ns (set_rcode m) = Ns m"
  "Extra (set_rcode m) = Extra m" "Opcode (set_rcode m) = Opcode m" "Compress (set_rcode m) = Compress m"
  "IsEdns0 (set_rcode m) = IsEdns0 m" "MsgId (set_rcode m) = MsgId m"
  by (simp_all add: set_rcode_def IsEdns0_def split: option.split)

lemma setHdr_range:
  "0 \<le> Opcode (setHdr i bits)" "Opcode (setHdr i bits) < 16" "0 \<le> Rcode (setHdr i bits)" "Rcode (setHdr i bits) < 16"
  "Compress (setHdr i bits) = False" "MsgId (setHdr i bits) = i"
proof -
  have "uint (w AND 0xF :: u16) < 16" for w
  proof -
    have low: "(0xF :: u16) = mask 4" by (simp add: mask_eq_exp_minus_1)
    have "uint (w AND mask 4) = take_bit 4 (uint w)" by (simp add: take_bit_eq_mask [symmetric] unsigned_take_bit_eq)
    also have "\<dots> < 2 ^ 4" by (rule take_bit_int_less_exp)
    finally show ?thesis unfolding low by simp
  qed
  then show "Opcode (setHdr i bits) < 16" "Rcode (setHdr i bits) < 16" by (simp_all add: setHdr_def)
qed (simp_all add: setHdr_def new_Msg_def)

lemma setHdr_sections:
  "Question (setHdr i bits) = []" "Answer (setHdr i bits) = []" "Ns (setHdr i bits) = []" "Extra (setHdr i bits) = []"
  by (simp_all add: setHdr_def new_Msg_def)

lemma set_rcode_range:
  assumes "0 \<le> Rcode m" and "Rcode m < 16"
  shows "0 \<le> Rcode (set_rcode m)" "Rcode (set_rcode m) \<le> 0xFFF" "IsEdns0 m = None \<Longrightarrow> Rcode (set_rcode m) \<le> 0xF"
proof -
  have "0 \<le> Rcode m OR ExtendedRcode w \<and> Rcode m OR ExtendedRcode w \<le> 0xFFF" for w
  proof -
    let ?x = "Rcode m OR ExtendedRcode w"
    have "0 \<le> ?x" using assms(1) by (simp add: ExtendedRcode_def)
    moreover have "take_bit 12 ?x = ?x"
    proof (rule bit_eqI)
      fix k
      show "bit (take_bit 12 ?x) k = bit ?x k"
        using bit_small [OF assms, of k] by (auto simp: bit_take_bit_iff bit_or_iff bit_ExtendedRcode)
    qed
    ultimately show ?thesis using take_bit_int_less_exp [of 12 ?x] by simp
  qed
  then show "0 \<le> Rcode (set_rcode m)" "Rcode (set_rcode m) \<le> 0xFFF"
    using assms by (auto simp: set_rcode_def split: option.split)
  show "IsEdns0 m = None \<Longrightarrow> Rcode (set_rcode m) \<le> 0xF" using assms by (simp add: set_rcode_def)
qed


text \<open>
  Whatever bytes are accepted as a message: its questions and its header can be sent, and so
  can the message if its records can.
\<close>

lemma Msg_Unpack_ok:
  assumes u: "Msg_Unpack od bs = Inr m"
  shows "list_all (repacks od) (all_records m) \<Longrightarrow> msg_ok od m" and "msg_ok od (m\<lparr>Answer := [], Ns := [], Extra := [], Rcode := 0\<rparr>)"
proof -
  obtain ws off where h: "unpackMsgHdr bs = Inr (ws, off)"
    using u by (cases "unpackMsgHdr bs") (auto simp: Msg_Unpack_def)
  let ?h = "setHdr (ws ! 0) (ws ! 1)"
  have "(list_all (repacks od) (all_records m) \<longrightarrow> msg_ok od m) \<and> msg_ok od (m\<lparr>Answer := [], Ns := [], Extra := [], Rcode := 0\<rparr>)"
  proof (cases "off = length bs")
    case True
    with u h have "m = ?h" by (simp add: Msg_Unpack_def Let_def)
    then show ?thesis using setHdr_range [of "ws ! 0" "ws ! 1"] by (simp add: msg_ok_def setHdr_def new_Msg_def IsEdns0_def)
  next
    case False
    with u h obtain qs an ns ex o1 o2 o3 o4 where parts:
      "unpack_questions (unat (ws ! 2)) bs off = Inr (qs, o1)" "unpackRRslice od (unat (ws ! 3)) bs o1 = Inr (an, o2)"
      "unpackRRslice od (unat (ws ! 4)) bs o2 = Inr (ns, o3)" "unpackRRslice od (unat (ws ! 5)) bs o3 = Inr (ex, o4)"
      and m: "m = set_rcode (?h\<lparr>Question := qs, Answer := an, Ns := ns, Extra := ex\<rparr>)"
      by (auto simp: Msg_Unpack_def Let_def go_bind_Inr_iff)
    have small: "unat (w :: u16) < 2 ^ 16" for w using unsigned_less [of w, where ?'a = nat] by simp
    have q: "list_all question_ok qs \<and> length qs \<le> unat (ws ! 2)"
      by (rule unpack_all_list [OF parts(1) [unfolded unpack_questions_def]]) (rule unpackQuestion_ok)
    have r: "(list_all (repacks od) rs \<longrightarrow> list_all (rr_ok od) rs) \<and> length rs \<le> unat w"
      if "unpackRRslice od (unat w) bs a = Inr (rs, b)" for w rs a b
      using unpack_all_list [OF that [unfolded unpackRRslice_def], of "\<lambda>r. repacks od r \<longrightarrow> rr_ok od r"] UnpackRR_ok
      by (auto simp: list_all_iff)
    show ?thesis
      using q r [OF parts(2)] r [OF parts(3)] r [OF parts(4)] small [of "ws ! 2"] small [of "ws ! 3"] small [of "ws ! 4"] small [of "ws ! 5"]
        setHdr_range [of "ws ! 0" "ws ! 1"] set_rcode_range [of "?h\<lparr>Question := qs, Answer := an, Ns := ns, Extra := ex\<rparr>"]
      unfolding m msg_ok_def all_records_def by (simp add: set_rcode_fields IsEdns0_def)
  qed
  then show "list_all (repacks od) (all_records m) \<Longrightarrow> msg_ok od m" "msg_ok od (m\<lparr>Answer := [], Ns := [], Extra := [], Rcode := 0\<rparr>)"
    by blast+
qed

lemma Msg_Unpack_typed:
  assumes u: "Msg_Unpack od bs = Inr m"
  shows "list_all rr_typed (Answer m) \<and> list_all rr_typed (Ns m) \<and> list_all rr_typed (Extra m)"
proof -
  have r: "list_all rr_typed rs" if "unpackRRslice od n bs a = Inr (rs, b)" for n rs a b
    using unpack_all_list [OF that [unfolded unpackRRslice_def], of rr_typed] UnpackRR_typed by blast
  show ?thesis
    using u r by (auto simp: Msg_Unpack_def Let_def go_bind_Inr_iff set_rcode_fields setHdr_sections split: if_splits)
qed

section \<open>Messages that cannot be packed\<close>

lemma packRR_refused: "refused od r \<Longrightarrow> packRR od cap r out \<noteq> Inr out'"
  by (auto simp: refused_def packRR_def rdata_pack_def go_bind_Inr_iff split: rdata.splits)

lemma pack_all_fails:
  "x \<in> set xs \<Longrightarrow> (\<And>out out'. f x out \<noteq> Inr out') \<Longrightarrow> pack_all f xs out \<noteq> Inr out'"
  by (induction xs arbitrary: out) (auto simp: go_bind_Inr_iff)

lemma refused_set_opt:
  assumes "r \<in> set (all_records m)" and "refused od r"
  shows "\<exists>r\<in>set (all_records (set_opt m)). refused od r"
proof (cases "IsEdns0 m")
  case None
  with assms show ?thesis by (auto simp: set_opt_def)
next
  case (Some i)
  have refused_Ttl: "refused od (set_Ttl t r) = refused od r" for t r
    by (cases "Rdata r") (simp_all add: refused_def set_Ttl_def)
  have i: "i < length (Extra m)" using find_Some_in [OF Some [unfolded IsEdns0_def]] by simp
  show ?thesis
  proof (cases "r \<in> set (Answer m) \<or> r \<in> set (Ns m)")
    case True
    with assms(2) show ?thesis by (auto simp: set_opt_def Some all_records_def)
  next
    case False
    with assms(1) obtain j where j: "j < length (Extra m)" "r = Extra m ! j" by (auto simp: all_records_def in_set_conv_nth)
    have "refused od (Extra (set_opt m) ! j)"
      using assms(2) j i refused_Ttl by (cases "i = j") (auto simp: set_opt_def Some)
    moreover have "Extra (set_opt m) ! j \<in> set (all_records (set_opt m))"
      using j(1) by (auto simp: set_opt_def Some all_records_def)
    ultimately show ?thesis by blast
  qed
qed

text \<open>One record that its type refuses to pack spoils the message.\<close>

lemma Msg_Pack_refused:
  assumes "r \<in> set (all_records m)" and "refused od r" and "Compress m = False"
  shows "Msg_Pack od compressed m \<noteq> Inr bs"
proof -
  obtain r' where r': "r' \<in> set (all_records (set_opt m))" "refused od r'" using refused_set_opt [OF assms(1,2)] by blast
  have fails: "pack_all (packRR od cap) rs out \<noteq> Inr out'" if "r' \<in> set rs" for cap rs out out'
    using that packRR_refused [OF r'(2)] by (rule pack_all_fails)
  show ?thesis
  proof
    assume "Msg_Pack od compressed m = Inr bs"
    then have "packBuffer od m = Inr bs" using assms(3) by (simp add: Msg_Pack_def)
    then obtain cap o1 o2 o3 o4 o5 where "pack_all (packRR od cap) (Answer (set_opt m)) o1 = Inr o2"
      "pack_all (packRR od cap) (Ns (set_opt m)) o2 = Inr o3" "pack_all (packRR od cap) (Extra (set_opt m)) o4 = Inr o5"
      by (auto simp: packBuffer_def Let_def go_bind_Inr_iff split: if_splits)
    with fails r'(1) show False by (auto simp: all_records_def)
  qed
qed

end
