(* ===== verification/Typed_Records.thy ===== *)
theory Typed_Records
  imports Workers
begin

text \<open>
  The dynamic types of records. A \<open>dns.RR\<close> is an interface value: its header says which type
  of record it is, and \<open>canFollow\<close> (src/handler.go) asserts that a record whose header says
  CNAME is a \<open>*dns.CNAME\<close>. Records come from the unpacker and the zone-file parser of
  miekg/dns, which choose the Go type from the type in the header, and from
  \<open>blockedResponseFor\<close>; every operation keeps header and Go type in agreement.
\<close>

section \<open>Typed records\<close>

abbreviation (input) heap_typed :: "rr_heap \<Rightarrow> bool" where
  "heap_typed h \<equiv> list_all rr_typed h"

text \<open>What the unpacker promises of messages from the network.\<close>

definition upstream_typed :: "'re leng_env \<Rightarrow> bool" where
  "upstream_typed env \<longleftrightarrow>
     (\<forall>bs m. Unpack (le_codec env) bs = Some m \<longrightarrow> list_all rr_typed (Answer m)) \<and>
     (\<forall>n i ns net d req m. env_exchange (le_ups env n) i ns net d req = ExOk m \<longrightarrow> list_all rr_typed (Answer m))"

lemma rr_typed_set_Ttl: "set_Ttl 0 a = set_Ttl 0 b \<Longrightarrow> rr_typed a = rr_typed b"
  unfolding rr_typed_def by (metis set_Ttl_fields)

text \<open>Writing times to live changes no type.\<close>

lemma heap_typed_ext:
  assumes "heap_typed h" and "heap_ext h h'" and "length h' = length h"
  shows "heap_typed h'"
proof -
  have "rr_typed (h' ! i)" if "i < length h'" for i
  proof -
    have "set_Ttl 0 (h' ! i) = set_Ttl 0 (h ! i)" "rr_typed (h ! i)"
      using assms that by (simp_all add: heap_ext_def list_all_length)
    then show ?thesis using rr_typed_set_Ttl by blast
  qed
  then show ?thesis by (simp add: list_all_length)
qed

lemma null_rr_typed:
  "blockedResponseFor cfg r (isIPQuery q) h = Inr (m, h') \<Longrightarrow> heap_typed h \<Longrightarrow> heap_typed h'"
  by (auto simp: blockedResponseFor_def Let_def null_rr_def rr_typed_def split: list.splits if_splits)

lemma lookup_call_typed:
  assumes l: "lookup_call env Net r w = Inr (res, w')" and env: "upstream_typed env" and h: "heap_typed (rrs w)"
  shows "heap_typed (rrs w')"
proof -
  let ?cfg = "el_config (evl w)"
  obtain r0 met where L: "Lookup (le_codec env) (le_ups env (lookups w)) Net (wire (rrs w) r) (Timeout ?cfg)
      (Interval ?cfg) (Nameservers (Upstream_config ?cfg)) (UpstreamDoH (Upstream_config ?cfg)) (mets w) = Inr (r0, met)"
    using l by (auto simp: lookup_call_def Let_def go_bind_Inr_iff)
  show ?thesis
  proof (cases r0)
    case (Inl e)
    with l L h show ?thesis by (auto simp: lookup_call_def Let_def)
  next
    case (Inr m)
    obtain q qs where "Question (wire (rrs w) r) = q # qs" using L by (cases "Question (wire (rrs w) r)") (auto simp: Lookup_def)
    from Lookup_cases [OF this L [unfolded Inr]] have "list_all rr_typed (Answer m)"
      using env by (auto simp: upstream_typed_def DoHLookup_def Let_def split: list.splits option.splits if_splits)
    with l L h Inr show ?thesis by (auto simp: lookup_call_def Let_def receive_def alloc_rrs_def)
  qed
qed

lemma Get_typed:
  assumes "lcache_inv c" and "lengCache_Get DefaultEntry_RRs k now h c = (r, h', c')" and "heap_typed h"
  shows "heap_typed h'"
proof (rule heap_typed_ext [OF assms(3)])
  show "heap_ext h h'" using Get_effect [OF assms(1,2)] by blast
  show "length h' = length h" using lc.get_cases [OF assms(1), of k now h] assms(2) by (auto split: if_splits)
qed

lemma worker_step_typed:
  assumes step: "worker_step env Net req pt wr w = Inr (pt', wr', w')" and env: "upstream_typed env"
    and ok: "world_ok w" and h: "heap_typed (rrs w)"
  shows "heap_typed (rrs w')"
proof -
  have c: "lcache_inv (el_cache (evl w))" "lcache_inv (el_negCache (evl w))"
    using ok by (simp_all add: world_ok_def entries_ok_def failures_ok_def)
  show ?thesis
  proof (cases pt)
    case (Begin c r)
    with step h show ?thesis
      by (auto simp: worker_step_def go_quiet_Inr begin_step_def go_bind_Inr_iff Let_def alloc_msg_def
          split: option.splits list.splits)
  next
    case (CheckBlocked c r q ip)
    with step h show ?thesis
      by (auto simp: worker_step_def go_quiet_Inr check_blocked_step_def go_bind_Inr_iff alloc_msg_def
          split: if_splits dest: null_rr_typed)
  next
    case (CheckCache c' r q ip)
    with step Get_typed [OF c(1) _ h] show ?thesis
      by (auto simp: worker_step_def quiet_def check_cache_step_def alloc_msg_def split: prod.splits sum.splits)
  next
    case (CheckNegCache c' r q ip)
    with step Get_typed [OF c(2) _ h] show ?thesis
      by (auto simp: worker_step_def quiet_def check_negCache_step_def split: prod.splits sum.splits)
  next
    case (AskUpstream c' r q ip net)
    with step lookup_call_typed [OF _ env h] show ?thesis by (auto simp: worker_step_def go_bind_Inr_iff)
  next
    case (Answered_by c' r q ip net res)
    with step h show ?thesis
      by (auto simp: worker_step_def quiet_def upstream_step_def cache_failure_def alloc_msg_def split: sum.splits if_splits)
  next
    case (Deferred c' r ip ans)
    with step h show ?thesis
      by (cases ans) (auto simp: worker_step_def finish_reply_def go_bind_Inr_iff Let_def split: option.splits)
  next
    case (Returning c' ans)
    with step h show ?thesis
      by (auto simp: worker_step_def returning_step_def go_bind_Inr_iff Let_def
          split: caller.splits prod.splits bool.splits option.splits)
  next
    case (Targets resp cnames n)
    with step h show ?thesis by (auto simp: worker_step_def go_quiet_Inr target_step_def split: list.splits)
  qed (use step h in \<open>auto simp: worker_step_def append_step_def go_bind_Inr_iff\<close>)
qed

lemma wire_typed: "refs_ok (Answer m) h \<Longrightarrow> heap_typed h \<Longrightarrow> list_all rr_typed (Answer (wire h m))"
  by (auto simp: wire_def refs_ok_def list_all_iff)

text \<open>Everything a worker writes is typed.\<close>

definition writes_typed :: "response_writer \<Rightarrow> bool" where
  "writes_typed wr \<longleftrightarrow> (\<forall>m\<in>set (w_written wr). list_all rr_typed (Answer m))"

lemma worker_step_writes_typed:
  assumes step: "worker_step env Net req pt wr w = Inr (pt', wr', w')" and ok: "world_ok w" and pt: "point_ok req w pt"
    and h: "heap_typed (rrs w)" and wr: "writes_typed wr"
  shows "writes_typed wr'"
proof (cases "speaks pt")
  case False
  with step_silent [OF step] wr show ?thesis by simp
next
  case True
  then consider "pt = Closed" | i where "pt = Writing i" | c ans where "pt = Returning c ans" by (cases pt) auto
  then show ?thesis
  proof cases
    case (2 i)
    then have "refs_ok (Answer (msgs w ! i)) (rrs w)" using ok pt by (simp add: world_ok_def reply_ok_def)
    with 2 step wr wire_typed [OF _ h] show ?thesis by (auto simp: worker_step_def writes_typed_def WriteReplyMsg_def)
  next
    case (3 c ans)
    with step wr show ?thesis
      by (auto simp: worker_step_def returning_step_def writes_typed_def WriteReplyMsg_def go_bind_Inr_iff Let_def wire_def
          split: caller.splits prod.splits bool.splits option.splits)
  qed (use step wr in \<open>simp add: worker_step_def\<close>)
qed

lemma run_worker_typed:
  assumes "run_worker env Net req pt wr w = Inr (wr', w')" and "upstream_typed env" and "Question req \<noteq> []"
    and "world_ok w" and "point_ok req w pt" and "writer_ok req pt wr" and "heap_typed (rrs w)" and "writes_typed wr"
  shows "heap_typed (rrs w') \<and> writes_typed wr' \<and> world_ok w'"
  using assms
proof (induction env Net req pt wr w rule: run_worker.induct)
  case (1 env Net req pt wr w)
  show ?case
  proof (cases "pt = Closed")
    case True
    with 1 show ?thesis by simp
  next
    case False
    let ?v = "if yields pt then yield w else w"
    have v: "world_ok ?v" "ext w ?v" "heap_typed (rrs ?v)" "mets ?v = mets w" using yield_ok [OF 1(5)] 1(5,8) by auto
    then have "point_ok req ?v pt" using point_ok_keeps [OF 1(6) ext_keeps [OF v(2), of "{}"]] by simp
    moreover obtain pt1 wr1 w1 where st: "worker_step env Net req pt wr ?v = Inr (pt1, wr1, w1)"
      and run: "run_worker env Net req pt1 wr1 w1 = Inr (wr', w')"
      using False 1(2) by (auto simp: run_step go_bind_Inr_iff)
    ultimately show ?thesis
      using worker_step_good [OF st v(1) 1(4) _ 1(7)] worker_step_typed [OF st 1(3) v(1,3)]
        worker_step_writes_typed [OF st v(1) _ v(3) 1(9)] 1(3,4)
      by (intro 1(1) [OF False st refl refl run]) (auto simp: good_step_def)
  qed
qed

lemma canFollow_typed:
  assumes "heap_typed h" and "refs_ok (Answer resp) h" and "canFollow h req resp = Inr (cnames, ok)"
    and "Question req = q # qs" and "q_Qtype q \<noteq> TypeCNAME"
  shows "length cnames = length (filter (\<lambda>r. isCname (h ! r)) (Answer resp)) \<and>
    ok = (\<not> list_ex isA (map ((!) h) (Answer resp)) \<and> list_ex isCname (map ((!) h) (Answer resp)))"
proof -
  have "rr_typed (h ! r)" if "r \<in> set (Answer resp)" for r
    using assms(1,2) that by (simp add: refs_ok_def list_all_iff)
  then have some: "\<exists>t. cname_target (h ! r) = Some t" if "r \<in> set (Answer resp)" "isCname (h ! r)" for r
    using that by (force simp: isCname_def rr_typed_def split: rdata.splits)
  have "length (List.map_filter (\<lambda>r. if isCname r then cname_target r else None) (map ((!) h) rs)) =
      length (filter (\<lambda>r. isCname (h ! r)) rs)" if "set rs \<subseteq> set (Answer resp)" for rs
    using that
  proof (induction rs)
    case (Cons r rs)
    then show ?case using some [of r] by (cases "isCname (h ! r)") (auto simp: List.map_filter_simps simp del: cname_target.simps)
  qed (simp add: List.map_filter_simps)
  from this [OF subset_refl] show ?thesis
    using assms(3-5) by (auto simp: canFollow_def Let_def list_ex_iff filter_empty_conv)
qed

section \<open>Properties\<close>

text \<open>
  C21. Header and Go type of every record agree: if they do for the records in memory and
  for those that the unpacker makes of upstream messages, then they do for every record in
  memory after a request, whatever path it took, and for every record of the reply; and the
  type assertion with which \<open>canFollow\<close> collects CNAME records never fails.
\<close>

theorem records_stay_typed:
  assumes "upstream_typed env" and "world_ok w" and "heap_typed (rrs w)" and "Question req \<noteq> []"
    and "w_written wr = []" and "\<not> w_closed wr" and "doRequest env Net wr req w = Inr (wr', w')"
  shows "heap_typed (rrs w') \<and> (\<forall>m\<in>set (w_written wr'). list_all rr_typed (Answer m)) \<and>
    (\<forall>m\<in>set (msgs w'). \<forall>r q qs cnames ok. Question r = q # qs \<longrightarrow> q_Qtype q \<noteq> TypeCNAME \<longrightarrow>
      canFollow (rrs w') r m = Inr (cnames, ok) \<longrightarrow>
      length cnames = length (filter (\<lambda>r. isCname (rrs w' ! r)) (Answer m)))"
proof -
  have "run_worker env Net req (Begin ForRequest req) wr w = Inr (wr', w')"
    using assms(7) by (simp add: run_worker_doRequest)
  from run_worker_typed [OF this assms(1,4,2)] assms(3,5,6) have R: "heap_typed (rrs w')" "writes_typed wr'" "world_ok w'"
    by (simp_all add: call_ok_def writer_ok_def writes_typed_def)
  have "refs_ok (Answer m) (rrs w')" if "m \<in> set (msgs w')" for m using R(3) that by (simp add: world_ok_def)
  with R canFollow_typed [OF R(1)] show ?thesis by (auto simp: writes_typed_def)
qed

theorem records_stay_typed_witness:
  "\<exists>wr' w'. doRequest (ex_leng (\<lambda>_. ex_env None (\<lambda>_. ExErr) [])) ''udp'' ex_writer ex_request
     (ex_world ex_config ex_blocklist Map.empty []) = Inr (wr', w') \<and>
     w_written wr' \<noteq> [] \<and> (\<forall>m\<in>set (w_written wr'). list_all rr_typed (Answer m))"
proof -
  let ?env = "ex_leng (\<lambda>_. ex_env None (\<lambda>_. ExErr) [])" and ?w = "ex_world ex_config ex_blocklist Map.empty []"
  obtain wr' w' where d: "doRequest ?env ''udp'' ex_writer ex_request ?w = Inr (wr', w')"
    using ex_request_runs by blast
  have t: "upstream_typed ?env" by (auto simp: upstream_typed_def ex_leng_def ex_env_def ex_codec_def ex_ok_def ex_question_def split: if_splits)
  have e: "Question ex_request \<noteq> []" "w_written ex_writer = []" "\<not> w_closed ex_writer"
    using ex_request_Question by (simp_all add: ex_writer_def)
  have "\<forall>m\<in>set (w_written wr'). list_all rr_typed (Answer m)"
    using records_stay_typed [OF t ex_world_ok _ e d] by simp
  moreover have "w_written wr' \<noteq> []" using doRequest_reply [OF ex_world_ok _ d] ex_request_Question by auto
  ultimately show ?thesis using d by blast
qed

end
