(* ===== verification/Wire_Codec.thy ===== *)
theory Wire_Codec
  imports Dns_Wire Typed_Records
begin

text \<open>
  The codec of the DNS library as the codec that leng calls (\<open>Pack\<close> and \<open>Unpack\<close> in
  src/resolver.go and src/doh.go), and what follows for messages that go through leng: nothing
  that the network sends gets a malformed name or a mistyped record into the program, and which
  upstream answers can be sent on.
\<close>

definition miekg_codec :: "other_rdata \<Rightarrow> (rr msg \<Rightarrow> wire_error + byte list) \<Rightarrow> dns_codec" where
  "miekg_codec od compressed =
     \<lparr>Pack = (\<lambda>m. case Msg_Pack od compressed m of Inl _ \<Rightarrow> None | Inr bs \<Rightarrow> Some bs),
      Unpack = (\<lambda>bs. case Msg_Unpack od bs of Inl _ \<Rightarrow> None | Inr m \<Rightarrow> Some m)\<rparr>"

lemma miekg_Pack: "Pack (miekg_codec od compressed) m = Some bs \<longleftrightarrow> Msg_Pack od compressed m = Inr bs"
  by (simp add: miekg_codec_def split: sum.split)

lemma miekg_Unpack: "Unpack (miekg_codec od compressed) bs = Some m \<longleftrightarrow> Msg_Unpack od bs = Inr m"
  by (simp add: miekg_codec_def split: sum.split)

text \<open>With this codec, only the client for UDP and TCP has to be assumed to give typed records.\<close>

lemma upstream_typed_miekg:
  assumes "le_codec env = miekg_codec od compressed"
    and "\<And>n i ns net d req m. env_exchange (le_ups env n) i ns net d req = ExOk m \<Longrightarrow> list_all rr_typed (Answer m)"
  shows "upstream_typed env"
  using assms Msg_Unpack_typed by (auto simp: upstream_typed_def miekg_Unpack)

section \<open>The size of names\<close>

lemma present_byte_length: "length (present_byte b) \<le> 4"
  by (cases b rule: present_byte_cases) (auto simp: escapeByte_def Let_def)

lemma present_label_length: "length (present_label l) \<le> 4 * length l"
proof (induction l)
  case (Cons b l)
  then show ?case using present_byte_length [of b] by (simp add: present_label_def)
qed (simp add: present_label_def)

lemma present_labels_length:
  "length (concat (map (\<lambda>l. present_label l @ ''.'') ls)) \<le> 4 * sum_list (map length ls) + length ls"
proof (induction ls)
  case (Cons l ls)
  then show ?case using present_label_length [of l] by simp
qed simp

lemma present_name_length:
  assumes "name_ok ls"
  shows "length (present_name ls) \<le> 1004"
proof -
  have n: "sum_list (map length ls) + length ls < 255"
    using assms by (simp add: name_ok_def name_octets_def sum_list_Suc)
  have "sum_list (map length ls) \<le> 63 * length ls" if "list_all (\<lambda>l. 0 < length l \<and> length l < 64) ls" for ls :: "byte list list"
    using that by (induction ls) auto
  with assms have "sum_list (map length ls) \<le> 63 * length ls" by (simp add: name_ok_def)
  with n have "4 * sum_list (map length ls) + length ls \<le> 1004" by (cases "length ls \<le> 3") auto
  with present_labels_length [of ls] show ?thesis by (simp add: present_name_def)
qed

section \<open>Answers that are sent on\<close>

lemma set_opt_keeps:
  "Response (set_opt m) = Response m" "Compress (set_opt m) = Compress m"
  by (simp_all add: set_opt_def split: option.split)

lemma SetReply_sections:
  "Ns (SetReply req m) = Ns m" "Extra (SetReply req m) = Extra m" "Compress (SetReply req m) = Compress m"
  by (simp_all add: SetReply_def Let_def split: list.split)

lemma SetReply_ok:
  assumes "msg_ok od (req\<lparr>Answer := [], Ns := [], Extra := [], Rcode := 0\<rparr>)" and "msg_ok od m" and "Question req = q # qs" and "Compress m = False"
  shows "msg_ok od (SetReply req m)"
proof -
  have "Question (SetReply req m) = [q]" using assms(3) by (simp add: SetReply_Question)
  then show ?thesis using assms by (simp add: msg_ok_def SetReply_sections)
qed

lemma Msg_Unpack_Compress: "Msg_Unpack od bs = Inr m \<Longrightarrow> Compress m = False"
  by (auto simp: Msg_Unpack_def Let_def go_bind_Inr_iff set_rcode_fields setHdr_range split: if_splits)

text \<open>An unpacked address has the length that its record type asks for.\<close>

lemma UnpackRR_sent:
  assumes "UnpackRR od m off = Inr (r, off')"
  shows "sent_rdata (Rdata r) = Rdata r"
  using assms
  by (auto simp: UnpackRR_def UnpackRRWithHeader_def Let_def rdata_unpack_def unpack_addr_def zero_rdata_def sent_rdata_def To4_def
      go_bind_Inr_iff split: if_splits option.splits)

lemma Msg_Unpack_sent:
  assumes u: "Msg_Unpack od bs = Inr m"
  shows "list_all (\<lambda>r. sent_rdata (Rdata r) = Rdata r) (Answer m)"
proof -
  have r: "list_all (\<lambda>r. sent_rdata (Rdata r) = Rdata r) rs" if "unpackRRslice od n bs a = Inr (rs, b)" for n rs a b
    using unpack_all_list [OF that [unfolded unpackRRslice_def], of "\<lambda>r. sent_rdata (Rdata r) = Rdata r"] UnpackRR_sent by blast
  show ?thesis
    using u r by (auto simp: Msg_Unpack_def Let_def go_bind_Inr_iff set_rcode_fields setHdr_sections split: if_splits)
qed

definition same_but_Rdlength :: "rr \<Rightarrow> rr \<Rightarrow> bool" where
  "same_but_Rdlength a b \<longleftrightarrow> Rdata a = Rdata b \<and> (Hdr a)\<lparr>Rdlength := 0\<rparr> = (Hdr b)\<lparr>Rdlength := 0\<rparr>"

section \<open>Properties\<close>

text \<open>
  C11. Whatever bytes are unpacked as a name, following compression pointers that may lead
  anywhere, the unpacker reads within the message and moves forward, and its result is at
  most 255 octets on the wire and 1004 as text (the buffer that the library reserves); packed
  again at any place of any message, it unpacks to the same text.
\<close>

theorem hostile_name_bounded:
  assumes "UnpackDomainName m off = Inr (s, off')"
  shows "off < off' \<and> off' \<le> length m \<and> length s \<le> 1004 \<and> domainNameLen s \<le> 255 \<and>
    (\<exists>bs. length bs = domainNameLen s \<and>
       (\<forall>cap out. length out + length bs \<le> cap \<longrightarrow> packDomainName cap s out = Inr (out @ bs)) \<and>
       (\<forall>pre post. UnpackDomainName (pre @ bs @ post) (length pre) = Inr (s, length pre + length bs)))"
proof -
  obtain ls where ls: "name_ok ls" "s = present_name ls"
    using UnpackDomainName_canonical(1) [OF assms] by (auto simp: canonical_def)
  have len: "length (wire_name ls) = domainNameLen s" "length (wire_name ls) \<le> 255"
    using domainNameLen_present [OF ls(1)] ls by (simp_all add: length_wire_name name_ok_def)
  moreover have "\<forall>cap out. length out + length (wire_name ls) \<le> cap \<longrightarrow> packDomainName cap s out = Inr (out @ wire_name ls)"
    using packDomainName_wire [OF ls(1)] ls(2) by simp
  moreover have "\<forall>pre post. UnpackDomainName (pre @ wire_name ls @ post) (length pre) = Inr (s, length pre + length (wire_name ls))"
    using UnpackDomainName_wire [OF ls(1)] ls(2) by simp
  ultimately show ?thesis
    using UnpackDomainName_canonical(2,3) [OF assms] present_name_length [OF ls(1)] ls(2) by metis
qed

text \<open>
  C10. A message that is well formed (canonical names, records of the type that their header
  says, codes in range) is packed without an error into a buffer of the computed length, and
  unpacks to the same message, with IPv4 addresses in four bytes, the data lengths filled in
  and the upper bits of the response code in the OPT record.
\<close>

theorem message_roundtrip:
  assumes "msg_ok od m"
  shows "\<exists>bs. Pack (miekg_codec od compressed) m = Some bs \<and> Unpack (miekg_codec od compressed) bs = Some (sent_msg od m)"
  using Pack_Unpack [OF assms] by (simp add: miekg_Pack miekg_Unpack)

text \<open>
  C9. Which upstream answers can be sent on. Let a request and an upstream answer be unpacked
  from any bytes. If every record of the answer is an A, AAAA or CNAME record, or has data that its
  type packs and unpacks to the same, then the reply that \<open>SetReply\<close> makes of them is packed
  without an error, and the client that unpacks it gets the id and the question of its
  request, a code of NOERROR and the records of the answer. If the type of one record
  refuses to pack what it has unpacked, then the whole reply cannot be packed.
\<close>

theorem relayed_answer_packs:
  assumes req: "Unpack (miekg_codec od compressed) b1 = Some req" "Question req = q # qs"
    and up: "Unpack (miekg_codec od compressed) b2 = Some m"
  shows "(list_all (repacks od) (all_records m) \<longrightarrow>
      (\<exists>bs r. Pack (miekg_codec od compressed) (SetReply req m) = Some bs \<and> Unpack (miekg_codec od compressed) bs = Some r \<and>
        MsgId r = MsgId req \<and> Question r = [q] \<and> Rcode r = RcodeSuccess \<and> list_all2 same_but_Rdlength (Answer m) (Answer r))) \<and>
    (list_ex (refused od) (all_records m) \<longrightarrow> Pack (miekg_codec od compressed) (SetReply req m) = None)"
proof (intro conjI impI)
  let ?m = "SetReply req m"
  have u: "Msg_Unpack od b1 = Inr req" "Msg_Unpack od b2 = Inr m" using req(1) up by (simp_all add: miekg_Unpack)
  note plain = Msg_Unpack_Compress [OF u(2)]
  {
    assume "list_all (repacks od) (all_records m)"
    then have "msg_ok od ?m"
      using SetReply_ok [OF Msg_Unpack_ok(2) [OF u(1)] Msg_Unpack_ok(1) [OF u(2)] req(2) plain] by blast
    then obtain bs where bs: "Msg_Pack od compressed ?m = Inr bs" "Msg_Unpack od bs = Inr (sent_msg od ?m)"
      using Pack_Unpack by blast
    have "same_but_Rdlength r (sent_rr od r)" if "r \<in> set (Answer m)" for r
      using Msg_Unpack_sent [OF u(2)] that by (simp add: same_but_Rdlength_def sent_rr_def list_all_iff)
    then have "list_all2 same_but_Rdlength (Answer m) (Answer (sent_msg od ?m))"
      by (simp add: sent_msg_def list_all2_conv_all_nth)
    moreover have "Question ?m = [q]" using req(2) by (simp add: SetReply_Question)
    ultimately show "\<exists>bs r. Pack (miekg_codec od compressed) ?m = Some bs \<and> Unpack (miekg_codec od compressed) bs = Some r \<and>
        MsgId r = MsgId req \<and> Question r = [q] \<and> Rcode r = RcodeSuccess \<and> list_all2 same_but_Rdlength (Answer m) (Answer r)"
      using bs by (intro exI [of _ bs] exI [of _ "sent_msg od ?m"]) (simp add: miekg_Pack miekg_Unpack sent_msg_def set_opt_fields)
  next
    assume "list_ex (refused od) (all_records m)"
    then obtain r where r: "r \<in> set (all_records ?m)" "refused od r"
      by (auto simp: list_ex_iff all_records_def SetReply_sections)
    have "Compress ?m = False" using plain by (simp add: SetReply_sections)
    from Msg_Pack_refused [OF r this] show "Pack (miekg_codec od compressed) ?m = None"
      by (cases "Msg_Pack od compressed ?m") (auto simp: miekg_codec_def)
  }
qed

section \<open>Examples\<close>

text \<open>No other record types: their data is empty.\<close>

definition no_others :: other_rdata where
  "no_others = \<lparr>od_len = (\<lambda>_ _. 0), od_pack = (\<lambda>_ _. Some []), od_unpack = (\<lambda>_ _ _. None), od_zero = (\<lambda>_. [])\<rparr>"

definition ex_query :: "rr msg" where
  "ex_query = SetQuestion 7 ''a.'' TypeA new_Msg"

definition ex_answer :: "rr msg" where
  "ex_answer = ex_query\<lparr>Response := True, Rcode := RcodeNameError, Answer :=
     [\<lparr>Hdr = \<lparr>Hdr_Name = ''a.'', Rrtype = TypeA, Class = ClassINET, Ttl = 60, Rdlength = 4\<rparr>, Rdata = RdA (Some [10, 0, 0, 1])\<rparr>]\<rparr>"

text \<open>
  And one with records that are unpacked but not packed, as it happens to SVCB. The answer has
  one of type HTTPS with a byte of data.
\<close>

definition one_way :: other_rdata where
  "one_way = \<lparr>od_len = (\<lambda>_ _. 0), od_pack = (\<lambda>_ _. None), od_unpack = (\<lambda>_ _ off. Some ([], off + 1)), od_zero = (\<lambda>_. [])\<rparr>"

definition ex_https_bytes :: "byte list" where
  "ex_https_bytes = [0, 7, 0x81, 0x80, 0, 0, 0, 1, 0, 0, 0, 0, 0, 0, 65, 0, 1, 0, 0, 0, 60, 0, 1, 0]"

lemma ex_https:
  "\<exists>m. Unpack (miekg_codec one_way compressed) ex_https_bytes = Some m \<and> list_ex (refused one_way) (all_records m)"
proof -
  have "case Msg_Unpack one_way ex_https_bytes of Inl e \<Rightarrow> False | Inr m \<Rightarrow> list_ex (refused one_way) (all_records m)"
    by code_simp
  then show ?thesis by (auto simp: miekg_Unpack split: sum.splits)
qed

lemma ex_chars: "char_of_byte 97 = CHR ''a''" "char_of_byte 98 = CHR ''b''"
  by (simp_all add: char_of_byte_def char_of_def bit_0)

lemma ex_name_canonical: "canonical ''a.''"
proof -
  have "present_name [[97]] = ''a.''"
    by (simp add: present_name_def present_label_def present_byte_def ex_chars isDomainNameLabelSpecial_def Let_def)
  then show ?thesis by (auto simp: canonical_def name_ok_def name_octets_def intro!: exI [of _ "[[97]]"])
qed

lemma ex_messages_ok: "msg_ok no_others ex_query" "msg_ok no_others ex_answer" "msg_ok one_way ex_query"
  using ex_name_canonical
  by (simp_all add: msg_ok_def ex_query_def ex_answer_def SetQuestion_def new_Msg_def question_ok_def IsEdns0_def rr_ok_def rr_typed_def To4_def)

lemma ex_pointer_name: "UnpackDomainName [1, 97, 0, 1, 98, 0xC0, 0] 3 = Inr (''b.a.'', 7)"
  by (simp add: UnpackDomainName_def unpack_labels.simps present_label_def present_byte_def ex_chars
      isDomainNameLabelSpecial_def Let_def)

theorem hostile_name_bounded_witness:
  "UnpackDomainName [1, 97, 0, 1, 98, 0xC0, 0] 3 = Inr (''b.a.'', 7) \<and> domainNameLen ''b.a.'' \<le> 255"
  using hostile_name_bounded [OF ex_pointer_name] ex_pointer_name by blast

theorem message_roundtrip_witness:
  "\<exists>bs. Pack (miekg_codec no_others (\<lambda>_. Inl ErrBuf)) ex_answer = Some bs \<and>
     Unpack (miekg_codec no_others (\<lambda>_. Inl ErrBuf)) bs = Some (sent_msg no_others ex_answer)"
  by (rule message_roundtrip [OF ex_messages_ok(2)])

theorem relayed_answer_packs_witness:
  "(\<exists>b1 b2 req m bs r. Unpack (miekg_codec no_others (\<lambda>_. Inl ErrBuf)) b1 = Some req \<and>
     Unpack (miekg_codec no_others (\<lambda>_. Inl ErrBuf)) b2 = Some m \<and> Rcode m = RcodeNameError \<and>
     Pack (miekg_codec no_others (\<lambda>_. Inl ErrBuf)) (SetReply req m) = Some bs \<and>
     Unpack (miekg_codec no_others (\<lambda>_. Inl ErrBuf)) bs = Some r \<and> MsgId r = 7 \<and> length (Answer r) = 1) \<and>
   (\<exists>b1 req m. Unpack (miekg_codec one_way (\<lambda>_. Inl ErrBuf)) b1 = Some req \<and>
     Unpack (miekg_codec one_way (\<lambda>_. Inl ErrBuf)) ex_https_bytes = Some m \<and>
     Pack (miekg_codec one_way (\<lambda>_. Inl ErrBuf)) (SetReply req m) = None)"
proof
  let ?c = "miekg_codec no_others (\<lambda>_. Inl ErrBuf)"
  obtain b1 b2 where b: "Unpack ?c b1 = Some (sent_msg no_others ex_query)" "Unpack ?c b2 = Some (sent_msg no_others ex_answer)"
    using Pack_Unpack [OF ex_messages_ok(1), of "\<lambda>_. Inl ErrBuf"] Pack_Unpack [OF ex_messages_ok(2), of "\<lambda>_. Inl ErrBuf"]
    by (auto simp: miekg_Unpack)
  have f: "Question (sent_msg no_others ex_query) = \<lparr>q_Name = ''a.'', q_Qtype = TypeA, q_Qclass = ClassINET\<rparr> # []"
    "MsgId (sent_msg no_others ex_query) = 7" "Rcode (sent_msg no_others ex_answer) = RcodeNameError"
    "length (Answer (sent_msg no_others ex_answer)) = 1"
    by (simp_all add: sent_msg_def set_opt_fields ex_query_def ex_answer_def SetQuestion_def new_Msg_def)
  have "list_all (repacks no_others) (all_records (sent_msg no_others ex_answer))"
    by (simp add: all_records_def sent_msg_def sent_rr_def sent_rdata_def repacks_def set_opt_def IsEdns0_def ex_answer_def
        ex_query_def SetQuestion_def new_Msg_def To4_def)
  with relayed_answer_packs [OF b(1) f(1) b(2)] b f
  show "\<exists>b1 b2 req m bs r. Unpack ?c b1 = Some req \<and> Unpack ?c b2 = Some m \<and> Rcode m = RcodeNameError \<and>
     Pack ?c (SetReply req m) = Some bs \<and> Unpack ?c bs = Some r \<and> MsgId r = 7 \<and> length (Answer r) = 1"
    by (metis list_all2_lengthD)
next
  let ?c = "miekg_codec one_way (\<lambda>_. Inl ErrBuf)"
  obtain b1 where b1: "Unpack ?c b1 = Some (sent_msg one_way ex_query)"
    using Pack_Unpack [OF ex_messages_ok(3), of "\<lambda>_. Inl ErrBuf"] by (auto simp: miekg_Unpack)
  have q: "Question (sent_msg one_way ex_query) = \<lparr>q_Name = ''a.'', q_Qtype = TypeA, q_Qclass = ClassINET\<rparr> # []"
    by (simp add: sent_msg_def set_opt_fields ex_query_def SetQuestion_def new_Msg_def)
  obtain m where m: "Unpack ?c ex_https_bytes = Some m" "list_ex (refused one_way) (all_records m)" using ex_https by blast
  from relayed_answer_packs [OF b1 q m(1)] b1 m
  show "\<exists>b1 req m. Unpack ?c b1 = Some req \<and> Unpack ?c ex_https_bytes = Some m \<and> Pack ?c (SetReply req m) = None"
    by blast
qed

end
