(* ===== verification/Go_Slices.thy ===== *)
theory Go_Slices
  imports Event_Loop
begin

text \<open>
  The slice of answers as Go has it: an array that other slices may share, a length and a
  capacity. \<open>Event_Loop\<close> has the answers of a message as a list; this theory shows when the
  two agree (always, for the slice that the loop of src/handler.go extends and for all
  slices of the same array that are not longer), and what two workers that got copies
  of one cached message do to each other.
\<close>

section \<open>Slices\<close>

text \<open>The elements of an array are interface values, \<open>None\<close> being nil. A nil slice has capacity 0.\<close>

type_synonym rr_arrays = "rref option list list"

record rr_slice =
  sl_array :: nat
  sl_len :: nat
  sl_cap :: nat

definition nil_slice :: rr_slice where
  "nil_slice = \<lparr>sl_array = 0, sl_len = 0, sl_cap = 0\<rparr>"

definition slots :: "rr_arrays \<Rightarrow> rr_slice \<Rightarrow> rref option list" where
  "slots arrs s = (if sl_cap s = 0 then [] else arrs ! sl_array s)"

definition elems :: "rr_arrays \<Rightarrow> rr_slice \<Rightarrow> rref list" where
  "elems arrs s = map the (take (sl_len s) (slots arrs s))"

text \<open>
  \<open>append\<close> writes into the array while there is room, and moves to a new array otherwise.
  \<open>spare n\<close> is the room that the run-time system leaves after \<open>n\<close> elements and the new one.
\<close>

definition slice_append :: "(nat \<Rightarrow> nat) \<Rightarrow> rr_slice \<Rightarrow> rref \<Rightarrow> rr_arrays \<Rightarrow> rr_slice \<times> rr_arrays" where
  "slice_append spare s x arrs =
     (let n = sl_len s in
      if n < sl_cap s
      then (s\<lparr>sl_len := Suc n\<rparr>, arrs[sl_array s := (arrs ! sl_array s)[n := Some x]])
      else let arr = take n (slots arrs s) @ [Some x] @ replicate (spare n) None in
           (\<lparr>sl_array = length arrs, sl_len = Suc n, sl_cap = length arr\<rparr>, arrs @ [arr]))"

text \<open>How the library collects the records of a section.\<close>

fun collect :: "(nat \<Rightarrow> nat) \<Rightarrow> rref list \<Rightarrow> rr_slice \<Rightarrow> rr_arrays \<Rightarrow> rr_slice \<times> rr_arrays" where
  "collect spare [] dst arrs = (dst, arrs)"
| "collect spare (r # rs) dst arrs =
     (case slice_append spare dst r arrs of (dst, arrs) \<Rightarrow> collect spare rs dst arrs)"

text \<open>The loop over the answers of a followed name, on the slice \<open>resp.Answer\<close>.\<close>

fun slice_answers ::
  "(nat \<Rightarrow> nat) \<Rightarrow> rr_heap \<Rightarrow> bool \<Rightarrow> rref list \<Rightarrow> rr_slice \<Rightarrow> rr_arrays \<Rightarrow> rr_slice \<times> rr_arrays" where
  "slice_answers spare h ok [] s arrs = (s, arrs)"
| "slice_answers spare h ok (f # fs) s arrs =
     (if ok \<and> \<not> list_ex (\<lambda>r. rr_String (h ! r) = rr_String (h ! f)) (elems arrs s)
      then case slice_append spare s f arrs of (s, arrs) \<Rightarrow> slice_answers spare h ok fs s arrs
      else slice_answers spare h ok fs s arrs)"

section \<open>The invariant of slices\<close>

definition slice_ok :: "rr_arrays \<Rightarrow> rr_slice \<Rightarrow> bool" where
  "slice_ok arrs s \<longleftrightarrow> sl_len s \<le> sl_cap s \<and>
     (sl_cap s \<noteq> 0 \<longrightarrow> sl_array s < length arrs \<and> length (arrs ! sl_array s) = sl_cap s) \<and>
     None \<notin> set (take (sl_len s) (slots arrs s))"

text \<open>What \<open>t\<close> shows is not in reach of an append to \<open>s\<close>.\<close>

definition out_of_reach :: "rr_slice \<Rightarrow> rr_slice \<Rightarrow> bool" where
  "out_of_reach s t \<longleftrightarrow> sl_array t \<noteq> sl_array s \<or> sl_len t \<le> sl_len s"

lemma length_slots: "slice_ok arrs s \<Longrightarrow> length (slots arrs s) = sl_cap s"
  by (auto simp: slice_ok_def slots_def)

lemma length_elems: "slice_ok arrs s \<Longrightarrow> length (elems arrs s) = sl_len s"
  using length_slots [of arrs s] by (simp add: elems_def slice_ok_def)

lemma nil_slice_ok: "slice_ok arrs nil_slice" "elems arrs nil_slice = []"
  by (simp_all add: slice_ok_def nil_slice_def elems_def slots_def)

text \<open>One append, the two branches at once.\<close>

lemma slice_append_ok:
  assumes "slice_ok arrs s" and "slice_append spare s x arrs = (s', arrs')"
  shows "slice_ok arrs' s'" and "elems arrs' s' = elems arrs s @ [x]"
  using assms length_slots [OF assms(1)]
  by (auto simp: slice_append_def slice_ok_def elems_def slots_def Let_def take_Suc_conv_app_nth nth_append split: if_splits)

lemma slice_append_frame:
  assumes "slice_ok arrs t" and "out_of_reach s t" and "slice_append spare s x arrs = (s', arrs')"
  shows "slice_ok arrs' t" and "elems arrs' t = elems arrs t" and "out_of_reach s' t"
proof -
  have t: "sl_array t < length arrs" if "sl_cap t \<noteq> 0" using assms(1) that by (simp add: slice_ok_def)
  then have same: "sl_cap t \<noteq> 0 \<longrightarrow> length arrs \<le> length arrs' \<and>
      length (arrs' ! sl_array t) = length (arrs ! sl_array t) \<and>
      take (sl_len t) (arrs' ! sl_array t) = take (sl_len t) (arrs ! sl_array t)"
    using assms(2,3) by (cases "sl_array t = sl_array s") (auto simp: slice_append_def out_of_reach_def Let_def nth_append split: if_splits)
  then have "take (sl_len t) (slots arrs' t) = take (sl_len t) (slots arrs t)" by (simp add: slots_def)
  then show "slice_ok arrs' t" "elems arrs' t = elems arrs t"
    using assms(1) same by (auto simp: slice_ok_def elems_def)
  show "out_of_reach s' t"
    using assms t by (cases "sl_cap t = 0") (auto simp: slice_append_def slice_ok_def out_of_reach_def Let_def split: if_splits)
qed

lemma collect_ok:
  "slice_ok arrs s \<Longrightarrow> collect spare rs s arrs = (s', arrs') \<Longrightarrow>
   slice_ok arrs' s' \<and> elems arrs' s' = elems arrs s @ rs"
proof (induction rs arbitrary: s arrs)
  case (Cons r rs)
  obtain s1 arrs1 where a: "slice_append spare s r arrs = (s1, arrs1)" by fastforce
  with Cons.prems Cons.IH [OF slice_append_ok(1) [OF Cons.prems(1) a]] slice_append_ok(2) [OF Cons.prems(1) a]
  show ?case by simp
qed simp

lemma slice_answers_ok:
  "slice_ok arrs s \<Longrightarrow> slice_answers spare h ok fs s arrs = (s', arrs') \<Longrightarrow>
   slice_ok arrs' s' \<and> elems arrs' s' = append_answers h ok fs (elems arrs s)"
proof (induction fs arbitrary: s arrs)
  case (Cons f fs)
  obtain s1 arrs1 where a: "slice_append spare s f arrs = (s1, arrs1)" by fastforce
  show ?case
    using Cons.IH [of arrs s] Cons.IH [OF slice_append_ok(1) [OF Cons.prems(1) a]] slice_append_ok(2) [OF Cons.prems(1) a] Cons.prems a
    by (auto split: if_splits)
qed simp

lemma slice_answers_frame:
  "slice_ok arrs t \<Longrightarrow> out_of_reach s t \<Longrightarrow> slice_answers spare h ok fs s arrs = (s', arrs') \<Longrightarrow>
   slice_ok arrs' t \<and> elems arrs' t = elems arrs t"
proof (induction fs arbitrary: s arrs)
  case (Cons f fs)
  obtain s1 arrs1 where a: "slice_append spare s f arrs = (s1, arrs1)" by fastforce
  note frame = slice_append_frame [OF Cons.prems(1,2) a]
  show ?case
    using Cons.IH [OF Cons.prems(1,2)] Cons.IH [OF frame(1,3)] frame(2) Cons.prems a
    by (auto split: if_splits)
qed simp

text \<open>Appends that fit into the capacity write over what the array has at these places.\<close>

definition overwrite :: "nat \<Rightarrow> rref list \<Rightarrow> rref option list \<Rightarrow> rref option list" where
  "overwrite n xs arr = take n arr @ map Some xs @ drop (n + length xs) arr"

lemma overwrite_twice:
  assumes "n + length xs \<le> length arr" and "n + length ys \<le> length arr"
  shows "take (n + length xs) (overwrite n ys (overwrite n xs arr)) =
    take n arr @ map Some (take (length xs) ys @ drop (length ys) xs)"
proof -
  have n: "min (length arr) n = n" using assms by simp
  show ?thesis using assms by (simp add: overwrite_def n take_map drop_map)
qed

lemma append_answers_extends:
  obtains xs where "append_answers h ok fs ans = ans @ xs"
  using append_answers_spec [of h ok fs ans] by blast

lemma slice_answers_fit:
  "slice_ok arrs s \<Longrightarrow> slice_answers spare h ok fs s arrs = (s', arrs') \<Longrightarrow>
   append_answers h ok fs (elems arrs s) = elems arrs s @ xs \<Longrightarrow> sl_len s + length xs \<le> sl_cap s \<Longrightarrow>
   s' = s\<lparr>sl_len := sl_len s + length xs\<rparr> \<and> slots arrs' s = overwrite (sl_len s) xs (slots arrs s)"
proof (induction fs arbitrary: s arrs xs)
  case (Cons f fs)
  show ?case
  proof (cases "ok \<and> \<not> list_ex (\<lambda>r. rr_String (h ! r) = rr_String (h ! f)) (elems arrs s)")
    case True
    obtain s1 arrs1 where a: "slice_append spare s f arrs = (s1, arrs1)" by fastforce
    note ok = slice_append_ok [OF Cons.prems(1) a]
    obtain ys where ys: "append_answers h ok fs (elems arrs s @ [f]) = (elems arrs s @ [f]) @ ys"
      using append_answers_extends by blast
    then have xs: "xs = f # ys" using Cons.prems(3) True by simp
    then have s1: "s1 = s\<lparr>sl_len := Suc (sl_len s)\<rparr>" "arrs1 = arrs[sl_array s := (arrs ! sl_array s)[sl_len s := Some f]]"
      using a Cons.prems(4) by (auto simp: slice_append_def Let_def)
    have arr: "sl_cap s \<noteq> 0" "sl_array s < length arrs" "sl_len s < length (arrs ! sl_array s)"
      using Cons.prems(1,4) xs by (auto simp: slice_ok_def)
    have "s' = s1\<lparr>sl_len := sl_len s1 + length ys\<rparr> \<and> slots arrs' s1 = overwrite (sl_len s1) ys (slots arrs1 s1)"
      using Cons.IH [OF ok(1)] Cons.prems(2,4) True a ok(2) ys xs s1(1) by simp
    then show ?thesis
      using s1 arr xs by (simp add: slots_def overwrite_def take_Suc_conv_app_nth)
  next
    case False
    then show ?thesis using Cons.IH [OF Cons.prems(1)] Cons.prems by auto
  qed
qed (simp add: overwrite_def)

section \<open>Properties\<close>

text \<open>
  C15. The answers that the loop of \<open>doRequest\<close> collects in a Go slice are those of
  \<open>append_answers\<close> on lists, wherever the run-time system allocates; and no slice of the
  same array loses or changes an element if it is not longer, in particular the cached
  slice from which the reply was copied.
\<close>

theorem slice_answers_refines:
  assumes "slice_ok arrs s" and "slice_answers spare h ok fs s arrs = (s', arrs')"
  shows "elems arrs' s' = append_answers h ok fs (elems arrs s) \<and> slice_ok arrs' s' \<and>
    (\<forall>t. slice_ok arrs t \<and> out_of_reach s t \<longrightarrow> slice_ok arrs' t \<and> elems arrs' t = elems arrs t)"
  using slice_answers_ok [OF assms] slice_answers_frame [OF _ _ assms(2)] by blast

text \<open>
  C16. Two workers that got copies of one cached message, whose slice of answers has room
  left, write into the same array: after the second has appended its records \<open>ys\<close>, the reply
  of the first has them in the place of its own records \<open>xs\<close>.
\<close>

theorem cached_copies_overwrite:
  assumes s: "slice_ok arrs s"
    and first: "slice_answers spare h ok fs s arrs = (a, arrs1)" "append_answers h ok fs (elems arrs s) = elems arrs s @ xs"
    and second: "slice_answers spare h ok gs s arrs1 = (b, arrs2)" "append_answers h ok gs (elems arrs s) = elems arrs s @ ys"
    and room: "sl_len s + length xs \<le> sl_cap s" "sl_len s + length ys \<le> sl_cap s"
  shows "elems arrs1 a = elems arrs s @ xs \<and>
    elems arrs2 a = elems arrs s @ take (length xs) ys @ drop (length ys) xs"
proof -
  have s1: "slice_ok arrs1 s" "elems arrs1 s = elems arrs s"
    using slice_answers_frame [OF s _ first(1)] by (simp_all add: out_of_reach_def)
  note f1 = slice_answers_fit [OF s first room(1)]
  have f2: "slots arrs2 s = overwrite (sl_len s) ys (slots arrs1 s)"
    using slice_answers_fit [OF s1(1) second(1) _ room(2)] s1(2) second(2) by simp
  have a: "slots arrs2 a = slots arrs2 s" "sl_len a = sl_len s + length xs" using f1 by (simp_all add: slots_def)
  have len: "length (slots arrs s) = sl_cap s" "sl_len s \<le> sl_cap s" using length_slots [OF s] s by (simp_all add: slice_ok_def)
  have "elems arrs2 a = elems arrs s @ take (length xs) ys @ drop (length ys) xs"
    using f1 f2 a len room overwrite_twice [of "sl_len s" xs "slots arrs s" ys] by (simp add: elems_def comp_def)
  then show ?thesis using slice_answers_ok [OF s first(1)] first(2) by simp
qed

section \<open>Examples\<close>

text \<open>Three records that were unpacked one by one, with the doubling that Go uses for short slices.\<close>

definition go_spare :: "nat \<Rightarrow> nat" where
  "go_spare n = n - 1"

definition ex_rr :: "string \<Rightarrow> rdata \<Rightarrow> rr" where
  "ex_rr n d = \<lparr>Hdr = \<lparr>Hdr_Name = n, Rrtype = (case d of RdCNAME _ \<Rightarrow> TypeCNAME | _ \<Rightarrow> TypeA), Class = ClassINET, Ttl = 60, Rdlength = 4\<rparr>, Rdata = d\<rparr>"

definition ex_records :: rr_heap where
  "ex_records = [ex_rr ''a.'' (RdCNAME ''b.''), ex_rr ''b.'' (RdCNAME ''c.''), ex_rr ''c.'' (RdCNAME ''d.''),
     ex_rr ''d.'' (RdA (Some [10, 0, 0, 1])), ex_rr ''d.'' (RdA (Some [10, 0, 0, 2]))]"

lemma ex_cached: "collect go_spare [0, 1, 2] nil_slice [] =
   (\<lparr>sl_array = 2, sl_len = 3, sl_cap = 4\<rparr>, [[Some 0], [Some 0, Some 1], [Some 0, Some 1, Some 2, None]])"
  by (simp add: slice_append_def nil_slice_def slots_def go_spare_def Let_def numeral_2_eq_2)

lemma ex_new: "append_answers ex_records True [3] [0, 1, 2] = [0, 1, 2, 3]" "append_answers ex_records True [4] [0, 1, 2] = [0, 1, 2, 4]"
  by code_simp+

definition ex_slice :: rr_slice where
  "ex_slice = \<lparr>sl_array = 2, sl_len = 3, sl_cap = 4\<rparr>"

definition ex_arrays :: rr_arrays where
  "ex_arrays = snd (collect go_spare [0, 1, 2] nil_slice [])"

lemma ex_slice_ok: "slice_ok ex_arrays ex_slice" "elems ex_arrays ex_slice = [0, 1, 2]"
  using collect_ok [OF nil_slice_ok(1) ex_cached] ex_cached
  by (simp_all add: ex_arrays_def ex_slice_def nil_slice_ok(2))

theorem slice_answers_refines_witness:
  "\<exists>a arrs1. slice_answers go_spare ex_records True [3] ex_slice ex_arrays = (a, arrs1) \<and>
     elems arrs1 a = [0, 1, 2, 3] \<and> elems arrs1 ex_slice = [0, 1, 2]"
proof -
  obtain a arrs1 where a: "slice_answers go_spare ex_records True [3] ex_slice ex_arrays = (a, arrs1)" by fastforce
  have "out_of_reach ex_slice ex_slice" by (simp add: out_of_reach_def)
  with slice_answers_refines [OF ex_slice_ok(1) a] a show ?thesis
    unfolding ex_slice_ok(2) ex_new(1) using ex_slice_ok by metis
qed

theorem cached_copies_overwrite_witness:
  "\<exists>a arrs1 b arrs2. slice_answers go_spare ex_records True [3] ex_slice ex_arrays = (a, arrs1) \<and>
     slice_answers go_spare ex_records True [4] ex_slice arrs1 = (b, arrs2) \<and>
     elems arrs1 a = [0, 1, 2, 3] \<and> elems arrs2 a = [0, 1, 2, 4]"
proof -
  obtain a arrs1 where a: "slice_answers go_spare ex_records True [3] ex_slice ex_arrays = (a, arrs1)" by fastforce
  obtain b arrs2 where b: "slice_answers go_spare ex_records True [4] ex_slice arrs1 = (b, arrs2)" by fastforce
  have room: "sl_len ex_slice + length [3::rref] \<le> sl_cap ex_slice" "sl_len ex_slice + length [4::rref] \<le> sl_cap ex_slice"
    by (simp_all add: ex_slice_def)
  have "elems arrs1 a = [0, 1, 2] @ [3] \<and> elems arrs2 a = [0, 1, 2] @ take 1 [4] @ drop 1 [3]"
    using cached_copies_overwrite [OF ex_slice_ok(1) a _ b _ room] ex_slice_ok(2) ex_new by simp
  with a b show ?thesis by simp
qed

end
