(* ===== verification/Step_Systems.thy ===== *)
theory Step_Systems
  imports Main
begin

text \<open>
  The contract that the transition systems of the development share: an invariant that every
  step keeps and a measure that every step decreases. What follows for all of them: the
  invariant holds along runs, runs are no longer than the measure says, and every run can be
  continued to a state without a further step.
\<close>

locale measured_steps =
  fixes step :: "'s \<Rightarrow> 's \<Rightarrow> bool" and inv :: "'s \<Rightarrow> bool" and left :: "'s \<Rightarrow> nat"
  assumes inv_step: "inv s \<Longrightarrow> step s t \<Longrightarrow> inv t"
    and left_step: "inv s \<Longrightarrow> step s t \<Longrightarrow> left t < left s"
begin

lemma steps_inv: "step\<^sup>*\<^sup>* s t \<Longrightarrow> inv s \<Longrightarrow> inv t"
  by (induction rule: rtranclp_induct) (auto intro: inv_step)

lemma steps_bounded: "(step ^^ n) s t \<Longrightarrow> inv s \<Longrightarrow> n + left t \<le> left s"
proof (induction n arbitrary: t)
  case (Suc n)
  then obtain u where u: "(step ^^ n) s u" "step u t" by auto
  have "inv u" using u(1) Suc.prems(2) by (blast intro: steps_inv relpowp_imp_rtranclp)
  from left_step [OF this u(2)] Suc.IH [OF u(1) Suc.prems(2)] show ?case by simp
qed simp

lemma reaches_end: "inv s \<Longrightarrow> \<exists>t. step\<^sup>*\<^sup>* s t \<and> (\<nexists>u. step t u)"
proof (induction "left s" arbitrary: s rule: less_induct)
  case less
  show ?case
  proof (cases "\<exists>u. step s u")
    case True
    then obtain u where u: "step s u" by blast
    from less.hyps [OF left_step [OF less.prems u] inv_step [OF less.prems u]] u show ?thesis
      by (blast intro: converse_rtranclp_into_rtranclp)
  qed blast
qed

end

end
