(* ===== verification/Lifecycle.thy ===== *)
theory Lifecycle
  imports Go_Prelude Step_Systems
begin

text \<open>
  How listeners, the event loop and \<open>Stop\<close> share an event loop (\<open>DoTCP\<close>, \<open>DoUDP\<close>, \<open>DoHTTP\<close> and
  \<open>do\<close> of src/handler.go, \<open>Stop\<close> of src/server.go), as a transition system. A listener's
  goroutine takes the read lock of \<open>muActive\<close>, sends its request on the unbuffered
  \<open>requestChannel\<close> if the loop is active, and releases the lock. The loop receives a request
  and starts a worker for it as soon as fewer than 100 are running. \<open>Stop\<close> takes the write
  lock, makes the loop inactive and closes the channel. As in Go, readers do not pass a
  writer that waits for the lock.

  Requests in the same phase are interchangeable, so the state counts them. A worker is a
  call of \<open>doRequest\<close>, which returns (theory \<open>Workers\<close>); one that panics ends the process
  and with it the system described here.
\<close>

section \<open>State\<close>

datatype stop_phase = NotStopping | WantsLock | HoldsLock | Stopped

datatype loop_phase = Receiving | Spawning | Exited

record loop_state =
  l_active :: bool
  l_closed :: bool
  l_waiting :: nat
  l_checking :: nat
  l_sending :: nat
  l_leaving :: nat
  l_loop :: loop_phase
  l_running :: nat
  l_stop :: stop_phase
  l_arrived :: nat
  l_served :: nat
  l_dropped :: nat
  l_panic :: "go_panic option"

abbreviation (input) "errGroup_limit \<equiv> (100 :: nat)"

definition loop_init :: loop_state where
  "loop_init = \<lparr>l_active = True, l_closed = False, l_waiting = 0, l_checking = 0, l_sending = 0, l_leaving = 0,
     l_loop = Receiving, l_running = 0, l_stop = NotStopping, l_arrived = 0, l_served = 0, l_dropped = 0,
     l_panic = None\<rparr>"

section \<open>Steps\<close>

text \<open>A request arrives, or \<open>Stop\<close> is called: what the outside does.\<close>

inductive outside_step :: "loop_state \<Rightarrow> loop_state \<Rightarrow> bool" where
  arrive: "outside_step s (s\<lparr>l_waiting := Suc (l_waiting s), l_arrived := Suc (l_arrived s)\<rparr>)"
| stop_call: "l_stop s = NotStopping \<Longrightarrow> outside_step s (s\<lparr>l_stop := WantsLock\<rparr>)"

text \<open>\<open>DoTCP\<close>, \<open>DoUDP\<close> and \<open>DoHTTP\<close>, which differ in the name of the transport only.\<close>

inductive do_step :: "loop_state \<Rightarrow> loop_state \<Rightarrow> bool" where
  RLock: "l_waiting s = Suc n \<Longrightarrow> l_stop s \<notin> {WantsLock, HoldsLock} \<Longrightarrow>
    do_step s (s\<lparr>l_waiting := n, l_checking := Suc (l_checking s)\<rparr>)"
| is_active: "l_checking s = Suc n \<Longrightarrow> l_active s \<Longrightarrow>
    do_step s (s\<lparr>l_checking := n, l_sending := Suc (l_sending s)\<rparr>)"
| is_inactive: "l_checking s = Suc n \<Longrightarrow> \<not> l_active s \<Longrightarrow>
    do_step s (s\<lparr>l_checking := n, l_leaving := Suc (l_leaving s), l_dropped := Suc (l_dropped s)\<rparr>)"
| hand_over: "l_sending s = Suc n \<Longrightarrow> \<not> l_closed s \<Longrightarrow> l_loop s = Receiving \<Longrightarrow>
    do_step s (s\<lparr>l_sending := n, l_leaving := Suc (l_leaving s), l_loop := Spawning\<rparr>)"
| send_on_closed: "l_sending s = Suc n \<Longrightarrow> l_closed s \<Longrightarrow>
    do_step s (s\<lparr>l_panic := Some SendOnClosedChannel\<rparr>)"
| RUnlock: "l_leaving s = Suc n \<Longrightarrow> do_step s (s\<lparr>l_leaving := n\<rparr>)"

text \<open>The loop and its workers.\<close>

inductive loop_step :: "loop_state \<Rightarrow> loop_state \<Rightarrow> bool" where
  spawn: "l_loop s = Spawning \<Longrightarrow> l_running s < errGroup_limit \<Longrightarrow>
    loop_step s (s\<lparr>l_loop := Receiving, l_running := Suc (l_running s)\<rparr>)"
| exit_closed: "l_loop s = Receiving \<Longrightarrow> l_closed s \<Longrightarrow> loop_step s (s\<lparr>l_loop := Exited\<rparr>)"
| served: "l_running s = Suc n \<Longrightarrow> loop_step s (s\<lparr>l_running := n, l_served := Suc (l_served s)\<rparr>)"

text \<open>The first part of \<open>Stop\<close>: the write lock needs all readers gone.\<close>

inductive stop_step :: "loop_state \<Rightarrow> loop_state \<Rightarrow> bool" where
  Lock: "l_stop s = WantsLock \<Longrightarrow> l_checking s = 0 \<Longrightarrow> l_sending s = 0 \<Longrightarrow> l_leaving s = 0 \<Longrightarrow>
    stop_step s (s\<lparr>l_stop := HoldsLock\<rparr>)"
| close_channel: "l_stop s = HoldsLock \<Longrightarrow>
    stop_step s (if l_closed s then s\<lparr>l_active := False, l_panic := Some CloseOfClosedChannel\<rparr>
                 else s\<lparr>l_active := False, l_closed := True, l_stop := Stopped\<rparr>)"

definition inner_step :: "loop_state \<Rightarrow> loop_state \<Rightarrow> bool" where
  "inner_step s s' \<longleftrightarrow> do_step s s' \<or> loop_step s s' \<or> stop_step s s'"

inductive lifecycle :: "loop_state \<Rightarrow> bool" where
  start: "lifecycle loop_init"
| outside: "lifecycle s \<Longrightarrow> outside_step s s' \<Longrightarrow> lifecycle s'"
| inner: "lifecycle s \<Longrightarrow> inner_step s s' \<Longrightarrow> lifecycle s'"

inductive_cases do_stepE: "do_step s s'"
inductive_cases loop_stepE: "loop_step s s'"
inductive_cases stop_stepE: "stop_step s s'"
inductive_cases outside_stepE: "outside_step s s'"

section \<open>Invariant\<close>

text \<open>
  The channel is closed exactly when the loop is inactive, which is after \<open>Stop\<close>; no request
  waits to be sent then, nor while \<open>Stop\<close> holds the lock; the limit on workers is kept; and
  every request that arrived is in exactly one place.
\<close>

definition loop_inv :: "loop_state \<Rightarrow> bool" where
  "loop_inv s \<longleftrightarrow>
     l_panic s = None \<and>
     (l_active s \<longleftrightarrow> l_stop s \<noteq> Stopped) \<and> (l_closed s \<longleftrightarrow> l_stop s = Stopped) \<and>
     (l_stop s = HoldsLock \<longrightarrow> l_checking s = 0 \<and> l_sending s = 0 \<and> l_leaving s = 0) \<and>
     (l_stop s = Stopped \<longrightarrow> l_sending s = 0) \<and>
     (l_stop s \<noteq> Stopped \<longrightarrow> l_dropped s = 0) \<and>
     (l_loop s = Exited \<longrightarrow> l_closed s) \<and>
     l_running s \<le> errGroup_limit \<and>
     l_arrived s = l_waiting s + l_checking s + l_sending s + (if l_loop s = Spawning then 1 else 0) +
       l_running s + l_served s + l_dropped s"

lemma loop_inv_do: "do_step s s' \<Longrightarrow> loop_inv s \<Longrightarrow> loop_inv s'"
  by (erule do_stepE) (auto simp: loop_inv_def)

lemma loop_inv_loop: "loop_step s s' \<Longrightarrow> loop_inv s \<Longrightarrow> loop_inv s'"
  by (erule loop_stepE) (auto simp: loop_inv_def)

lemma loop_inv_stop: "stop_step s s' \<Longrightarrow> loop_inv s \<Longrightarrow> loop_inv s'"
  by (erule stop_stepE) (auto simp: loop_inv_def)

lemma loop_inv_outside: "outside_step s s' \<Longrightarrow> loop_inv s \<Longrightarrow> loop_inv s'"
  by (erule outside_stepE) (auto simp: loop_inv_def)

lemmas loop_inv_steps = loop_inv_do loop_inv_loop loop_inv_stop loop_inv_outside

lemma lifecycle_inv: "lifecycle s \<Longrightarrow> loop_inv s"
proof (induction rule: lifecycle.induct)
  case start
  then show ?case by (simp add: loop_inv_def loop_init_def)
qed (auto simp: inner_step_def intro: loop_inv_steps)

section \<open>Progress\<close>

text \<open>Every inner step brings each request and \<open>Stop\<close> nearer to its end.\<close>

definition stop_left :: "stop_phase \<Rightarrow> nat" where
  "stop_left p = (case p of NotStopping \<Rightarrow> 0 | WantsLock \<Rightarrow> 2 | HoldsLock \<Rightarrow> 1 | Stopped \<Rightarrow> 0)"

definition loop_left :: "loop_phase \<Rightarrow> nat" where
  "loop_left p = (case p of Receiving \<Rightarrow> 1 | Spawning \<Rightarrow> 4 | Exited \<Rightarrow> 0)"

definition work_left :: "loop_state \<Rightarrow> nat" where
  "work_left s = 7 * l_waiting s + 6 * l_checking s + 5 * l_sending s + l_leaving s + 2 * l_running s +
     loop_left (l_loop s) + stop_left (l_stop s)"

lemma inner_step_work:
  assumes "inner_step s s'" and "loop_inv s"
  shows "work_left s' < work_left s"
  using assms unfolding inner_step_def
  by (elim disjE do_stepE loop_stepE stop_stepE)
    (auto simp: work_left_def loop_left_def stop_left_def loop_inv_def)

interpretation ll: measured_steps inner_step loop_inv work_left
proof
  show "loop_inv s \<Longrightarrow> inner_step s t \<Longrightarrow> loop_inv t" for s t
    by (auto simp: inner_step_def intro: loop_inv_steps)
qed (rule inner_step_work)

text \<open>In a state without an inner step, nothing is on its way.\<close>

definition at_rest :: "loop_state \<Rightarrow> bool" where
  "at_rest s \<longleftrightarrow> l_waiting s = 0 \<and> l_checking s = 0 \<and> l_sending s = 0 \<and> l_leaving s = 0 \<and> l_running s = 0 \<and>
     (l_stop s = NotStopping \<and> l_loop s = Receiving \<or> l_stop s = Stopped \<and> l_loop s = Exited)"

lemma can_leave: "l_leaving s = Suc n \<Longrightarrow> \<exists>s'. inner_step s s'"
  unfolding inner_step_def by (blast intro: do_step.RUnlock)

lemma can_check: "l_checking s = Suc n \<Longrightarrow> \<exists>s'. inner_step s s'"
  unfolding inner_step_def by (cases "l_active s") (blast intro: do_step.is_active do_step.is_inactive)+

lemma can_serve: "l_running s = Suc n \<Longrightarrow> \<exists>s'. inner_step s s'"
  unfolding inner_step_def by (blast intro: loop_step.served)

lemma can_spawn: "l_loop s = Spawning \<Longrightarrow> \<exists>s'. inner_step s s'"
proof (cases "l_running s")
  case 0
  then show "l_loop s = Spawning \<Longrightarrow> \<exists>s'. inner_step s s'"
    unfolding inner_step_def using loop_step.spawn [of s] by fastforce
qed (blast intro: can_serve)

lemma can_send:
  assumes "loop_inv s" and "l_sending s = Suc n"
  shows "\<exists>s'. inner_step s s'"
proof (cases "l_loop s = Spawning")
  case False
  with assms have "l_loop s = Receiving" "\<not> l_closed s"
    by (auto simp: loop_inv_def) (metis loop_phase.exhaust)
  with assms(2) show ?thesis unfolding inner_step_def by (blast intro: do_step.hand_over)
qed (rule can_spawn)

lemma no_step_at_rest:
  assumes inv: "loop_inv s" and no: "\<nexists>s'. inner_step s s'"
  shows "at_rest s"
proof -
  have z: "l_leaving s = 0" "l_checking s = 0" "l_running s = 0" "l_sending s = 0"
    using no can_leave can_check can_serve can_send [OF inv] by (metis not0_implies_Suc)+
  have "l_stop s \<noteq> WantsLock" "l_stop s \<noteq> HoldsLock"
    using no z unfolding inner_step_def by (blast intro: stop_step.Lock stop_step.close_channel)+
  then have st: "l_stop s = NotStopping \<or> l_stop s = Stopped" by (cases "l_stop s") simp_all
  then have "l_waiting s = 0"
    using no unfolding inner_step_def by (cases "l_waiting s") (auto dest: do_step.RLock)
  moreover have "l_loop s \<noteq> Spawning" using no can_spawn by blast
  moreover have "l_loop s = Receiving \<Longrightarrow> \<not> l_closed s"
    using no unfolding inner_step_def by (blast intro: loop_step.exit_closed)
  moreover have "l_closed s \<longleftrightarrow> l_stop s = Stopped" "l_loop s = Exited \<Longrightarrow> l_closed s"
    using inv unfolding loop_inv_def by blast+
  ultimately show ?thesis using z st by (cases "l_loop s") (auto simp: at_rest_def)
qed

section \<open>Properties\<close>

text \<open>
  C8. However requests, workers and \<open>Stop\<close> interleave, no goroutine ever sends on the closed
  channel and the channel is never closed twice, at most 100 workers run, and no request is
  lost: each one that arrived is still on its way, running, served, or dropped, and requests
  are dropped only after \<open>Stop\<close> has closed the channel.
\<close>

theorem loop_never_panics_or_loses_requests:
  assumes "lifecycle s"
  shows "l_panic s = None \<and> l_running s \<le> 100 \<and> (l_dropped s > 0 \<longrightarrow> l_closed s \<and> \<not> l_active s) \<and>
    l_arrived s = l_waiting s + l_checking s + l_sending s + (if l_loop s = Spawning then 1 else 0) +
      l_running s + l_served s + l_dropped s"
  using lifecycle_inv [OF assms] by (auto simp: loop_inv_def)

theorem loop_never_panics_or_loses_requests_witness:
  "\<exists>s. lifecycle s \<and> l_panic s = None \<and> l_running s = 1 \<and> l_arrived s = 1"
proof -
  let ?s1 = "loop_init\<lparr>l_waiting := 1, l_arrived := 1\<rparr>"
  let ?s2 = "?s1\<lparr>l_waiting := 0, l_checking := 1\<rparr>"
  let ?s3 = "?s2\<lparr>l_checking := 0, l_sending := 1\<rparr>"
  let ?s4 = "?s3\<lparr>l_sending := 0, l_leaving := 1, l_loop := Spawning\<rparr>"
  let ?s5 = "?s4\<lparr>l_loop := Receiving, l_running := 1\<rparr>"
  have 1: "lifecycle ?s1" using lifecycle.outside [OF lifecycle.start arrive] by (simp add: loop_init_def)
  have 2: "do_step ?s1 ?s2" using RLock [of ?s1 0] by (simp add: loop_init_def)
  have 3: "do_step ?s2 ?s3" using is_active [of ?s2 0] by (simp add: loop_init_def)
  have 4: "do_step ?s3 ?s4" using hand_over [of ?s3 0] by (simp add: loop_init_def)
  have 5: "loop_step ?s4 ?s5" using spawn [of ?s4] by (simp add: loop_init_def)
  have r: "lifecycle ?s5"
    using 1 2 3 4 5 unfolding inner_step_def [symmetric] by (meson inner_step_def lifecycle.inner)
  from loop_never_panics_or_loses_requests [OF r] r show ?thesis
    by (intro exI [of _ ?s5]) (simp add: loop_init_def)
qed

text \<open>
  C7. The event loop cannot deadlock: from any state it can get into, whatever goroutine runs
  next, only finitely many steps are possible until new requests arrive, and when none is
  left, every request has been served or dropped, and a \<open>Stop\<close> that was called has closed
  the channel and the loop has ended.
\<close>

theorem loop_comes_to_rest:
  assumes "lifecycle s"
  shows "(\<forall>s' n. (inner_step ^^ n) s s' \<longrightarrow> n \<le> work_left s) \<and>
    (\<forall>s'. inner_step\<^sup>*\<^sup>* s s' \<and> (\<nexists>t. inner_step s' t) \<longrightarrow> at_rest s' \<and> l_arrived s' = l_served s' + l_dropped s' \<and>
      (l_stop s \<noteq> NotStopping \<longrightarrow> l_stop s' = Stopped \<and> l_loop s' = Exited))"
proof -
  have inv: "loop_inv s" using lifecycle_inv [OF assms] .
  have stopping: "inner_step\<^sup>*\<^sup>* s s' \<Longrightarrow> l_stop s \<noteq> NotStopping \<Longrightarrow> l_stop s' \<noteq> NotStopping" for s'
    by (induction rule: rtranclp_induct)
      (auto simp: inner_step_def elim!: do_stepE loop_stepE stop_stepE split: if_splits)
  have "at_rest s' \<and> l_arrived s' = l_served s' + l_dropped s' \<and>
      (l_stop s \<noteq> NotStopping \<longrightarrow> l_stop s' = Stopped \<and> l_loop s' = Exited)"
    if r: "inner_step\<^sup>*\<^sup>* s s'" and no: "\<nexists>t. inner_step s' t" for s'
  proof -
    have inv': "loop_inv s'" using ll.steps_inv [OF r inv] .
    note rest = no_step_at_rest [OF inv' no]
    then have "l_arrived s' = l_served s' + l_dropped s'"
      using inv' by (auto simp: at_rest_def loop_inv_def)
    with rest stopping [OF r] show ?thesis by (auto simp: at_rest_def)
  qed
  then show ?thesis using ll.steps_bounded [OF _ inv] by fastforce
qed

theorem loop_comes_to_rest_witness:
  "\<exists>s. lifecycle s \<and> l_arrived s = 1 \<and> l_stop s = WantsLock \<and>
     (\<forall>s'. inner_step\<^sup>*\<^sup>* s s' \<and> (\<nexists>t. inner_step s' t) \<longrightarrow> l_loop s' = Exited \<and> l_arrived s' = l_served s' + l_dropped s')"
proof -
  let ?s1 = "loop_init\<lparr>l_waiting := 1, l_arrived := 1\<rparr>" and ?s2 = "loop_init\<lparr>l_waiting := 1, l_arrived := 1, l_stop := WantsLock\<rparr>"
  have 1: "lifecycle ?s1" using lifecycle.outside [OF lifecycle.start arrive] by (simp add: loop_init_def)
  have "outside_step ?s1 ?s2" using stop_call [of ?s1] by (simp add: loop_init_def)
  with 1 have r: "lifecycle ?s2" by (rule lifecycle.outside)
  with loop_comes_to_rest [OF r] show ?thesis by (intro exI [of _ ?s2]) simp
qed

end
