(* ===== verification/Shutdown.thy ===== *)
theory Shutdown
  imports Go_Prelude Step_Systems
begin

text \<open>
  How the program stops and restarts its parts: \<open>Stop\<close>, \<open>start\<close> and \<open>startHttp\<close> of src/server.go
  with \<open>ListenAndServe\<close> and \<open>Shutdown\<close> of the vendored dns server, \<open>Stop\<close> of src/doh.go, and
  the handshake of \<open>main\<close> with the activation goroutine (src/main.go, src/activation.go).
  Three transition systems, each for one question.

  \<^item> Does \<open>Stop\<close> return? It closes the event loop, shuts the DNS listeners down and then waits
    for the handlers of DoH requests, which wait for their replies.
  \<^item> Who listens? Every \<open>Run\<close> starts goroutines that open the sockets; \<open>Stop\<close> may come before
    they have run.
  \<^item> Does the program end on an interrupt? \<open>main\<close> and the activation goroutine meet on two
    unbuffered channels.
\<close>

section \<open>Stop and the handlers of DoH requests\<close>

datatype stop_at = Serving | LoopClosed | UdpShut | TcpShut | StopReturned

text \<open>
  DoH handlers are counted by where they are: about to call \<open>DoHTTP\<close>, waiting for a worker
  that has their request, waiting although \<open>DoHTTP\<close> dropped it, or done.
\<close>

record stop_state =
  ss_at :: stop_at
  ss_doh :: bool
  ss_asking :: nat
  ss_accepted :: nat
  ss_lost :: nat
  ss_done :: nat

definition stop_start :: "bool \<Rightarrow> stop_state" where
  "stop_start doh = \<lparr>ss_at = Serving, ss_doh = doh, ss_asking = 0, ss_accepted = 0, ss_lost = 0, ss_done = 0\<rparr>"

text \<open>Requests arrive until the HTTP listener is closed, the first thing its \<open>Shutdown\<close> does.\<close>

inductive doh_arrives :: "stop_state \<Rightarrow> stop_state \<Rightarrow> bool" where
  "ss_doh s \<Longrightarrow> ss_at s \<in> {Serving, LoopClosed, UdpShut} \<Longrightarrow> doh_arrives s (s\<lparr>ss_asking := Suc (ss_asking s)\<rparr>)"

inductive server_stop_step :: "stop_state \<Rightarrow> stop_state \<Rightarrow> bool" where
  accepted: "ss_asking s = Suc n \<Longrightarrow> ss_at s = Serving \<Longrightarrow>
    server_stop_step s (s\<lparr>ss_asking := n, ss_accepted := Suc (ss_accepted s)\<rparr>)"
| dropped: "ss_asking s = Suc n \<Longrightarrow> ss_at s \<noteq> Serving \<Longrightarrow>
    server_stop_step s (s\<lparr>ss_asking := n, ss_lost := Suc (ss_lost s)\<rparr>)"
| replied: "ss_accepted s = Suc n \<Longrightarrow> server_stop_step s (s\<lparr>ss_accepted := n, ss_done := Suc (ss_done s)\<rparr>)"
| close_loop: "ss_at s = Serving \<Longrightarrow> server_stop_step s (s\<lparr>ss_at := LoopClosed\<rparr>)"
| shut_udp: "ss_at s = LoopClosed \<Longrightarrow> server_stop_step s (s\<lparr>ss_at := UdpShut\<rparr>)"
| shut_tcp: "ss_at s = UdpShut \<Longrightarrow> server_stop_step s (s\<lparr>ss_at := TcpShut\<rparr>)"
| shut_http: "ss_at s = TcpShut \<Longrightarrow> \<not> ss_doh s \<or> ss_asking s + ss_accepted s + ss_lost s = 0 \<Longrightarrow>
    server_stop_step s (s\<lparr>ss_at := StopReturned\<rparr>)"

inductive stop_run :: "bool \<Rightarrow> stop_state \<Rightarrow> bool" for doh where
  begins: "stop_run doh (stop_start doh)"
| arrives_doh: "stop_run doh s \<Longrightarrow> doh_arrives s s' \<Longrightarrow> stop_run doh s'"
| moves: "stop_run doh s \<Longrightarrow> server_stop_step s s' \<Longrightarrow> stop_run doh s'"

inductive_cases server_stop_stepE: "server_stop_step s s'"
inductive_cases doh_arrivesE: "doh_arrives s s'"

definition stop_inv :: "stop_state \<Rightarrow> bool" where
  "stop_inv s \<longleftrightarrow> (ss_at s = Serving \<longrightarrow> ss_lost s = 0) \<and> (ss_at s = StopReturned \<longrightarrow> \<not> ss_doh s \<or> ss_lost s = 0) \<and>
     (\<not> ss_doh s \<longrightarrow> ss_asking s + ss_accepted s + ss_lost s = 0) \<and>
     (ss_at s = StopReturned \<longrightarrow> ss_asking s + ss_accepted s = 0)"

definition phases_left :: "stop_at \<Rightarrow> nat" where
  "phases_left a = (case a of Serving \<Rightarrow> 4 | LoopClosed \<Rightarrow> 3 | UdpShut \<Rightarrow> 2 | TcpShut \<Rightarrow> 1 | StopReturned \<Rightarrow> 0)"

definition stop_work :: "stop_state \<Rightarrow> nat" where
  "stop_work s = 2 * ss_asking s + ss_accepted s + phases_left (ss_at s)"

lemma stop_inv_step: "stop_inv s \<Longrightarrow> server_stop_step s s' \<Longrightarrow> stop_inv s'"
  by (erule server_stop_stepE) (auto simp: stop_inv_def)

interpretation sw: measured_steps server_stop_step stop_inv stop_work
proof
  show "server_stop_step s t \<Longrightarrow> stop_work t < stop_work s" for s t
    by (erule server_stop_stepE) (auto simp: stop_work_def phases_left_def)
qed (rule stop_inv_step)

lemma stop_run_inv: "stop_run doh s \<Longrightarrow> stop_inv s \<and> ss_doh s = doh"
proof (induction rule: stop_run.induct)
  case (arrives_doh s s')
  then show ?case by (auto simp: stop_inv_def elim!: doh_arrivesE)
next
  case (moves s s')
  moreover have "ss_doh s' = ss_doh s" using moves(2) by (auto elim!: server_stop_stepE)
  ultimately show ?case using stop_inv_step by auto
qed (simp add: stop_inv_def stop_start_def)

text \<open>When nothing can move any more, \<open>Stop\<close> has returned or waits for a lost request.\<close>

lemma stop_stuck:
  assumes "stop_inv s" and no: "\<nexists>t. server_stop_step s t"
  shows "ss_asking s = 0 \<and> ss_accepted s = 0 \<and> (if ss_lost s = 0 then ss_at s = StopReturned else ss_at s = TcpShut)"
proof -
  have a: "ss_asking s = 0" using no server_stop_step.accepted server_stop_step.dropped by (metis not0_implies_Suc)
  have b: "ss_accepted s = 0" using no server_stop_step.replied by (metis not0_implies_Suc)
  have "ss_at s = TcpShut \<or> ss_at s = StopReturned"
    using no server_stop_step.close_loop server_stop_step.shut_udp server_stop_step.shut_tcp by (metis stop_at.exhaust)
  moreover have "ss_at s = TcpShut \<Longrightarrow> \<not> (\<not> ss_doh s \<or> ss_asking s + ss_accepted s + ss_lost s = 0)"
    using no server_stop_step.shut_http [of s] by metis
  ultimately show ?thesis using a b assms(1) by (auto simp: stop_inv_def)
qed

section \<open>Who listens\<close>

datatype ln_state = NotStarted | Listening | ListenFailed | ShutDown

record listener =
  ln_gen :: nat
  ln_net :: string
  ln_at :: ln_state

text \<open>The listeners of all calls of \<open>Run\<close>; \<open>s.udpServer\<close> and \<open>s.tcpServer\<close> are those of the last.\<close>

record listeners =
  ls_gen :: nat
  ls_stopped :: bool
  ls_all :: "listener list"

definition run_listeners :: "listeners \<Rightarrow> listeners" where
  "run_listeners s = (let g = Suc (ls_gen s) in
     \<lparr>ls_gen = g, ls_stopped = False,
      ls_all = ls_all s @ [\<lparr>ln_gen = g, ln_net = ''udp'', ln_at = NotStarted\<rparr>, \<lparr>ln_gen = g, ln_net = ''tcp'', ln_at = NotStarted\<rparr>]\<rparr>)"

text \<open>
  \<open>start\<close> in a goroutine of its own calls \<open>ListenAndServe\<close>: the address may be taken by another
  listener of this program. Other failures of the operating system are left out.
\<close>

definition Server_start :: "nat \<Rightarrow> listeners \<Rightarrow> listeners" where
  "Server_start i s =
     (let l = ls_all s ! i in
      if ln_at l \<noteq> NotStarted then s
      else if list_ex (\<lambda>k. ln_net k = ln_net l \<and> ln_at k = Listening) (ls_all s)
      then s\<lparr>ls_all := (ls_all s)[i := l\<lparr>ln_at := ListenFailed\<rparr>]\<rparr>
      else s\<lparr>ls_all := (ls_all s)[i := l\<lparr>ln_at := Listening\<rparr>]\<rparr>)"

text \<open>\<open>Shutdown\<close> fails with ``server not started'' unless the listener serves; \<open>Stop\<close> logs that.\<close>

definition dns_Shutdown :: "listener \<Rightarrow> listener" where
  "dns_Shutdown l = (if ln_at l = Listening then l\<lparr>ln_at := ShutDown\<rparr> else l)"

definition stop_listeners :: "listeners \<Rightarrow> listeners" where
  "stop_listeners s = s\<lparr>ls_stopped := True,
     ls_all := map (\<lambda>l. if ln_gen l = ls_gen s then dns_Shutdown l else l) (ls_all s)\<rparr>"

inductive listen_step :: "listeners \<Rightarrow> listeners \<Rightarrow> bool" where
  goroutine_runs: "i < length (ls_all s) \<Longrightarrow> listen_step s (Server_start i s)"
| Stop_called: "\<not> ls_stopped s \<Longrightarrow> listen_step s (stop_listeners s)"
| Run_called: "ls_stopped s \<Longrightarrow> listen_step s (run_listeners s)"

definition first_run :: listeners where
  "first_run = run_listeners \<lparr>ls_gen = 0, ls_stopped = False, ls_all = []\<rparr>"

inductive_cases listen_stepE: "listen_step s s'"

definition stale :: "listeners \<Rightarrow> nat \<Rightarrow> bool" where
  "stale s i \<longleftrightarrow> i < length (ls_all s) \<and> ln_at (ls_all s ! i) = Listening \<and> ln_gen (ls_all s ! i) < ls_gen s"

lemma stale_step: "listen_step s s' \<Longrightarrow> stale s i \<Longrightarrow> stale s' i \<and> ls_all s' ! i = ls_all s ! i"
  by (erule listen_stepE)
    (auto simp: stale_def Server_start_def stop_listeners_def run_listeners_def Let_def nth_append nth_list_update)

text \<open>At most one listener has the address, on each network.\<close>

definition listening_on :: "string \<Rightarrow> listeners \<Rightarrow> listener list" where
  "listening_on net s = filter (\<lambda>l. ln_net l = net \<and> ln_at l = Listening) (ls_all s)"

lemma one_listener_step:
  assumes "listen_step s s'" and "length (listening_on net s) \<le> 1"
  shows "length (listening_on net s') \<le> 1"
  using assms(1)
proof (cases rule: listen_step.cases)
  case (goroutine_runs i)
  let ?l = "ls_all s ! i" and ?P = "\<lambda>l. ln_net l = net \<and> ln_at l = Listening"
  have le: "length (filter ?P ((ls_all s)[i := ?l\<lparr>ln_at := a\<rparr>])) \<le> 1"
    if "ln_net ?l \<noteq> net \<or> a \<noteq> Listening" for a
    using filter_update_le [OF goroutine_runs(2), of ?P "?l\<lparr>ln_at := a\<rparr>"] that assms(2)
    by (auto simp: listening_on_def)
  have "length (filter ?P ((ls_all s)[i := ?l\<lparr>ln_at := Listening\<rparr>])) \<le> 1"
    if "\<not> list_ex (\<lambda>k. ln_net k = ln_net ?l \<and> ln_at k = Listening) (ls_all s)"
  proof (cases "ln_net ?l = net")
    case True
    with that have "filter ?P (ls_all s) = []" by (auto simp: list_ex_iff filter_empty_conv)
    with filter_update_Suc [of ?P "ls_all s" i "?l\<lparr>ln_at := Listening\<rparr>"] show ?thesis by simp
  qed (use le in simp)
  with le goroutine_runs(1) assms(2) show ?thesis by (auto simp: Server_start_def Let_def listening_on_def)
next
  case Stop_called
  let ?P = "\<lambda>l. ln_net l = net \<and> ln_at l = Listening"
  let ?f = "\<lambda>l. if ln_gen l = ls_gen s then dns_Shutdown l else l"
  have "?P (?f l) \<Longrightarrow> ?P l" for l by (auto simp: dns_Shutdown_def split: if_splits)
  from filter_map_le [of ?P ?f, OF this] have "length (listening_on net s') \<le> length (listening_on net s)"
    unfolding Stop_called(1) listening_on_def stop_listeners_def by (simp del: filter_map)
  with assms(2) show ?thesis by simp
next
  case Run_called
  with assms(2) show ?thesis by (simp add: listening_on_def run_listeners_def Let_def)
qed

text \<open>Runs in which \<open>Stop\<close> is called only in states that \<open>may_stop\<close> allows.\<close>

inductive listen_run :: "(listeners \<Rightarrow> bool) \<Rightarrow> listeners \<Rightarrow> bool" for may_stop where
  first: "listen_run may_stop first_run"
| further: "listen_run may_stop s \<Longrightarrow> listen_step s s' \<Longrightarrow> (\<not> ls_stopped s \<and> ls_stopped s' \<Longrightarrow> may_stop s) \<Longrightarrow>
    listen_run may_stop s'"

definition all_started :: "listeners \<Rightarrow> bool" where
  "all_started s \<longleftrightarrow> list_all (\<lambda>l. ln_at l \<noteq> NotStarted) (ls_all s)"

text \<open>If the goroutines have run before every \<open>Stop\<close>, old listeners are shut down and none has failed.\<close>

definition fresh_inv :: "listeners \<Rightarrow> bool" where
  "fresh_inv s \<longleftrightarrow> (\<forall>l\<in>set (ls_all s). ln_gen l \<le> ls_gen s \<and> ln_at l \<noteq> ListenFailed \<and>
       (ln_gen l < ls_gen s \<or> ls_stopped s \<longrightarrow> ln_at l = ShutDown) \<and> (ln_at l = ShutDown \<longrightarrow> ln_gen l < ls_gen s \<or> ls_stopped s)) \<and>
     map ln_net (filter (\<lambda>l. ln_gen l = ls_gen s) (ls_all s)) = [''udp'', ''tcp'']"

lemma filter_map_nth:
  assumes "map f (filter P xs) = ys" and "distinct ys" and "i < length xs" and "j < length xs" and "P (xs ! i)" and "P (xs ! j)"
    and "f (xs ! i) = f (xs ! j)"
  shows "i = j"
proof -
  have "inj_on f (set (filter P xs))" using assms(1,2) by (metis distinct_map)
  moreover have "xs ! i \<in> set (filter P xs)" "xs ! j \<in> set (filter P xs)" using assms(3-6) by simp_all
  ultimately have eq: "xs ! i = xs ! j" using assms(7) by (meson inj_onD)
  have "distinct (filter P xs)" using assms(1,2) by (metis distinct_map)
  with eq show ?thesis using assms(3-6)
  proof (induction xs arbitrary: i j)
    case (Cons x xs)
    then show ?case by (cases i; cases j) (auto split: if_splits)
  qed simp
qed

lemma map_filter_update:
  "i < length xs \<Longrightarrow> P y = P (xs ! i) \<Longrightarrow> f y = f (xs ! i) \<Longrightarrow> map f (filter P (xs[i := y])) = map f (filter P xs)"
proof (induction xs arbitrary: i)
  case (Cons x xs)
  then show ?case by (cases i) auto
qed simp

lemma fresh_invD:
  assumes "fresh_inv s" and "l \<in> set (ls_all s)" and "ln_at l \<noteq> ShutDown"
  shows "ln_gen l = ls_gen s \<and> \<not> ls_stopped s"
proof -
  have "ln_gen l \<le> ls_gen s" "ln_gen l < ls_gen s \<or> ls_stopped s \<longrightarrow> ln_at l = ShutDown"
    using assms(1,2) unfolding fresh_inv_def by blast+
  with assms(3) show ?thesis by auto
qed

lemma fresh_Server_start:
  assumes inv: "fresh_inv s" and i: "i < length (ls_all s)"
  shows "fresh_inv (Server_start i s)"
proof (cases "ln_at (ls_all s ! i) = NotStarted")
  case True
  let ?l = "ls_all s ! i"
  have l: "ln_gen ?l = ls_gen s" "\<not> ls_stopped s" using fresh_invD [OF inv nth_mem [OF i]] True by simp_all
  have nets: "map ln_net (filter (\<lambda>l. ln_gen l = ls_gen s) (ls_all s)) = [''udp'', ''tcp'']"
    using inv unfolding fresh_inv_def by blast
  have "\<not> (ln_net k = ln_net ?l \<and> ln_at k = Listening)" if kin: "k \<in> set (ls_all s)" for k
  proof
    assume k: "ln_net k = ln_net ?l \<and> ln_at k = Listening"
    then have g: "ln_gen k = ls_gen s" using fresh_invD [OF inv kin] by simp
    obtain j where j: "j < length (ls_all s)" "k = ls_all s ! j" using kin by (auto simp: in_set_conv_nth)
    have "i = j" by (rule filter_map_nth [OF nets _ i j(1)]) (use l(1) g k j(2) in simp_all)
    with j k True show False by simp
  qed
  then have s': "Server_start i s = s\<lparr>ls_all := (ls_all s)[i := ?l\<lparr>ln_at := Listening\<rparr>]\<rparr>"
    using True by (auto simp: Server_start_def Let_def list_ex_iff)
  have old: "ln_gen k \<le> ls_gen s \<and> ln_at k \<noteq> ListenFailed \<and> (ln_gen k < ls_gen s \<or> ls_stopped s \<longrightarrow> ln_at k = ShutDown) \<and>
      (ln_at k = ShutDown \<longrightarrow> ln_gen k < ls_gen s \<or> ls_stopped s)" if "k \<in> set (ls_all s)" for k
    using inv that unfolding fresh_inv_def by blast
  have "k = ?l\<lparr>ln_at := Listening\<rparr> \<or> k \<in> set (ls_all s)" if "k \<in> set ((ls_all s)[i := ?l\<lparr>ln_at := Listening\<rparr>])" for k
    using that set_update_subset_insert [of "ls_all s" i "?l\<lparr>ln_at := Listening\<rparr>"] by blast
  with old l nets map_filter_update [OF i, of "\<lambda>l. ln_gen l = ls_gen s" "?l\<lparr>ln_at := Listening\<rparr>" ln_net] show ?thesis
    unfolding s' fresh_inv_def by fastforce
qed (use inv in \<open>simp add: Server_start_def\<close>)

lemma fresh_stop:
  assumes inv: "fresh_inv s" and st: "all_started s"
  shows "fresh_inv (stop_listeners s)"
proof -
  let ?f = "\<lambda>l. if ln_gen l = ls_gen s then dns_Shutdown l else l"
  have gen: "ln_gen (dns_Shutdown l) = ln_gen l" "ln_net (dns_Shutdown l) = ln_net l" for l by (simp_all add: dns_Shutdown_def)
  have nets: "map ln_net (filter (\<lambda>l. ln_gen l = ls_gen s) (ls_all s)) = [''udp'', ''tcp'']"
    using inv unfolding fresh_inv_def by blast
  have "map ln_net (filter (\<lambda>l. ln_gen l = ls_gen s) (map ?f xs)) = map ln_net (filter (\<lambda>l. ln_gen l = ls_gen s) xs)" for xs
    using gen by (induction xs) simp_all
  moreover have f: "ln_gen (?f l) \<le> ls_gen s \<and> ln_at (?f l) = ShutDown" if "l \<in> set (ls_all s)" for l
  proof -
    have "ln_gen l \<le> ls_gen s" "ln_at l \<noteq> ListenFailed" "ln_at l \<noteq> NotStarted" "ln_gen l < ls_gen s \<longrightarrow> ln_at l = ShutDown"
      using inv st that unfolding fresh_inv_def all_started_def list_all_iff by blast+
    then show ?thesis by (cases "ln_at l") (auto simp: dns_Shutdown_def)
  qed
  then have "ln_gen k \<le> ls_gen s \<and> ln_at k = ShutDown" if "k \<in> set (map ?f (ls_all s))" for k
    using that unfolding set_map by blast
  ultimately show ?thesis using nets unfolding fresh_inv_def stop_listeners_def by (simp del: set_map filter_map)
qed

lemma fresh_run:
  assumes inv: "fresh_inv s" and st: "ls_stopped s"
  shows "fresh_inv (run_listeners s)"
proof -
  have old: "ln_gen l \<le> ls_gen s \<and> ln_at l = ShutDown" if "l \<in> set (ls_all s)" for l
    using inv st that unfolding fresh_inv_def by blast
  then have "filter (\<lambda>l. ln_gen l = Suc (ls_gen s)) (ls_all s) = []" by (fastforce simp: filter_empty_conv)
  with old show ?thesis by (fastforce simp: fresh_inv_def run_listeners_def Let_def)
qed

lemma listen_run_fresh: "listen_run all_started s \<Longrightarrow> fresh_inv s"
proof (induction rule: listen_run.induct)
  case first
  then show ?case by (simp add: fresh_inv_def first_run_def run_listeners_def)
next
  case (further s s')
  from further(2) show ?case
  proof (cases rule: listen_step.cases)
    case (goroutine_runs i)
    with further fresh_Server_start show ?thesis by simp
  next
    case Stop_called
    then have "all_started s" using further(3) by (simp add: stop_listeners_def)
    with Stop_called further fresh_stop show ?thesis by simp
  next
    case Run_called
    with further fresh_run show ?thesis by simp
  qed
qed

lemma listen_run_one: "listen_run may_stop s \<Longrightarrow> length (listening_on net s) \<le> 1"
proof (induction rule: listen_run.induct)
  case first
  then show ?case by (simp add: first_run_def run_listeners_def listening_on_def)
qed (blast intro: one_listener_step)

section \<open>The activation goroutine\<close>

text \<open>
  \<open>main\<close> receives the handler from the goroutine, closes that channel, and serves; on an interrupt
  it sends on the other channel, and waits there for the goroutine's answer. \<open>startActivation\<close>
  sends, waits to be told to quit, and answers. The channels are unbuffered: a send and a
  receive happen together. Nothing ever calls \<open>query\<close>.
\<close>

datatype main_pc = WaitsForHandler | ClosesChannel | Serves | SendsQuit | WaitsForQuit | MainEnded

datatype act_pc = SendsHandler | WaitsToQuit | AnswersQuit | ActEnded

record handshake =
  hs_main :: main_pc
  hs_act :: act_pc
  hs_closed :: bool
  hs_panic :: "go_panic option"

definition handshake_start :: handshake where
  "handshake_start = \<lparr>hs_main = WaitsForHandler, hs_act = SendsHandler, hs_closed = False, hs_panic = None\<rparr>"

inductive handshake_step :: "handshake \<Rightarrow> handshake \<Rightarrow> bool" where
  hands_over: "hs_main s = WaitsForHandler \<Longrightarrow> hs_act s = SendsHandler \<Longrightarrow> \<not> hs_closed s \<Longrightarrow>
    handshake_step s (s\<lparr>hs_main := ClosesChannel, hs_act := WaitsToQuit\<rparr>)"
| send_closed: "hs_act s = SendsHandler \<Longrightarrow> hs_closed s \<Longrightarrow> hs_panic s = None \<Longrightarrow>
    handshake_step s (s\<lparr>hs_panic := Some SendOnClosedChannel\<rparr>)"
| closes: "hs_main s = ClosesChannel \<Longrightarrow>
    handshake_step s (if hs_closed s then s\<lparr>hs_panic := Some CloseOfClosedChannel, hs_main := MainEnded\<rparr>
                      else s\<lparr>hs_closed := True, hs_main := Serves\<rparr>)"
| quits: "hs_main s = SendsQuit \<Longrightarrow> hs_act s = WaitsToQuit \<Longrightarrow>
    handshake_step s (s\<lparr>hs_main := WaitsForQuit, hs_act := AnswersQuit\<rparr>)"
| answers: "hs_main s = WaitsForQuit \<Longrightarrow> hs_act s = AnswersQuit \<Longrightarrow>
    handshake_step s (s\<lparr>hs_main := MainEnded, hs_act := ActEnded\<rparr>)"

inductive handshake_run :: "handshake \<Rightarrow> bool" where
  started: "handshake_run handshake_start"
| stepped: "handshake_run s \<Longrightarrow> handshake_step s s' \<Longrightarrow> handshake_run s'"
| interrupted: "handshake_run s \<Longrightarrow> hs_main s = Serves \<Longrightarrow> handshake_run (s\<lparr>hs_main := SendsQuit\<rparr>)"

inductive_cases handshake_stepE: "handshake_step s s'"

definition hs_inv :: "handshake \<Rightarrow> bool" where
  "hs_inv s \<longleftrightarrow> hs_panic s = None \<and>
     (case hs_main s of
        WaitsForHandler \<Rightarrow> hs_act s = SendsHandler \<and> \<not> hs_closed s
      | ClosesChannel \<Rightarrow> hs_act s = WaitsToQuit \<and> \<not> hs_closed s
      | Serves \<Rightarrow> hs_act s = WaitsToQuit \<and> hs_closed s
      | SendsQuit \<Rightarrow> hs_act s = WaitsToQuit \<and> hs_closed s
      | WaitsForQuit \<Rightarrow> hs_act s = AnswersQuit \<and> hs_closed s
      | MainEnded \<Rightarrow> hs_act s = ActEnded \<and> hs_closed s)"

definition hs_left :: "handshake \<Rightarrow> nat" where
  "hs_left s = (case hs_main s of WaitsForHandler \<Rightarrow> 2 | ClosesChannel \<Rightarrow> 1 | Serves \<Rightarrow> 0
     | SendsQuit \<Rightarrow> 2 | WaitsForQuit \<Rightarrow> 1 | MainEnded \<Rightarrow> 0)"

interpretation hs: measured_steps handshake_step hs_inv hs_left
proof
  show "hs_inv s \<Longrightarrow> handshake_step s t \<Longrightarrow> hs_inv t" for s t
    by (erule handshake_stepE) (auto simp: hs_inv_def split: main_pc.splits)
  show "hs_inv s \<Longrightarrow> handshake_step s t \<Longrightarrow> hs_left t < hs_left s" for s t
    by (erule handshake_stepE) (auto simp: hs_inv_def hs_left_def split: main_pc.splits)
qed

lemma handshake_run_inv: "handshake_run s \<Longrightarrow> hs_inv s"
proof (induction rule: handshake_run.induct)
  case started
  then show ?case by (simp add: hs_inv_def handshake_start_def)
next
  case (interrupted s)
  then show ?case by (auto simp: hs_inv_def)
qed (rule hs.inv_step)

lemma handshake_rest:
  assumes "hs_inv s" and no: "\<nexists>t. handshake_step s t"
  shows "hs_main s = Serves \<or> hs_main s = MainEnded \<and> hs_act s = ActEnded"
proof (cases "hs_main s")
  case WaitsForHandler
  with assms handshake_step.hands_over [of s] show ?thesis by (auto simp: hs_inv_def)
next
  case ClosesChannel
  with no handshake_step.closes [of s] show ?thesis by blast
next
  case SendsQuit
  with assms handshake_step.quits [of s] show ?thesis by (auto simp: hs_inv_def)
next
  case WaitsForQuit
  with assms handshake_step.answers [of s] show ?thesis by (auto simp: hs_inv_def)
qed (use assms in \<open>auto simp: hs_inv_def\<close>)

section \<open>Properties\<close>

text \<open>
  C22. \<open>Stop\<close> ends or hangs according to the DoH requests that come at the wrong moment: from
  any state of the server, whatever runs next, only finitely many steps are possible until
  another request arrives, and when none is left, every request that was accepted has been
  answered, and \<open>Stop\<close> has returned exactly if no DoH request was dropped by the closed event
  loop. After one was, \<open>Stop\<close> waits for its handler for ever, and with it the main program.
\<close>

theorem Stop_returns_unless_doh_lost:
  assumes "stop_run doh s"
  shows "(\<forall>n s'. (server_stop_step ^^ n) s s' \<longrightarrow> n \<le> stop_work s) \<and>
    (\<forall>s'. server_stop_step\<^sup>*\<^sup>* s s' \<and> (\<nexists>t. server_stop_step s' t) \<longrightarrow>
      ss_asking s' = 0 \<and> ss_accepted s' = 0 \<and> (if ss_lost s' = 0 then ss_at s' = StopReturned else ss_at s' = TcpShut)) \<and>
    (\<not> doh \<longrightarrow> ss_lost s = 0)"
proof -
  have inv: "stop_inv s" "ss_doh s = doh" using stop_run_inv [OF assms] by simp_all
  then have "\<not> doh \<longrightarrow> ss_lost s = 0" by (auto simp: stop_inv_def)
  then show ?thesis
    using sw.steps_bounded [OF _ inv(1)] stop_stuck sw.steps_inv [OF _ inv(1)] by fastforce
qed

theorem Stop_returns_unless_doh_lost_witness:
  "\<exists>s. stop_run True s \<and> ss_lost s = 1 \<and>
     (\<forall>s'. server_stop_step\<^sup>*\<^sup>* s s' \<and> (\<nexists>t. server_stop_step s' t) \<and> ss_lost s' \<noteq> 0 \<longrightarrow> ss_at s' = TcpShut)"
proof -
  let ?s1 = "(stop_start True)\<lparr>ss_asking := 1\<rparr>" and ?s2 = "(stop_start True)\<lparr>ss_asking := 1, ss_at := LoopClosed\<rparr>"
  let ?s3 = "?s2\<lparr>ss_asking := 0, ss_lost := 1\<rparr>"
  have "doh_arrives (stop_start True) ?s1" using doh_arrives.intros [of "stop_start True"] by (simp add: stop_start_def)
  then have 1: "stop_run True ?s1" by (rule stop_run.arrives_doh [OF stop_run.begins])
  have "server_stop_step ?s1 ?s2" using server_stop_step.close_loop [of ?s1] by (simp add: stop_start_def)
  with 1 have 2: "stop_run True ?s2" by (rule stop_run.moves)
  have "server_stop_step ?s2 ?s3" using server_stop_step.dropped [of ?s2 0] by (simp add: stop_start_def)
  with 2 have 3: "stop_run True ?s3" by (rule stop_run.moves)
  with Stop_returns_unless_doh_lost [OF 3] show ?thesis by (intro exI [of _ ?s3]) (auto simp: stop_start_def)
qed

text \<open>
  C23. A reload hands the address from one generation of listeners to the next, as long as the
  goroutines that open the sockets have run before \<open>Stop\<close> is called: no listener ever fails,
  all older ones are shut down, and once those of the last \<open>Run\<close> have started, they are the
  ones that listen. On each network at most one listener ever has the address.
\<close>

theorem reloads_hand_over_listeners:
  assumes "listen_run all_started s"
  shows "(\<forall>l\<in>set (ls_all s). ln_at l \<noteq> ListenFailed \<and> (ln_gen l \<noteq> ls_gen s \<longrightarrow> ln_at l = ShutDown)) \<and>
    length (listening_on net s) \<le> 1 \<and>
    (all_started s \<and> \<not> ls_stopped s \<longrightarrow> map ln_net (filter (\<lambda>l. ln_at l = Listening \<and> ln_gen l = ls_gen s) (ls_all s)) = [''udp'', ''tcp''])"
proof -
  have inv: "fresh_inv s" using listen_run_fresh [OF assms] .
  have l: "ln_gen l \<le> ls_gen s \<and> ln_at l \<noteq> ListenFailed \<and> (ln_gen l < ls_gen s \<or> ls_stopped s \<longrightarrow> ln_at l = ShutDown) \<and>
      (ln_at l = ShutDown \<longrightarrow> ln_gen l < ls_gen s \<or> ls_stopped s)" if "l \<in> set (ls_all s)" for l
    using inv that unfolding fresh_inv_def by blast
  have "filter (\<lambda>l. ln_at l = Listening \<and> ln_gen l = ls_gen s) (ls_all s) = filter (\<lambda>l. ln_gen l = ls_gen s) (ls_all s)"
    if "all_started s" "\<not> ls_stopped s"
  proof (rule filter_cong [OF refl])
    fix x
    assume x: "x \<in> set (ls_all s)"
    show "(ln_at x = Listening \<and> ln_gen x = ls_gen s) = (ln_gen x = ls_gen s)"
      using l [OF x] that x by (cases "ln_at x") (auto simp: all_started_def list_all_iff)
  qed
  moreover have "map ln_net (filter (\<lambda>l. ln_gen l = ls_gen s) (ls_all s)) = [''udp'', ''tcp'']"
    using inv unfolding fresh_inv_def by blast
  moreover have "\<forall>k\<in>set (ls_all s). ln_at k \<noteq> ListenFailed \<and> (ln_gen k \<noteq> ls_gen s \<longrightarrow> ln_at k = ShutDown)"
    using l nat_less_le by blast
  ultimately show ?thesis using listen_run_one [OF assms, of net] by simp
qed

lemma ex_first_started:
  "listen_run all_started (Server_start 1 (Server_start 0 first_run))"
proof -
  have s: "\<not> ls_stopped (Server_start i s)" if "\<not> ls_stopped s" for i s
    using that by (simp add: Server_start_def Let_def)
  have n: "\<not> ls_stopped first_run" "length (ls_all first_run) = 2" by (simp_all add: first_run_def run_listeners_def)
  have "listen_run all_started (Server_start 0 first_run)"
    by (rule listen_run.further [OF listen_run.first listen_step.goroutine_runs]) (use s n in auto)
  then show ?thesis
    by (rule listen_run.further [OF _ listen_step.goroutine_runs]) (use s n in \<open>auto simp: Server_start_def Let_def\<close>)
qed

theorem reloads_hand_over_listeners_witness:
  "\<exists>s. listen_run all_started s \<and> map ln_net (filter (\<lambda>l. ln_at l = Listening \<and> ln_gen l = ls_gen s) (ls_all s)) = [''udp'', ''tcp'']"
proof -
  let ?s = "Server_start 1 (Server_start 0 first_run)"
  have "all_started ?s" "\<not> ls_stopped ?s"
    by (simp_all add: all_started_def first_run_def run_listeners_def Server_start_def)
  then have "map ln_net (filter (\<lambda>l. ln_at l = Listening \<and> ln_gen l = ls_gen ?s) (ls_all ?s)) = [''udp'', ''tcp'']"
    using reloads_hand_over_listeners [OF ex_first_started, of "''udp''"] by blast
  with ex_first_started show ?thesis by metis
qed

text \<open>
  C24. A \<open>Stop\<close> that comes before such a goroutine has run leaves a listener behind for good: it
  can open the socket afterwards, for the old event loop, which drops every request, and
  then no later reload shuts it down, so that it keeps the address and the listeners of all
  later generations fail.
\<close>

theorem early_Stop_leaves_listener:
  assumes "stale s i" and "listen_step\<^sup>*\<^sup>* s s'"
  shows "stale s' i \<and> ls_all s' ! i = ls_all s ! i \<and>
    (\<forall>j<length (ls_all s'). ln_net (ls_all s' ! j) = ln_net (ls_all s ! i) \<and> ln_at (ls_all s' ! j) = NotStarted \<longrightarrow>
      ln_at (ls_all (Server_start j s') ! j) = ListenFailed)"
proof -
  from assms(2) have st: "stale s' i \<and> ls_all s' ! i = ls_all s ! i"
  proof (induction rule: rtranclp_induct)
    case base
    with assms(1) show ?case by simp
  next
    case (step y z)
    with stale_step [OF step(2), of i] show ?case by simp
  qed
  then have "ls_all s ! i \<in> set (ls_all s')" "ln_at (ls_all s ! i) = Listening" by (auto simp: stale_def) (metis nth_mem)
  then have "list_ex (\<lambda>k. ln_net k = ln_net (ls_all s ! i) \<and> ln_at k = Listening) (ls_all s')" by (auto simp: list_ex_iff)
  with st show ?thesis by (auto simp: Server_start_def Let_def)
qed

theorem early_Stop_leaves_listener_witness:
  "\<exists>s. listen_run (\<lambda>_. True) s \<and> stale s 0 \<and> ln_at (ls_all (Server_start 2 s) ! 2) = ListenFailed"
proof -
  let ?s = "Server_start 0 (run_listeners (stop_listeners first_run))"
  have "listen_run (\<lambda>_. True) (stop_listeners first_run)"
    by (rule listen_run.further [OF listen_run.first listen_step.Stop_called]) (simp_all add: first_run_def run_listeners_def)
  then have "listen_run (\<lambda>_. True) (run_listeners (stop_listeners first_run))"
    by (rule listen_run.further [OF _ listen_step.Run_called]) (simp_all add: stop_listeners_def)
  then have r: "listen_run (\<lambda>_. True) ?s"
    by (rule listen_run.further [OF _ listen_step.goroutine_runs]) (simp_all add: run_listeners_def Let_def)
  have s: "ls_all ?s = [\<lparr>ln_gen = 1, ln_net = ''udp'', ln_at = Listening\<rparr>, \<lparr>ln_gen = 1, ln_net = ''tcp'', ln_at = NotStarted\<rparr>,
      \<lparr>ln_gen = 2, ln_net = ''udp'', ln_at = NotStarted\<rparr>, \<lparr>ln_gen = 2, ln_net = ''tcp'', ln_at = NotStarted\<rparr>]" "ls_gen ?s = 2"
    by (simp_all add: Server_start_def run_listeners_def stop_listeners_def first_run_def dns_Shutdown_def)
  have st: "stale ?s 0" by (simp add: stale_def s)
  have "ln_at (ls_all (Server_start 2 ?s) ! 2) = ListenFailed"
    using early_Stop_leaves_listener [OF st rtranclp.rtrancl_refl] by (simp add: s)
  with r st show ?thesis by blast
qed

text \<open>
  The handshake with the activation goroutine cannot go wrong: no goroutine sends on the
  closed channel or closes it twice, and after an interrupt, whatever runs next, at most two
  steps later both the goroutine and the main program have ended.
\<close>

theorem interrupt_ends_program:
  assumes "handshake_run s"
  shows "hs_panic s = None \<and> (\<forall>n s'. (handshake_step ^^ n) s s' \<longrightarrow> n \<le> 2) \<and>
    (\<forall>s'. handshake_step\<^sup>*\<^sup>* s s' \<and> (\<nexists>t. handshake_step s' t) \<longrightarrow> hs_main s' = Serves \<or> hs_main s' = MainEnded \<and> hs_act s' = ActEnded) \<and>
    (hs_main s = SendsQuit \<longrightarrow> (\<exists>s'. (handshake_step ^^ 2) s s' \<and> hs_main s' = MainEnded \<and> hs_act s' = ActEnded))"
proof -
  have inv: "hs_inv s" using handshake_run_inv [OF assms] .
  have "hs_left s \<le> 2" by (simp add: hs_left_def split: main_pc.split)
  then have "n \<le> 2" if "(handshake_step ^^ n) s s'" for n s' using hs.steps_bounded [OF that inv] by simp
  moreover have "\<exists>s'. (handshake_step ^^ 2) s s' \<and> hs_main s' = MainEnded \<and> hs_act s' = ActEnded" if m: "hs_main s = SendsQuit"
  proof -
    let ?t = "s\<lparr>hs_main := WaitsForQuit, hs_act := AnswersQuit\<rparr>"
    have "handshake_step s ?t" using handshake_step.quits inv m by (simp add: hs_inv_def)
    moreover have "handshake_step ?t (?t\<lparr>hs_main := MainEnded, hs_act := ActEnded\<rparr>)" by (rule handshake_step.answers) simp_all
    ultimately show ?thesis
      by (intro exI [of _ "?t\<lparr>hs_main := MainEnded, hs_act := ActEnded\<rparr>"]) (auto simp: numeral_2_eq_2)
  qed
  ultimately show ?thesis
    using inv handshake_rest hs.steps_inv [OF _ inv] by (auto simp: hs_inv_def)
qed

theorem interrupt_ends_program_witness:
  "\<exists>s s'. handshake_run s \<and> hs_main s = SendsQuit \<and> (handshake_step ^^ 2) s s' \<and> hs_main s' = MainEnded"
proof -
  let ?s1 = "handshake_start\<lparr>hs_main := ClosesChannel, hs_act := WaitsToQuit\<rparr>"
  let ?s2 = "?s1\<lparr>hs_closed := True, hs_main := Serves\<rparr>" and ?s3 = "?s1\<lparr>hs_closed := True, hs_main := SendsQuit\<rparr>"
  have "handshake_step handshake_start ?s1" by (rule handshake_step.hands_over) (simp_all add: handshake_start_def)
  then have 1: "handshake_run ?s1" by (rule handshake_run.stepped [OF handshake_run.started])
  have "handshake_step ?s1 ?s2" using handshake_step.closes [of ?s1] by (simp add: handshake_start_def)
  with 1 have 2: "handshake_run ?s2" by (rule handshake_run.stepped)
  have 3: "handshake_run ?s3" using handshake_run.interrupted [OF 2] by (simp add: handshake_start_def)
  have m: "hs_main ?s3 = SendsQuit" by simp
  from interrupt_ends_program [OF 3] m obtain s' where "(handshake_step ^^ 2) ?s3 s'" "hs_main s' = MainEnded" by blast
  with 3 m show ?thesis by blast
qed

end
