(* ===== verification/Http_Servers.thy ===== *)
theory Http_Servers
  imports Go_Prelude
begin

text \<open>
  The sockets of the two HTTP servers across reloads: \<open>startHttp\<close> of src/server.go with
  \<open>ListenAndServe\<close> and \<open>Stop\<close> of src/doh.go, and the end of \<open>StartAPIServer\<close> (src/api.go) with
  \<open>reloadBlockCache\<close> (src/main.go). Both use a \<open>Server\<close> of net/http, which knows a listener only
  after \<open>Serve\<close> has taken it: a \<open>Shutdown\<close> that comes earlier does not close it, and the later
  \<open>Serve\<close> does, when it finds that the server is shutting down.

  Goroutines are listed in the order in which they were started; servers are numbered. The
  goroutine of \<open>startHttp\<close> reads the field \<open>s.httpServer\<close> only when it runs, so that it may
  find the server of a later \<open>Run\<close>.
\<close>

section \<open>Servers and goroutines\<close>

text \<open>Not run yet; has read which server to start; has its socket; serves; over.\<close>

datatype task = Unstarted | Read nat | Bound nat | Serves_at nat | Done

record http_servers =
  hv_inShutdown :: "bool list"
  hv_tasks :: "task list"

fun has_socket :: "task \<Rightarrow> bool" where
  "has_socket (Bound v) = True"
| "has_socket (Serves_at v) = True"
| "has_socket _ = False"

definition address_taken :: "'a http_servers_scheme \<Rightarrow> bool" where
  "address_taken s = list_ex has_socket (hv_tasks s)"

definition http_Serve :: "nat \<Rightarrow> nat \<Rightarrow> 'a http_servers_scheme \<Rightarrow> 'a http_servers_scheme" where
  "http_Serve i v s = s\<lparr>hv_tasks := (hv_tasks s)[i := if hv_inShutdown s ! v then Done else Serves_at v]\<rparr>"

definition http_Shutdown :: "nat \<Rightarrow> 'a http_servers_scheme \<Rightarrow> 'a http_servers_scheme" where
  "http_Shutdown v s = s\<lparr>hv_inShutdown := (hv_inShutdown s)[v := True],
     hv_tasks := map (\<lambda>t. if t = Serves_at v then Done else t) (hv_tasks s)\<rparr>"

text \<open>
  The first half of \<open>ListenAndServe\<close>: the server may be shutting down, the address taken. The
  operating system may refuse a socket for other reasons (rights, an address that another program
  has); this theory is about systems where it does not.
\<close>

definition http_Listen :: "nat \<Rightarrow> nat \<Rightarrow> 'a http_servers_scheme \<Rightarrow> 'a http_servers_scheme" where
  "http_Listen i v s =
     s\<lparr>hv_tasks := (hv_tasks s)[i := if hv_inShutdown s ! v \<or> address_taken s then Done else Bound v]\<rparr>"

section \<open>The DoH server\<close>

record doh_servers = http_servers +
  dv_stopped :: bool

definition doh_first :: doh_servers where
  "doh_first = \<lparr>hv_inShutdown = [False], hv_tasks = [Unstarted], dv_stopped = False\<rparr>"

text \<open>The number of the server in \<open>s.httpServer\<close>.\<close>

definition current :: "'a http_servers_scheme \<Rightarrow> nat" where
  "current s = length (hv_inShutdown s) - 1"

definition startHttp :: "nat \<Rightarrow> doh_servers \<Rightarrow> doh_servers" where
  "startHttp i s =
     (case hv_tasks s ! i of
        Unstarted \<Rightarrow> s\<lparr>hv_tasks := (hv_tasks s)[i := Read (current s)]\<rparr>
      | Read v \<Rightarrow> http_Listen i v s
      | Bound v \<Rightarrow> http_Serve i v s
      | _ \<Rightarrow> s)"

definition doh_Stop :: "doh_servers \<Rightarrow> doh_servers" where
  "doh_Stop s = (http_Shutdown (current s) s)\<lparr>dv_stopped := True\<rparr>"

definition doh_Run :: "doh_servers \<Rightarrow> doh_servers" where
  "doh_Run s = s\<lparr>hv_inShutdown := hv_inShutdown s @ [False], hv_tasks := hv_tasks s @ [Unstarted], dv_stopped := False\<rparr>"

text \<open>Runs in which \<open>Stop\<close> is called only in states that \<open>may_stop\<close> allows.\<close>

inductive doh_run :: "(doh_servers \<Rightarrow> bool) \<Rightarrow> doh_servers \<Rightarrow> bool" for may_stop where
  doh_begins: "doh_run may_stop doh_first"
| goroutine: "doh_run may_stop s \<Longrightarrow> i < length (hv_tasks s) \<Longrightarrow> doh_run may_stop (startHttp i s)"
| stops: "doh_run may_stop s \<Longrightarrow> \<not> dv_stopped s \<Longrightarrow> may_stop s \<Longrightarrow> doh_run may_stop (doh_Stop s)"
| runs: "doh_run may_stop s \<Longrightarrow> dv_stopped s \<Longrightarrow> doh_run may_stop (doh_Run s)"

text \<open>No goroutine is between its \<open>Listen\<close> and its \<open>Serve\<close>.\<close>

definition calm :: "doh_servers \<Rightarrow> bool" where
  "calm s \<longleftrightarrow> list_all (\<lambda>t. case t of Bound v \<Rightarrow> False | _ \<Rightarrow> True) (hv_tasks s)"

definition settled :: "doh_servers \<Rightarrow> bool" where
  "settled s \<longleftrightarrow> list_all (\<lambda>t. t = Done \<or> t = Serves_at (current s)) (hv_tasks s)"

definition task_ok :: "doh_servers \<Rightarrow> task \<Rightarrow> bool" where
  "task_ok s t \<longleftrightarrow>
     (case t of Read v \<Rightarrow> v \<le> current s | Bound v \<Rightarrow> v \<le> current s
      | Serves_at v \<Rightarrow> v = current s \<and> \<not> dv_stopped s | _ \<Rightarrow> True)"

definition doh_inv :: "doh_servers \<Rightarrow> bool" where
  "doh_inv s \<longleftrightarrow> hv_inShutdown s = replicate (current s) True @ [dv_stopped s] \<and> list_all (task_ok s) (hv_tasks s) \<and>
     length (filter has_socket (hv_tasks s)) \<le> 1"

definition calm_inv :: "doh_servers \<Rightarrow> bool" where
  "calm_inv s \<longleftrightarrow> (\<forall>v. Bound v \<in> set (hv_tasks s) \<longrightarrow> v = current s \<and> \<not> dv_stopped s) \<and>
     (\<not> dv_stopped s \<longrightarrow> (\<exists>t\<in>set (hv_tasks s). t \<in> {Unstarted, Read (current s), Bound (current s), Serves_at (current s)}))"

text \<open>What a goroutine does next.\<close>

definition task_next :: "doh_servers \<Rightarrow> task \<Rightarrow> task" where
  "task_next s t =
     (case t of Unstarted \<Rightarrow> Read (current s)
      | Read v \<Rightarrow> if hv_inShutdown s ! v \<or> address_taken s then Done else Bound v
      | Bound v \<Rightarrow> if hv_inShutdown s ! v then Done else Serves_at v
      | t \<Rightarrow> t)"

lemma startHttp_next:
  "startHttp i s = s\<lparr>hv_tasks := (hv_tasks s)[i := task_next s (hv_tasks s ! i)]\<rparr>"
  using list_update_id [of "hv_tasks s" i]
  by (cases "hv_tasks s ! i") (simp_all add: startHttp_def task_next_def http_Listen_def http_Serve_def)

lemma closed_iff: "doh_inv s \<Longrightarrow> v \<le> current s \<Longrightarrow> hv_inShutdown s ! v = (v < current s \<or> dv_stopped s)"
  by (auto simp: doh_inv_def nth_append)

lemma task_next_ok:
  assumes "doh_inv s" and "task_ok s t"
  shows "task_ok s (task_next s t)"
  using assms closed_iff [OF assms(1)] by (auto simp: task_ok_def task_next_def split: task.splits)

lemma start_one_socket:
  assumes "doh_inv s" and i: "i < length (hv_tasks s)"
  shows "length (filter has_socket ((hv_tasks s)[i := task_next s (hv_tasks s ! i)])) \<le> 1"
proof (cases "has_socket (task_next s (hv_tasks s ! i)) \<and> \<not> has_socket (hv_tasks s ! i)")
  case True
  then have "\<not> address_taken s" by (auto simp: task_next_def split: task.splits if_splits)
  then have "filter has_socket (hv_tasks s) = []" by (auto simp: address_taken_def list_ex_iff filter_empty_conv)
  then show ?thesis using filter_update_Suc [of has_socket "hv_tasks s" i] by (metis One_nat_def list.size(3))
next
  case False
  then have "length (filter has_socket ((hv_tasks s)[i := task_next s (hv_tasks s ! i)])) \<le> length (filter has_socket (hv_tasks s))"
    by (intro filter_update_le [OF i]) blast
  with assms(1) show ?thesis by (simp add: doh_inv_def)
qed

lemma start_inv:
  assumes inv: "doh_inv s" and i: "i < length (hv_tasks s)"
  shows "doh_inv (startHttp i s)"
proof -
  let ?s = "s\<lparr>hv_tasks := (hv_tasks s)[i := task_next s (hv_tasks s ! i)]\<rparr>"
  have c: "current ?s = current s" "task_ok ?s = task_ok s" by (simp_all add: current_def task_ok_def fun_eq_iff split: task.split)
  have "list_all (task_ok s) (hv_tasks s)" using inv by (simp add: doh_inv_def)
  then have "list_all (task_ok s) (hv_tasks ?s)"
    using task_next_ok [OF inv] i by (auto simp: list_all_length nth_list_update)
  then show ?thesis
    using inv start_one_socket [OF inv i] unfolding startHttp_next by (simp add: doh_inv_def c)
qed

lemma stop_inv_doh:
  assumes "doh_inv s"
  shows "doh_inv (doh_Stop s)"
proof -
  have c: "current (doh_Stop s) = current s" by (simp add: doh_Stop_def http_Shutdown_def current_def)
  have "hv_inShutdown (doh_Stop s) = replicate (current s) True @ [True]"
    using assms by (simp add: doh_inv_def doh_Stop_def http_Shutdown_def list_update_append)
  moreover have "list_all (task_ok (doh_Stop s)) (hv_tasks (doh_Stop s))"
    using assms by (auto simp: doh_inv_def doh_Stop_def http_Shutdown_def list_all_iff task_ok_def current_def split: task.splits)
  moreover have "length (filter has_socket (map (\<lambda>t. if t = Serves_at v then Done else t) ts)) \<le> length (filter has_socket ts)" for v ts
    by (rule filter_map_le) (simp split: if_splits)
  then have "length (filter has_socket (hv_tasks (doh_Stop s))) \<le> length (filter has_socket (hv_tasks s))"
    by (simp add: doh_Stop_def http_Shutdown_def del: filter_map)
  moreover have "dv_stopped (doh_Stop s)" by (simp add: doh_Stop_def)
  ultimately show ?thesis using assms by (simp add: doh_inv_def c)
qed

lemma run_inv_doh:
  assumes "doh_inv s" and "dv_stopped s"
  shows "doh_inv (doh_Run s)"
proof -
  have len: "length (hv_inShutdown s) = Suc (current s)" using assms(1) unfolding doh_inv_def by (metis length_append_singleton length_replicate)
  then have c: "current (doh_Run s) = Suc (current s)" by (simp add: doh_Run_def current_def)
  have "hv_inShutdown (doh_Run s) = replicate (Suc (current s)) True @ [False]"
    using assms by (simp add: doh_inv_def doh_Run_def replicate_append_same)
  moreover have "list_all (task_ok (doh_Run s)) (hv_tasks (doh_Run s))"
    using assms c by (fastforce simp: doh_inv_def list_all_iff task_ok_def doh_Run_def split: task.splits)
  ultimately show ?thesis using assms(1) by (simp add: doh_inv_def c) (simp add: doh_Run_def)
qed

lemma doh_run_inv: "doh_run may_stop s \<Longrightarrow> doh_inv s"
proof (induction rule: doh_run.induct)
  case doh_begins
  then show ?case by (simp add: doh_inv_def doh_first_def current_def task_ok_def)
qed (blast intro: start_inv stop_inv_doh run_inv_doh)+

text \<open>With calm stops, somebody serves the current server or is about to.\<close>

lemma start_live:
  assumes inv: "doh_inv s" and cinv: "calm_inv s" and i: "i < length (hv_tasks s)" and run: "\<not> dv_stopped s"
  shows "\<exists>t\<in>set ((hv_tasks s)[i := task_next s (hv_tasks s ! i)]).
    t \<in> {Unstarted, Read (current s), Bound (current s), Serves_at (current s)}" (is "\<exists>t\<in>?ts. t \<in> ?live")
proof -
  let ?t = "hv_tasks s ! i"
  obtain j where j: "j < length (hv_tasks s)" "hv_tasks s ! j \<in> ?live"
    using cinv run unfolding calm_inv_def by (metis in_set_conv_nth)
  consider "j \<noteq> i" | "task_next s ?t \<in> ?live" | "j = i" "?t = Read (current s)" "address_taken s"
    using j(2) run closed_iff [OF inv] by (cases "j = i"; cases "address_taken s") (auto simp: task_next_def)
  then show ?thesis
  proof cases
    case 1
    then have "hv_tasks s ! j \<in> set ((hv_tasks s)[i := task_next s ?t])"
      using j(1) by (metis length_list_update nth_list_update_neq nth_mem)
    with j(2) show ?thesis by blast
  next
    case 2
    then show ?thesis using set_update_memI [OF i] by blast
  next
    case 3
    then obtain k where k: "k < length (hv_tasks s)" "has_socket (hv_tasks s ! k)"
      by (auto simp: address_taken_def list_ex_length)
    then have "task_ok s (hv_tasks s ! k)" "hv_tasks s ! k \<in> set (hv_tasks s)" using inv by (simp_all add: doh_inv_def list_all_length)
    then have "hv_tasks s ! k \<in> ?live"
      using k(2) cinv unfolding calm_inv_def by (cases "hv_tasks s ! k") (simp_all add: task_ok_def)
    moreover have "k \<noteq> i" using k(2) 3(2) by auto
    moreover from this have "hv_tasks s ! k \<in> set ((hv_tasks s)[i := task_next s ?t])"
      using k(1) by (metis length_list_update nth_list_update_neq nth_mem)
    ultimately show ?thesis by blast
  qed
qed

lemma start_calm:
  assumes inv: "doh_inv s" and cinv: "calm_inv s" and i: "i < length (hv_tasks s)"
  shows "calm_inv (startHttp i s)"
proof -
  let ?t = "hv_tasks s ! i"
  have ok: "task_ok s ?t" using inv i by (simp add: doh_inv_def list_all_length)
  have b: "v = current s \<and> \<not> dv_stopped s" if "task_next s ?t = Bound v" for v
    using that ok closed_iff [OF inv] by (auto simp: task_next_def task_ok_def split: task.splits if_splits)
  have "v = current s \<and> \<not> dv_stopped s" if "Bound v \<in> set ((hv_tasks s)[i := task_next s ?t])" for v
  proof -
    have "Bound v = task_next s ?t \<or> Bound v \<in> set (hv_tasks s)"
      using that set_update_subset_insert [of "hv_tasks s" i "task_next s ?t"] by blast
    then show ?thesis using b [of v] cinv unfolding calm_inv_def by metis
  qed
  with start_live [OF inv cinv i] show ?thesis unfolding startHttp_next calm_inv_def by (simp add: current_def)
qed

lemma calm_run_inv: "doh_run calm s \<Longrightarrow> calm_inv s"
proof (induction rule: doh_run.induct)
  case doh_begins
  then show ?case by (simp add: calm_inv_def doh_first_def)
next
  case (goroutine s i)
  then show ?case using start_calm doh_run_inv by blast
next
  case (stops s)
  have "Bound v \<notin> set (hv_tasks s)" for v using stops(3) by (auto simp: calm_def list_all_iff)
  then show ?case by (auto simp: calm_inv_def doh_Stop_def http_Shutdown_def)
next
  case (runs s)
  then show ?case by (auto simp: calm_inv_def doh_Run_def)
qed

section \<open>The API server\<close>

text \<open>
  Between reloads the main goroutine waits; a reload shuts the old server down, if there is
  one, and starts a new one. \<open>StartAPIServer\<close> opens the socket itself and leaves only \<open>Serve\<close> to
  a goroutine; when the socket cannot be opened, \<open>logger.Fatal\<close> ends the process.
\<close>

datatype api_phase = Up | Restarting | Fatal

record api_servers = http_servers +
  av_phase :: api_phase

definition api_first :: api_servers where
  "api_first = \<lparr>hv_inShutdown = [], hv_tasks = [], av_phase = Restarting\<rparr>"

definition api_Shutdown :: "api_servers \<Rightarrow> api_servers" where
  "api_Shutdown s = (http_Shutdown (current s) s)\<lparr>av_phase := Restarting\<rparr>"

definition api_start :: "api_servers \<Rightarrow> api_servers" where
  "api_start s =
     (if address_taken s then s\<lparr>av_phase := Fatal\<rparr>
      else s\<lparr>hv_inShutdown := hv_inShutdown s @ [False], hv_tasks := hv_tasks s @ [Bound (length (hv_inShutdown s))],
             av_phase := Up\<rparr>)"

definition api_serve :: "nat \<Rightarrow> api_servers \<Rightarrow> api_servers" where
  "api_serve i s = (case hv_tasks s ! i of Bound v \<Rightarrow> http_Serve i v s | _ \<Rightarrow> s)"

inductive api_run :: "api_servers \<Rightarrow> bool" where
  api_begins: "api_run api_first"
| reload_shuts: "api_run s \<Longrightarrow> av_phase s = Up \<Longrightarrow> api_run (api_Shutdown s)"
| reload_starts: "api_run s \<Longrightarrow> av_phase s = Restarting \<Longrightarrow> api_run (api_start s)"
| serve_runs: "api_run s \<Longrightarrow> av_phase s \<noteq> Fatal \<Longrightarrow> i < length (hv_tasks s) \<Longrightarrow> api_run (api_serve i s)"

text \<open>All servers but the last are over; the last one has its socket until it is shut down.\<close>

definition last_task :: "api_phase \<Rightarrow> nat \<Rightarrow> task \<Rightarrow> bool" where
  "last_task ph n t \<longleftrightarrow> (if ph = Up then t \<in> {Bound n, Serves_at n} else if ph = Fatal then t = Bound n else t \<in> {Bound n, Done})"

inductive api_inv :: "api_servers \<Rightarrow> bool" where
  no_server: "api_inv api_first"
| servers: "last_task ph n t \<Longrightarrow>
    api_inv \<lparr>hv_inShutdown = replicate n True @ [ph \<noteq> Up], hv_tasks = replicate n Done @ [t], av_phase = ph\<rparr>"

lemma api_shut_inv:
  assumes "api_inv s" and "av_phase s = Up"
  shows "api_inv (api_Shutdown s)"
  using assms(1)
proof (cases rule: api_inv.cases)
  case (servers ph n t)
  have "api_Shutdown s = \<lparr>hv_inShutdown = replicate n True @ [Restarting \<noteq> Up],
      hv_tasks = replicate n Done @ [if t = Serves_at n then Done else t], av_phase = Restarting\<rparr>"
    by (simp add: servers(1) api_Shutdown_def http_Shutdown_def current_def list_update_append)
  moreover have "last_task Restarting n (if t = Serves_at n then Done else t)"
    using servers assms(2) by (auto simp: last_task_def)
  ultimately show ?thesis using api_inv.servers by metis
qed (use assms(2) in \<open>simp add: api_first_def\<close>)

lemma api_start_inv:
  assumes "api_inv s" and "av_phase s = Restarting"
  shows "api_inv (api_start s)"
  using assms(1)
proof (cases rule: api_inv.cases)
  case no_server
  then have "api_start s = \<lparr>hv_inShutdown = replicate 0 True @ [Up \<noteq> Up], hv_tasks = replicate 0 Done @ [Bound 0], av_phase = Up\<rparr>"
    by (simp add: api_start_def api_first_def address_taken_def)
  moreover have "last_task Up 0 (Bound 0)" by (simp add: last_task_def)
  ultimately show ?thesis using api_inv.servers by metis
next
  case (servers ph n t)
  have ph: "ph = Restarting" using servers(1) assms(2) by simp
  have taken: "address_taken s = has_socket t" by (simp add: servers(1) address_taken_def list_ex_iff)
  show ?thesis
  proof (cases "has_socket t")
    case True
    then have "t = Bound n" using servers(2) ph by (auto simp: last_task_def)
    moreover from True taken have "api_start s = \<lparr>hv_inShutdown = replicate n True @ [Fatal \<noteq> Up], hv_tasks = replicate n Done @ [t], av_phase = Fatal\<rparr>"
      by (simp add: api_start_def servers(1) ph)
    ultimately show ?thesis using api_inv.servers [of Fatal n t] by (simp add: last_task_def)
  next
    case False
    then have "t = Done" using servers(2) ph by (auto simp: last_task_def)
    with False taken have "api_start s = \<lparr>hv_inShutdown = replicate (Suc n) True @ [Up \<noteq> Up],
        hv_tasks = replicate (Suc n) Done @ [Bound (Suc n)], av_phase = Up\<rparr>"
      by (simp add: api_start_def servers(1) ph replicate_append_same)
    moreover have "last_task Up (Suc n) (Bound (Suc n))" by (simp add: last_task_def)
    ultimately show ?thesis using api_inv.servers by metis
  qed
qed

lemma api_serve_inv:
  assumes "api_inv s" and "av_phase s \<noteq> Fatal" and "i < length (hv_tasks s)"
  shows "api_inv (api_serve i s)"
  using assms(1)
proof (cases rule: api_inv.cases)
  case no_server
  with assms(3) show ?thesis by (simp add: api_first_def)
next
  case (servers ph n t)
  show ?thesis
  proof (cases "i = n \<and> t = Bound n")
    case True
    then have "api_serve i s = \<lparr>hv_inShutdown = replicate n True @ [ph \<noteq> Up],
        hv_tasks = replicate n Done @ [if ph \<noteq> Up then Done else Serves_at n], av_phase = ph\<rparr>"
      by (simp add: servers(1) api_serve_def http_Serve_def nth_append list_update_append)
    moreover have "last_task ph n (if ph \<noteq> Up then Done else Serves_at n)" using assms(2) servers(1) by (simp add: last_task_def)
    ultimately show ?thesis using api_inv.servers by metis
  next
    case False
    then have "api_serve i s = s"
      using assms(3) servers by (auto simp: api_serve_def nth_append last_task_def split: task.splits if_splits)
    with assms(1) show ?thesis by simp
  qed
qed

lemma api_run_inv: "api_run s \<Longrightarrow> api_inv s"
  by (induction rule: api_run.induct) (auto intro: api_inv.no_server api_shut_inv api_start_inv api_serve_inv)

section \<open>Properties\<close>

text \<open>
  C25. A listener of the DoH server is never left behind: in every history of runs, stops and
  late goroutines, whoever serves DoH serves the current server, which is not stopped, and
  no two goroutines have the address. If no \<open>Stop\<close> falls into a call of \<open>ListenAndServe\<close>, between
  its check for a shutdown and its \<open>Serve\<close>, then the current server is served as soon as all
  goroutines have settled, whichever of them started it.
\<close>

theorem doh_listener_is_current:
  assumes "doh_run may_stop s"
  shows "(\<forall>v. Serves_at v \<in> set (hv_tasks s) \<longrightarrow> v = current s \<and> \<not> dv_stopped s) \<and>
    length (filter has_socket (hv_tasks s)) \<le> 1 \<and>
    (may_stop = calm \<and> \<not> dv_stopped s \<and> settled s \<longrightarrow> Serves_at (current s) \<in> set (hv_tasks s))"
proof -
  have inv: "doh_inv s" using doh_run_inv [OF assms] .
  have "Serves_at (current s) \<in> set (hv_tasks s)" if "may_stop = calm" "\<not> dv_stopped s" "settled s"
    using calm_run_inv [of s] assms that unfolding calm_inv_def settled_def list_all_iff by auto
  with inv show ?thesis by (force simp: doh_inv_def list_all_iff task_ok_def)
qed

theorem doh_listener_is_current_witness:
  "\<exists>s. doh_run calm s \<and> length (hv_inShutdown s) = 2 \<and> Serves_at (current s) \<in> set (hv_tasks s)"
proof -
  let ?s = "startHttp 1 (startHttp 1 (startHttp 0 (startHttp 0 (startHttp 0 (doh_Run (doh_Stop doh_first))))))"
  have "doh_run calm (doh_Stop doh_first)"
    by (rule doh_run.stops [OF doh_run.doh_begins]) (simp_all add: doh_first_def calm_def)
  then have r: "doh_run calm (doh_Run (doh_Stop doh_first))" by (rule doh_run.runs) (simp add: doh_Stop_def)
  have len: "length (hv_tasks (startHttp i s)) = length (hv_tasks s)" for i s by (simp add: startHttp_next)
  have "doh_run calm ?s"
    by (intro doh_run.goroutine r) (simp_all add: len doh_Run_def doh_Stop_def http_Shutdown_def doh_first_def)
  moreover have "hv_tasks ?s = [Serves_at 1, Done]" "hv_inShutdown ?s = [True, False]" "\<not> dv_stopped ?s"
    by (simp_all add: startHttp_next task_next_def doh_Run_def doh_Stop_def http_Shutdown_def doh_first_def current_def address_taken_def)
  moreover from this have "settled ?s" by (simp add: settled_def current_def)
  ultimately show ?thesis using doh_listener_is_current [of calm ?s] by (intro exI [of _ ?s]) simp
qed

text \<open>
  C26. The API server survives a reload exactly if the goroutine that calls \<open>Serve\<close> was quick
  enough: in every history, while the server is up exactly one socket is open and belongs to
  it; opening the socket of the next server fails because of the address, and ends the process,
  exactly if the goroutine of the old one has not run by then (other failures of the operating
  system are outside this theory). If it has run before the reload began, the
  new server is up at once.
\<close>

theorem api_survives_reload_iff:
  assumes "api_run s"
  shows "(av_phase s = Up \<longrightarrow> length (filter has_socket (hv_tasks s)) = 1 \<and> has_socket (last (hv_tasks s))) \<and>
    (av_phase s = Restarting \<longrightarrow>
      (av_phase (api_start s) = Fatal \<longleftrightarrow> hv_tasks s \<noteq> [] \<and> last (hv_tasks s) = Bound (current s))) \<and>
    (av_phase s = Up \<and> last (hv_tasks s) = Serves_at (current s) \<longrightarrow> av_phase (api_start (api_Shutdown s)) = Up)"
  using api_run_inv [OF assms]
proof (cases rule: api_inv.cases)
  case no_server
  then show ?thesis by (simp add: api_first_def api_start_def address_taken_def)
next
  case (servers ph n t)
  have len: "current s = n" by (simp add: servers(1) current_def)
  have taken: "address_taken s = has_socket t" by (simp add: servers(1) address_taken_def list_ex_iff)
  show ?thesis
    using servers(2) taken len
    by (auto simp: servers(1) last_task_def api_start_def api_Shutdown_def http_Shutdown_def address_taken_def list_ex_iff
        split: if_splits)
qed

theorem api_survives_reload_iff_witness:
  "\<exists>s. api_run s \<and> av_phase s = Restarting \<and> av_phase (api_start s) = Fatal"
proof -
  let ?s = "api_Shutdown (api_start api_first)"
  have "api_run (api_start api_first)" by (rule api_run.reload_starts [OF api_run.api_begins]) (simp add: api_first_def)
  then have r: "api_run ?s"
    by (rule api_run.reload_shuts) (simp add: api_first_def api_start_def address_taken_def)
  have s: "hv_tasks ?s = [Bound 0]" "current ?s = 0" "av_phase ?s = Restarting"
    by (simp_all add: api_Shutdown_def http_Shutdown_def api_start_def api_first_def address_taken_def current_def)
  with api_survives_reload_iff [OF r] r show ?thesis by (intro exI [of _ ?s]) simp
qed

end
