(* ===== verification/LCache_Spec.thy ===== *)
theory LCache_Spec
  imports LCache
begin

text \<open>
  What the reply cache promises, as an abstract machine, and the proof that package lcache
  implements it. The abstract cache is a map from lower-case keys to an entry and the last
  moment at which it may be served, with a bound on its size; it has no counter, no pointers
  and no order of updates. The proof is a simulation, once for every implementation of the
  contract \<open>dns_cache\<close>.
\<close>

section \<open>The abstract cache\<close>

datatype 'e observation = Got "cache_error + 'e" | Put "cache_error option" | Removed

type_synonym 'e expiring_map = "string \<rightharpoonup> 'e \<times> gotime"

definition seconds_left :: "gotime \<Rightarrow> gotime \<Rightarrow> u32" where
  "seconds_left t now = uint32_Seconds (duration_Truncate (t - now) Second)"

fun spec_step ::
  "('e \<Rightarrow> rref list) \<Rightarrow> (rr_heap \<Rightarrow> 'e \<Rightarrow> duration) \<Rightarrow> int \<Rightarrow> gotime \<Rightarrow> 'e cache_op \<Rightarrow> rr_heap \<times> 'e expiring_map
    \<Rightarrow> 'e observation \<times> rr_heap \<times> 'e expiring_map" where
  "spec_step recs lifetime bound now (OpGet k) (h, m) =
     (case m (ToLower k) of
        None \<Rightarrow> (Got (Inl (KeyNotFound (ToLower k))), h, m)
      | Some (e, t) \<Rightarrow>
          if t < now then (Got (Inl (KeyExpired (ToLower k))), h, m(ToLower k := None))
          else (Got (Inr e), store_ttls (seconds_left t now) (recs e) h, m))"
| "spec_step recs lifetime bound now (OpSet k (Some e)) (h, m) =
     (if 0 < bound \<and> bound \<le> int (card (dom m)) \<and> ToLower k \<notin> dom m then (Put (Some CacheIsFull), h, m)
      else (Put None, h, m(ToLower k \<mapsto> (e, now + lifetime h e))))"
| "spec_step recs lifetime bound now (OpSet k None) (h, m) = (Put None, h, m(k := None))"
| "spec_step recs lifetime bound now (OpRemove k) (h, m) = (Removed, h, m(k := None))"

fun spec_run ::
  "('e \<Rightarrow> rref list) \<Rightarrow> (rr_heap \<Rightarrow> 'e \<Rightarrow> duration) \<Rightarrow> int \<Rightarrow> (gotime \<times> 'e cache_op) list \<Rightarrow> rr_heap \<times> 'e expiring_map
    \<Rightarrow> 'e observation list \<times> rr_heap" where
  "spec_run recs lifetime bound [] (h, m) = ([], h)"
| "spec_run recs lifetime bound ((now, op) # ops) s =
     (case spec_step recs lifetime bound now op s of (ob, s) \<Rightarrow>
        apfst ((#) ob) (spec_run recs lifetime bound ops s))"

section \<open>The implementation as a client sees it\<close>

fun cache_step ::
  "(string \<Rightarrow> gotime \<Rightarrow> rr_heap \<Rightarrow> 'c \<Rightarrow> (cache_error + 'e) \<times> rr_heap \<times> 'c) \<Rightarrow>
   (string \<Rightarrow> 'e option \<Rightarrow> gotime \<Rightarrow> rr_heap \<Rightarrow> 'c \<Rightarrow> cache_error option \<times> 'c) \<Rightarrow> (string \<Rightarrow> 'c \<Rightarrow> 'c) \<Rightarrow>
   gotime \<Rightarrow> 'e cache_op \<Rightarrow> rr_heap \<times> 'c \<Rightarrow> 'e observation \<times> rr_heap \<times> 'c" where
  "cache_step get put rem now (OpGet k) (h, c) = (case get k now h c of (r, h, c) \<Rightarrow> (Got r, h, c))"
| "cache_step get put rem now (OpSet k e) (h, c) = (case put k e now h c of (r, c) \<Rightarrow> (Put r, h, c))"
| "cache_step get put rem now (OpRemove k) (h, c) = (Removed, h, rem k c)"

fun cache_run ::
  "(string \<Rightarrow> gotime \<Rightarrow> rr_heap \<Rightarrow> 'c \<Rightarrow> (cache_error + 'e) \<times> rr_heap \<times> 'c) \<Rightarrow>
   (string \<Rightarrow> 'e option \<Rightarrow> gotime \<Rightarrow> rr_heap \<Rightarrow> 'c \<Rightarrow> cache_error option \<times> 'c) \<Rightarrow> (string \<Rightarrow> 'c \<Rightarrow> 'c) \<Rightarrow>
   (gotime \<times> 'e cache_op) list \<Rightarrow> rr_heap \<times> 'c \<Rightarrow> 'e observation list \<times> rr_heap" where
  "cache_run get put rem [] (h, c) = ([], h)"
| "cache_run get put rem ((now, op) # ops) s =
     (case cache_step get put rem now op s of (ob, s) \<Rightarrow> apfst ((#) ob) (cache_run get put rem ops s))"

context dns_cache
begin

lemma put_simulates:
  assumes "inv c"
  shows "\<exists>r c'. put k (Some e) now h c = (r, c') \<and> inv c' \<and> cap c' = cap c \<and>
    spec_step recs lifetime (cap c) now (OpSet k (Some e)) (h, look c) = (Put r, h, look c')"
proof (cases "full c \<and> \<not> has k c")
  case True
  then have "0 < cap c \<and> cap c \<le> int (card (dom (look c))) \<and> ToLower k \<notin> dom (look c)"
    using assms by (simp add: full_iff len_look [symmetric] has_iff domIff)
  with True assms show ?thesis by (simp add: put_full)
next
  case False
  then have room: "\<not> full c \<or> has k c" by blast
  then have "\<not> (0 < cap c \<and> cap c \<le> int (card (dom (look c))) \<and> ToLower k \<notin> dom (look c))"
    using assms by (simp add: full_iff len_look [symmetric] has_iff domIff)
  with put_ok [OF assms room, of e now h] show ?thesis by auto
qed

text \<open>One step of any implementation is one step of the abstract machine.\<close>

lemma step_simulates:
  assumes "inv c"
  shows "\<exists>ob h' c'. cache_step get put rem now op (h, c) = (ob, h', c') \<and> inv c' \<and> cap c' = cap c \<and>
    spec_step recs lifetime (cap c) now op (h, look c) = (ob, h', look c')"
proof (cases op)
  case (OpGet k)
  with get_cases [OF assms, of k now h] assms show ?thesis
    by (auto simp: look_rem inv_rem cap_rem seconds_left_def)
next
  case (OpSet k e)
  show ?thesis
  proof (cases e)
    case None
    with OpSet assms show ?thesis by (simp add: put_nil inv_rem cap_rem look_rem)
  next
    case (Some x)
    from put_simulates [OF assms, of k x now h] obtain r c' where
      "put k (Some x) now h c = (r, c')" "inv c'" "cap c' = cap c"
      "spec_step recs lifetime (cap c) now (OpSet k (Some x)) (h, look c) = (Put r, h, look c')" by blast
    with OpSet Some show ?thesis by simp
  qed
next
  case (OpRemove k)
  with assms show ?thesis by (simp add: inv_rem cap_rem look_rem)
qed

lemma run_simulates:
  "inv c \<Longrightarrow> cache_run get put rem ops (h, c) = spec_run recs lifetime (cap c) ops (h, look c)"
proof (induction ops arbitrary: h c)
  case (Cons o' ops)
  obtain now op where o': "o' = (now, op)" by (cases o')
  from step_simulates [OF Cons.prems, of now op h] obtain ob h' c' where
    "cache_step get put rem now op (h, c) = (ob, h', c')" "inv c'" "cap c' = cap c"
    "spec_step recs lifetime (cap c) now op (h, look c) = (ob, h', look c')" by blast
  with Cons.IH [of c' h'] o' show ?case by simp
qed simp

end

section \<open>Property\<close>

text \<open>
  C6. Package lcache refines the expiring map: a new cache of any bound, under any sequence of
  operations at any moments, gives a client exactly the results of the abstract machine that
  starts empty, and leaves the same records in memory.
\<close>

theorem lcache_refines_expiring_map:
  "cache_run (lengCache_Get DefaultEntry_RRs) (lengCache_Set DefaultEntry_RRs) lengCache_Remove ops (h, NewDefault n) =
     spec_run DefaultEntry_RRs (minTtlFor DefaultEntry_RRs) n ops (h, Map.empty)"
proof -
  have "lcache_inv (NewDefault n)" "maxSize (NewDefault n) = n" "lcache_look (NewDefault n) = Map.empty"
    by (simp_all add: NewDefault_def lcache_inv_NewGeneric) (simp_all add: NewGeneric_def lcache_look_def fun_eq_iff)
  with lc.run_simulates [of "NewDefault n" ops h] show ?thesis by simp
qed

end
