(* ===== verification/Spec2Isabelle.thy ===== *)
theory Spec2Isabelle
  imports Worker_Pool Wire_Codec Go_Slices Lifecycle Shutdown Http_Servers LCache_Spec
begin

text \<open>
  \<^bold>\<open>A verification of leng\<close>

  leng is a DNS server in Go that answers for custom records, blocks names on lists, caches
  replies and forwards the rest to upstream servers over UDP, TCP or HTTPS. This development
  models the program's own packages under src/ and the parts of the vendored DNS and glob
  libraries that decide its behaviour, and proves what clients, the operator and the
  components may rely on. Defects that the proofs showed are theorems as well.

  \<^bold>\<open>Parts and how they interact.\<close> Listeners for UDP, TCP and HTTPS hand requests to the event
  loop through a channel. The loop starts a worker per request, which asks the custom
  records, the block list, the reply cache, the cache of failures and the upstream resolver,
  in that order, follows CNAME records and writes the reply. The updater fills the block list
  from the configuration, from downloads and from hosts files. The HTTP API reads and changes
  the block list and triggers reloads. The main program puts the parts together and reacts to
  signals.

  \<^bold>\<open>Theories.\<close>

  \<^item> \<open>Go_Prelude\<close>: panics as values (\<open>go_bind\<close>), machine integers, time, strings, paths.
    \<open>Net_IP\<close>: addresses. \<open>Md5\<close>: the digest behind cache keys. \<open>Go_Web\<close>: base64url, query
    strings, HTTP responses.
  \<^item> \<open>Dns_Msg\<close>: messages, records and the heap of records that messages share by pointer;
    \<open>Dns_Mux\<close>: \<open>dns.ServeMux\<close>; \<open>Rr_Text\<close>: records as text (vendored miekg/dns).
  \<^item> \<open>Dns_Names\<close>, \<open>Dns_Wire\<close> (vendored miekg/dns, msg.go and msg_helpers.go): names and messages
    as bytes, \<open>Msg_Pack\<close> and \<open>Msg_Unpack\<close>. What the sections of a message share is the
    locale \<open>wire_item\<close>, interpreted for numbers (\<open>u16s\<close>), questions (\<open>questions\<close>) and records
    (\<open>rrs\<close>). \<open>Wire_Codec\<close>: this codec as the one that leng calls, for bytes from anywhere.
  \<^item> \<open>LCache\<close> (src/lcache): the reply cache, with its contract as the locale \<open>dns_cache\<close>,
    interpreted as \<open>lc\<close>; \<open>LCache_Spec\<close>: the abstract expiring map it refines.
  \<^item> \<open>Main_Cache\<close> (src/cache.go, src/utils.go): the older message caches. \<open>Glob_Match\<close>:
    go-glob, equal to the language of its patterns. \<open>Block_Cache\<close> (src/cache.go): the block
    list, locale \<open>block_list\<close>, interpreted as \<open>bc\<close>.
  \<^item> \<open>Metrics\<close> (src/internal/metric), \<open>Custom_Records\<close> (src/records.go; locale \<open>custom_dns\<close>,
    interpretation \<open>cr\<close>), \<open>Tls_Config\<close> (src/tls), \<open>Toml_Decode\<close> (vendored go-toml,
    unmarshaler.go: how a parsed document is stored in a structure), \<open>Leng_Config\<close>
    (src/config.go, on that decoder), \<open>Logger\<close> (src/logger.go).
  \<^item> \<open>Resolver\<close> (src/resolver.go): DoH lookups, and the race of the nameservers as a transition
    system over events.
  \<^item> \<open>Event_Loop\<close>, \<open>Request_Properties\<close> (src/handler.go): a request from its arrival to its
    reply, on the state \<open>world\<close>; the invariant \<open>world_ok\<close> and what the client sees.
  \<^item> \<open>Workers\<close> (src/handler.go): the same code as \<open>worker_step\<close>, cut into the steps between
    which other goroutines may run, with the proof that a worker alone is \<open>doRequest\<close> and that
    every worker ends. \<open>Typed_Records\<close>: header and Go type of every record agree.
    \<open>Go_Slices\<close>: the answers of a reply as a slice of a shared array.
  \<^item> \<open>Step_Systems\<close>: the locale \<open>measured_steps\<close> (an invariant and a decreasing measure), which
    the transition systems of \<open>Lifecycle\<close> (\<open>ll\<close>) and \<open>Shutdown\<close> (\<open>sw\<close>, \<open>hs\<close>) interpret.
  \<^item> \<open>Lifecycle\<close> (src/handler.go, src/server.go): the lock, the channel, the limit on workers
    and \<open>Stop\<close>, as step relations with an invariant and a measure.
  \<^item> \<open>Shutdown\<close> (src/server.go, src/doh.go, src/activation.go): \<open>Stop\<close> and the handlers that
    wait, the DNS sockets of successive runs, and the handshake with the activation
    goroutine. \<open>Http_Servers\<close> (src/server.go, src/doh.go, src/api.go): the sockets of the DoH
    and API servers across reloads, on net/http.
  \<^item> \<open>Doh_Server\<close> (src/doh.go), \<open>Updater\<close> (src/updater.go), \<open>Api\<close> (src/api.go).
  \<^item> \<open>Leng_Main\<close> (src/server.go, src/main.go): start, reloads and signals on the state
    \<open>process\<close>; \<open>leng_run\<close> is the set of states that the whole program can reach when requests
    are served one after the other.
  \<^item> \<open>Worker_Pool\<close>: the whole program with any number of requests at the same time; \<open>conc_run\<close>
    is the set of states it can reach.

  Definitions have the names of the Go code; a method carries its type first
  (\<open>lengCache_Get\<close>). A Go struct is a record, a pointer that is shared and written through is
  a reference into a heap, a nil map or pointer is \<open>None\<close>, and a run-time panic is \<open>Inl\<close>.

  \<^bold>\<open>What the lemmas show.\<close> Each component has an invariant that all its operations keep
  (\<open>lcache_inv\<close>, \<open>bc_inv\<close>, \<open>loop_inv\<close>, \<open>log_inv\<close>, \<open>world_ok\<close>, \<open>process_ok\<close>, \<open>conc_ok\<close>), functional theorems
  for its branches, and a contract where another component relies on it. The theorems about
  requests are for any schedule of the background goroutines; \<open>every_run_serves\<close> extends them
  to every history of the program, and \<open>Worker_Pool\<close> to requests that run at the same time,
  where every worker owns the message it writes to. \<open>Wire_Codec\<close> shows
  that no bytes can bring a malformed name or record into the program, that unpacking ends on
  every input, and which unpacked answers can be packed and sent on.

  \<^bold>\<open>Bounds and fuel.\<close> All functions are total. The race of the nameservers runs on fuel
  \<open>lk_fuel\<close>, a bound on the number of events that every run respects (\<open>lookup_race_terminates\<close>).
  CNAME following is bounded by the configured depth, as in the code; the steps of a worker
  decrease a lexicographic rank, so \<open>run_worker\<close> needs no fuel. The schedule \<open>between\<close>
  of a request lists what other goroutines do at each yield; when it is used up, nothing
  happens at the later ones, and every finite interleaving is some schedule. Unpacking a name
  ends because a label uses up the budget of 255 octets and at most 126 pointers are followed.

  \<^bold>\<open>Parameters.\<close> The wire codec (\<open>Pack\<close>, \<open>Unpack\<close>), for which \<open>Wire_Codec\<close> gives the one of
  the library, up to the data of records other than A, AAAA and CNAME (\<open>other_rdata\<close>) and
  packing with compression, which leng never asks for; the network at each lookup, regular
  expressions, the parser of TOML text, the zone-file parser, X.509 files, the file systems, the
  sockets, and the order in which Go ranges over maps. Hypotheses about them are named where
  they are used (\<open>permutes_groups\<close>, \<open>upstream_typed\<close>), or said of single records (\<open>repacks\<close>).

  \<^bold>\<open>Not modelled.\<close> The bodies of the parameters above; the texts of log messages and errors;
  Unicode case folding and white space beyond ASCII; the router of gin beyond the routes that
  leng registers, CORS and the Prometheus page; failures of sockets in \<open>Shutdown\<close> and
  \<open>Http_Servers\<close> other than an address this program holds; what becomes of a message after
  \<open>WriteMsg\<close> has taken it; the registration of metrics; command-line flags.
  In the theories of requests the answers of a message are a list. \<open>Go_Slices\<close> shows that this
  is right for a worker that appends to its reply and for the cached slice, and what it hides:
  two workers that hold copies of one cached slice overwrite each other's appended records.
  \<open>Pack\<close> leaves its message as it is (the library writes the upper bits of the response code
  into the OPT record). A lookup counts its question when it starts. In
  \<open>Worker_Pool\<close> a reload is one step; \<open>Lifecycle\<close> and \<open>Shutdown\<close> look into it. Data races in the
  sense of the Go memory model are outside: every step of a goroutine is atomic.
\<close>

end
